theory Spec2Isabelle
  imports Complex_Main "HOL-Library.Product_Lexorder" "HOL-Library.Multiset"
begin

section \<open>Data model (MinecraftItemBuilder.tsx, interfaces Color, Item, Slot)\<close>

text \<open>
  A JavaScript number is modelled as \<open>int\<close> where the program counts (stack sizes,
  quantities, indices, signal strengths) and as \<open>rat\<close> for the fill fractions of
  \<open>calculateSignalStrength\<close>. The program computes in double precision. For the stack
  sizes 1, 16 and 64, quantities from 1 to the stack size and at most 54 slots, every
  quotient \<open>quantity / stackLimit\<close> is a multiple of \<open>1/64\<close>, so the fill sum is computed
  without rounding, and the scaled sum is never close to an integer unless it is one: there
  the exact rational value and its floor are what the program computes. For other stack
  sizes or quantities the double can round to the other side of an integer; the scorer of
  this theory stands for the program on the containers described, and the statements about
  its value are made for those.

  An optional property is an \<open>option\<close>; a property of type \<open>true\<close> that may be absent
  (\<open>isDuplicate\<close>, \<open>userSubstituted\<close>) is a \<open>bool\<close>, False meaning absent.
  A slot of a container is \<open>Slot option\<close>, \<open>None\<close> being JavaScript's \<open>null\<close>.
\<close>

record Color =
  rgb :: "int \<times> int \<times> int"
  hsl :: "int \<times> int \<times> int"
  hex :: string

record Item =
  item_id :: string
  name :: string
  sprite :: string
  color :: Color
  category :: "string list"
  item_group :: "string list"
  material :: string
  stack_size :: int
  rarity :: string

record Slot = Item +
  forceAdjusted :: "bool option"
  isAdjusted :: "bool option"
  quantity :: "int option"
  isDuplicate :: bool
  originalIndex :: "int option"
  userSubstituted :: bool

type_synonym Container = "Slot option list"

datatype error = TypeError | RangeError

section \<open>Signal scorer\<close>

text \<open>\<open>slots.filter((item) => item !== null)\<close>: the occupied slots, in order.\<close>

fun nonNull :: "'a option list \<Rightarrow> 'a list" where
  "nonNull [] = []"
| "nonNull (None # xs) = nonNull xs"
| "nonNull (Some x # xs) = x # nonNull xs"

text \<open>\<open>Math.min(64, item.stack_size || 64)\<close> and \<open>item.quantity || 1\<close>.\<close>

definition stackLimit :: "Slot \<Rightarrow> int" where
  "stackLimit item = min 64 (if stack_size item = 0 then 64 else stack_size item)"

definition quantityOr1 :: "Slot \<Rightarrow> int" where
  "quantityOr1 item = (case quantity item of None \<Rightarrow> 1 | Some q \<Rightarrow> if q = 0 then 1 else q)"

definition calculateSignalStrength :: "Container \<Rightarrow> int" where
  "calculateSignalStrength slots =
     (let invSize = (54 :: rat);
          items = nonNull slots
      in if length items = 0 then 0
         else
           let fillSum = foldl (\<lambda>sum item.
                   sum + of_int (quantityOr1 item) / of_int (stackLimit item)) (0 :: rat) items
           in \<lfloor>(14 / invSize) * fillSum + of_nat (min 1 (length items))\<rfloor>)"

section \<open>Dictionaries\<close>

text \<open>
  A \<open>Dictionary<T>\<close> of the program is a plain object (\<open>{}\<close>, or an object literal).
  Reading a key that the object does not own finds the member of \<open>Object.prototype\<close> of
  that name, when there is one: a built-in function, or the prototype object itself under
  \<open>__proto__\<close>. These are the names of those members.
\<close>

definition inheritedKey :: "string \<Rightarrow> bool" where
  "inheritedKey k =
     (k \<in> set [''constructor'', ''hasOwnProperty'', ''isPrototypeOf'', ''propertyIsEnumerable'',
               ''toLocaleString'', ''toString'', ''valueOf'', ''__proto__'',
               ''__defineGetter__'', ''__defineSetter__'', ''__lookupGetter__'',
               ''__lookupSetter__''])"

text \<open>The string such a member converts to: the source text of a built-in function
  (\<open>constructor\<close> is the function \<open>Object\<close>), and \<open>[object Object]\<close> for the prototype
  object.\<close>

definition memberText :: "string \<Rightarrow> string" where
  "memberText k =
     (if k = ''__proto__'' then ''[object Object]''
      else ''function '' @ (if k = ''constructor'' then ''Object'' else k) @ ''() { [native code] }'')"

text \<open>What the program reads from a dictionary where it expects a number: a number, or
  a value that is not one (a member of \<open>Object.prototype\<close>, or a string made from one),
  given by the string it converts to. None of these strings is a numeral.\<close>

datatype entry = Number int | Other string

text \<open>\<open>v + 1\<close>: the sum of two numbers; with a value that is not a number, the
  concatenation of the two strings.\<close>

definition plusOne :: "entry \<Rightarrow> entry" where
  "plusOne v = (case v of Number n \<Rightarrow> Number (n + 1) | Other s \<Rightarrow> Other (s @ ''1''))"

text \<open>\<open>v > n\<close> for a number \<open>n\<close>: a value that is not a number converts to NaN, and
  every comparison with NaN is false.\<close>

definition entryGt :: "entry \<Rightarrow> int \<Rightarrow> bool" where
  "entryGt v n = (case v of Number m \<Rightarrow> m > n | Other s \<Rightarrow> False)"

text \<open>\<open>a < b\<close>: two numbers by value, two strings by their code units, and false (NaN)
  when exactly one of the two is a number.\<close>

fun textLess :: "string \<Rightarrow> string \<Rightarrow> bool" where
  "textLess [] [] = False"
| "textLess [] (b # t) = True"
| "textLess (a # s) [] = False"
| "textLess (a # s) (b # t) = ((of_char a :: nat) < of_char b \<or> (a = b \<and> textLess s t))"

definition entryLess :: "entry \<Rightarrow> entry \<Rightarrow> bool" where
  "entryLess a b =
     (case a of
        Number m \<Rightarrow> (case b of Number n \<Rightarrow> m < n | Other t \<Rightarrow> False)
      | Other s \<Rightarrow> (case b of Number n \<Rightarrow> False | Other t \<Rightarrow> textLess s t))"

text \<open>\<open>acc[k]\<close> on a dictionary with the own properties \<open>acc\<close>.\<close>

definition readKey :: "(string \<rightharpoonup> entry) \<Rightarrow> string \<Rightarrow> entry option" where
  "readKey acc k =
     (case acc k of Some v \<Rightarrow> Some v
      | None \<Rightarrow> if inheritedKey k then Some (Other (memberText k)) else None)"

text \<open>\<open>acc[k] = v\<close>. Under \<open>__proto__\<close> the assignment reaches the setter of
  \<open>Object.prototype\<close>, which ignores a value that is not an object.\<close>

definition writeKey :: "(string \<rightharpoonup> entry) \<Rightarrow> string \<Rightarrow> entry \<Rightarrow> (string \<rightharpoonup> entry)" where
  "writeKey acc k v = (if k = ''__proto__'' then acc else acc(k \<mapsto> v))"

section \<open>Rarity order\<close>

text \<open>The object literal \<open>rarityOrder\<close>, read at the key \<open>r\<close>.\<close>

definition rarityOrder :: "string \<Rightarrow> entry option" where
  "rarityOrder r =
     readKey (Map.empty(''common'' \<mapsto> Number 0, ''uncommon'' \<mapsto> Number 1,
                        ''rare'' \<mapsto> Number 2, ''epic'' \<mapsto> Number 3)) r"

definition getRarityOrder :: "string option \<Rightarrow> entry" where
  "getRarityOrder r =
     (case r of None \<Rightarrow> Number 0
      | Some s \<Rightarrow> (case rarityOrder s of None \<Rightarrow> Number 0 | Some v \<Rightarrow> v))"

section \<open>Slot optimizer\<close>

text \<open>
  \<open>optimizeForRedstone\<close> works on one array \<open>optimizedSlots\<close> whose objects it mutates
  through references held in other arrays (\<open>forcedItems\<close>, the filtered arrays of the loops).
  Every such object sits at one index of \<open>optimizedSlots\<close> for the whole run, so the model
  passes the array as a value and names an object by its index.
\<close>

text \<open>Comparisons of a quantity with a number; an absent quantity compares false.\<close>

definition quantityGt :: "Slot \<Rightarrow> int \<Rightarrow> bool" where
  "quantityGt item n = (case quantity item of None \<Rightarrow> False | Some q \<Rightarrow> q > n)"

definition quantityLt :: "Slot \<Rightarrow> int \<Rightarrow> bool" where
  "quantityLt item n = (case quantity item of None \<Rightarrow> False | Some q \<Rightarrow> q < n)"

text \<open>Step 1: the copy with defaults, \<open>quantity: item.quantity || 1\<close> and
  \<open>originalIndex: item.originalIndex ?? idx\<close>.\<close>

definition normalizeSlot :: "nat \<Rightarrow> Slot \<Rightarrow> Slot" where
  "normalizeSlot idx item =
     item\<lparr>quantity := Some (quantityOr1 item),
          originalIndex := Some (case originalIndex item of None \<Rightarrow> int idx | Some oi \<Rightarrow> oi)\<rparr>"

definition normalizeSlots :: "Container \<Rightarrow> Container" where
  "normalizeSlots slots = map (\<lambda>(idx, item). map_option (normalizeSlot idx) item) (enumerate 0 slots)"

text \<open>\<open>itemCounts()\<close>: the dictionary from identifier to number of occurrences, built by
  \<open>acc[item.id] = (acc[item.id] ?? 0) + 1\<close> from \<open>{}\<close>.\<close>

definition itemCounts :: "Container \<Rightarrow> (string \<rightharpoonup> entry)" where
  "itemCounts optimizedSlots =
     foldl (\<lambda>acc item.
              writeKey acc (item_id item)
                (plusOne (case readKey acc (item_id item) of None \<Rightarrow> Number 0 | Some v \<Rightarrow> v)))
       Map.empty (nonNull optimizedSlots)"

text \<open>The loop that marks every occupied slot: quantity above 1, or several instances.
  It is run after Step 1 and again after the strategies.\<close>

definition markAdjusted :: "Container \<Rightarrow> Container" where
  "markAdjusted optimizedSlots =
     map (map_option (\<lambda>item.
        let hasQuantity = quantityGt item 1;
            hasMultipleInstances =
              entryGt (case readKey (itemCounts optimizedSlots) (item_id item) of
                         None \<Rightarrow> Number 0 | Some v \<Rightarrow> v) 1
        in item\<lparr>forceAdjusted := Some (hasQuantity \<or> hasMultipleInstances)\<rparr>)) optimizedSlots"

definition hasQuantityAdjustments :: "Container \<Rightarrow> bool" where
  "hasQuantityAdjustments optimizedSlots =
     list_ex (\<lambda>s. (case s of None \<Rightarrow> 0 | Some item \<Rightarrow> (case quantity item of None \<Rightarrow> 0 | Some q \<Rightarrow> q)) > 1)
       optimizedSlots"

definition markAll :: "Container \<Rightarrow> Container" where
  "markAll optimizedSlots = map (map_option (\<lambda>item. item\<lparr>forceAdjusted := Some True\<rparr>)) optimizedSlots"

text \<open>Step 2 as a whole: the marking loop, then the fallback when no quantity exceeds 1.\<close>

definition classify :: "Container \<Rightarrow> Container" where
  "classify optimizedSlots =
     (let marked = markAdjusted optimizedSlots
      in if \<not> hasQuantityAdjustments marked then markAll marked else marked)"

text \<open>\<open>item.forceAdjusted\<close> read as a condition.\<close>

definition isForced :: "Slot option \<Rightarrow> bool" where
  "isForced s = (case s of None \<Rightarrow> False | Some item \<Rightarrow> forceAdjusted item = Some True)"

text \<open>\<open>forcedItems\<close>, as the indices of its objects, and the objects as they are now.\<close>

definition forcedIndices :: "Container \<Rightarrow> nat list" where
  "forcedIndices optimizedSlots = filter (\<lambda>i. isForced (optimizedSlots ! i)) [0..<length optimizedSlots]"

definition itemsAt :: "Container \<Rightarrow> nat list \<Rightarrow> Slot list" where
  "itemsAt optimizedSlots idxs = nonNull (map (\<lambda>i. optimizedSlots ! i) idxs)"

definition hasStackSize :: "int \<Rightarrow> Slot list \<Rightarrow> bool" where
  "hasStackSize n forcedItems = list_ex (\<lambda>item. stack_size item = n) forcedItems"

subsection \<open>Strategy 1: duplicate an unstackable into the empty slots\<close>

definition targetUnstackable :: "Slot list \<Rightarrow> Slot option" where
  "targetUnstackable forcedItems =
     (case filter (\<lambda>item. stack_size item = 1) forcedItems of
        [] \<Rightarrow> None
      | u # us \<Rightarrow> Some (foldl (\<lambda>acc item.
            if entryLess (getRarityOrder (Some (rarity item))) (getRarityOrder (Some (rarity acc)))
            then item else acc)
            u (u # us)))"

definition unstackableDuplicate :: "Slot \<Rightarrow> Slot" where
  "unstackableDuplicate target =
     target\<lparr>quantity := Some 1, originalIndex := Some (- 1), isDuplicate := True,
            forceAdjusted := Some True\<rparr>"

text \<open>The loop over \<open>optimizedSlots.entries().drop(1).filter(([_, item]) => item == null)\<close>:
  the iterator is lazy, so each index is tested against the array as it is when reached.
  The result is the array and \<open>AreUnstackablesAtThreshold\<close>.\<close>

fun fillUnstackables :: "Slot \<Rightarrow> int \<Rightarrow> nat list \<Rightarrow> Container \<Rightarrow> Container \<times> bool" where
  "fillUnstackables target currentSignal [] optimizedSlots = (optimizedSlots, False)"
| "fillUnstackables target currentSignal (i # idxs) optimizedSlots =
     (if optimizedSlots ! i = None then
        let placed = optimizedSlots[i := Some (unstackableDuplicate target)];
            newSignal = calculateSignalStrength placed
        in if newSignal > currentSignal then (placed[i := None], True)
           else fillUnstackables target currentSignal idxs placed
      else fillUnstackables target currentSignal idxs optimizedSlots)"

definition strategy1 :: "Slot list \<Rightarrow> int \<Rightarrow> Container \<Rightarrow> Container \<times> bool" where
  "strategy1 forcedItems currentSignal optimizedSlots =
     (case targetUnstackable forcedItems of
        None \<Rightarrow> (optimizedSlots, False)
      | Some target \<Rightarrow>
          fillUnstackables target currentSignal [1..<length optimizedSlots] optimizedSlots)"

subsection \<open>Strategies 2, 3 and 5: increment quantities from the end\<close>

text \<open>The inner loop \<open>while (item.quantity < limit) { item.quantity++; ... }\<close> on the object
  at index \<open>i\<close>; the flag says that the signal threshold was found (\<open>break outer\<close>).\<close>

definition setQuantity :: "Container \<Rightarrow> nat \<Rightarrow> int \<Rightarrow> Container" where
  "setQuantity optimizedSlots i q =
     optimizedSlots[i := map_option (\<lambda>item. item\<lparr>quantity := Some q\<rparr>) (optimizedSlots ! i)]"

definition quantityAt :: "Container \<Rightarrow> nat \<Rightarrow> int" where
  "quantityAt optimizedSlots i =
     (case optimizedSlots ! i of None \<Rightarrow> 0 | Some item \<Rightarrow> (case quantity item of None \<Rightarrow> 0 | Some q \<Rightarrow> q))"

definition canIncrement :: "int \<Rightarrow> nat \<Rightarrow> Container \<Rightarrow> bool" where
  "canIncrement limit i optimizedSlots =
     (i < length optimizedSlots \<and>
      (case optimizedSlots ! i of None \<Rightarrow> False | Some item \<Rightarrow> quantityLt item limit))"

function whileIncrement :: "int \<Rightarrow> int \<Rightarrow> nat \<Rightarrow> Container \<Rightarrow> Container \<times> bool" where
  "whileIncrement limit currentSignal i optimizedSlots =
     (if canIncrement limit i optimizedSlots then
        let incremented = setQuantity optimizedSlots i (quantityAt optimizedSlots i + 1);
            newSignal = calculateSignalStrength incremented
        in if newSignal > currentSignal
           then (setQuantity incremented i (quantityAt incremented i - 1), True)
           else whileIncrement limit currentSignal i incremented
      else (optimizedSlots, False))"
  by pat_completeness auto
termination
  by (relation "measure (\<lambda>(limit, currentSignal, i, optimizedSlots). nat (limit - quantityAt optimizedSlots i))")
     (auto simp: canIncrement_def setQuantity_def quantityAt_def quantityLt_def split: option.splits)

text \<open>The outer loop over the objects selected before it starts; \<open>limitOf\<close> is 16, 64 or
  the object's own stack size.\<close>

fun incrementAll :: "(Slot \<Rightarrow> int) \<Rightarrow> int \<Rightarrow> nat list \<Rightarrow> Container \<Rightarrow> Container \<times> bool" where
  "incrementAll limitOf currentSignal [] optimizedSlots = (optimizedSlots, False)"
| "incrementAll limitOf currentSignal (i # idxs) optimizedSlots =
     (case optimizedSlots ! i of
        None \<Rightarrow> incrementAll limitOf currentSignal idxs optimizedSlots
      | Some item \<Rightarrow>
          (case whileIncrement (limitOf item) currentSignal i optimizedSlots of
             (found, True) \<Rightarrow> (found, True)
           | (maxed, False) \<Rightarrow> incrementAll limitOf currentSignal idxs maxed))"

text \<open>\<open>optimizedSlots.slice(1).reverse().filter(...)\<close> with
  \<open>item.forceAdjusted === true && item.stack_size === n\<close>.\<close>

definition stackablesFromEnd :: "int \<Rightarrow> Container \<Rightarrow> nat list" where
  "stackablesFromEnd n optimizedSlots =
     filter (\<lambda>i. case optimizedSlots ! i of None \<Rightarrow> False
                 | Some item \<Rightarrow> forceAdjusted item = Some True \<and> stack_size item = n)
       (rev [1..<length optimizedSlots])"

definition strategy2 :: "int \<Rightarrow> Container \<Rightarrow> Container \<times> bool" where
  "strategy2 currentSignal optimizedSlots =
     incrementAll (\<lambda>_. 16) currentSignal (stackablesFromEnd 16 optimizedSlots) optimizedSlots"

definition strategy3 :: "int \<Rightarrow> Container \<Rightarrow> Container \<times> bool" where
  "strategy3 currentSignal optimizedSlots =
     incrementAll (\<lambda>_. 64) currentSignal (stackablesFromEnd 64 optimizedSlots) optimizedSlots"

text \<open>\<open>optimizedSlots.filter(...).reverse()\<close> with
  \<open>item.forceAdjusted && item.quantity < item.stack_size\<close>.\<close>

definition belowLimitFromEnd :: "Container \<Rightarrow> nat list" where
  "belowLimitFromEnd optimizedSlots =
     rev (filter (\<lambda>i. case optimizedSlots ! i of None \<Rightarrow> False
                      | Some item \<Rightarrow> forceAdjusted item = Some True \<and> quantityLt item (stack_size item))
            [0..<length optimizedSlots])"

definition strategy5 :: "int \<Rightarrow> Container \<Rightarrow> Container" where
  "strategy5 currentSignal optimizedSlots =
     fst (incrementAll stack_size currentSignal (belowLimitFromEnd optimizedSlots) optimizedSlots)"

subsection \<open>Strategy 4: duplicate a stack\<close>

definition allMaxed :: "Container \<Rightarrow> bool" where
  "allMaxed optimizedSlots =
     (\<not> list_ex (\<lambda>s. case s of None \<Rightarrow> False
                     | Some item \<Rightarrow> forceAdjusted item = Some True \<and> quantityLt item (stack_size item))
          optimizedSlots)"

text \<open>\<open>forcedItems.reduce(...)\<close> without an initial value: a TypeError on an empty array.\<close>

definition itemToDuplicate :: "Slot list \<Rightarrow> error + Slot" where
  "itemToDuplicate forcedItems =
     (case forcedItems of
        [] \<Rightarrow> Inl TypeError
      | first # others \<Rightarrow> Inr (foldl (\<lambda>acc item.
            if stack_size item \<ge> stack_size acc \<and>
               entryLess (getRarityOrder (Some (rarity item))) (getRarityOrder (Some (rarity acc)))
            then item else acc) first others))"

definition stackDuplicate :: "Slot \<Rightarrow> Slot" where
  "stackDuplicate source = source\<lparr>originalIndex := Some (- 1), forceAdjusted := Some True\<rparr>"

fun duplicateStacks :: "Slot \<Rightarrow> int \<Rightarrow> nat list \<Rightarrow> Container \<Rightarrow> Container" where
  "duplicateStacks source currentSignal [] optimizedSlots = optimizedSlots"
| "duplicateStacks source currentSignal (i # idxs) optimizedSlots =
     (if optimizedSlots ! i = None then
        let newItem = stackDuplicate source;
            placed = optimizedSlots[i := Some newItem];
            newSignal = calculateSignalStrength placed
        in if newSignal > currentSignal then placed[i := Some (newItem\<lparr>quantity := Some 1\<rparr>)]
           else duplicateStacks source currentSignal idxs placed
      else duplicateStacks source currentSignal idxs optimizedSlots)"

definition strategy4 :: "nat list \<Rightarrow> int \<Rightarrow> Container \<Rightarrow> error + Container" where
  "strategy4 forcedIdxs currentSignal optimizedSlots =
     (if allMaxed optimizedSlots then
        (case itemToDuplicate (itemsAt optimizedSlots forcedIdxs) of
           Inl e \<Rightarrow> Inl e
         | Inr source \<Rightarrow>
             Inr (duplicateStacks source currentSignal [1..<length optimizedSlots] optimizedSlots))
      else Inr optimizedSlots)"

subsection \<open>Steps 7 and 8: final flags, partition, sort, layout\<close>

definition sortKey :: "Slot \<Rightarrow> int \<times> int" where
  "sortKey item = (stack_size item, (case quantity item of None \<Rightarrow> 0 | Some q \<Rightarrow> q))"

definition layout :: "Container \<Rightarrow> error + Container" where
  "layout optimizedSlots =
     (let withoutNulls = map (\<lambda>item. item\<lparr>isAdjusted := Some (forceAdjusted item = Some True)\<rparr>)
                           (nonNull (markAdjusted optimizedSlots));
          adjusted = filter (\<lambda>item. forceAdjusted item = Some True) withoutNulls;
          unadjusted = filter (\<lambda>item. \<not> forceAdjusted item = Some True) withoutNulls;
          sorted = sort_key sortKey adjusted;
          nullsNeeded = 53 - int (length unadjusted) - int (length adjusted)
      in if nullsNeeded < 0 then Inl RangeError
         else Inr ([None] @ map Some unadjusted @ replicate (nat nullsNeeded) None @ map Some sorted))"

subsection \<open>The optimizer\<close>

text \<open>
  The local variables of \<open>optimizeForRedstone\<close> that the strategies share: the working
  array, \<open>currentSignal\<close>, \<open>hasQuantityAdjustments\<close> (field \<open>hasQA\<close>), \<open>forcedItems\<close> (as
  indices into the working array), the three class flags and the three threshold flags.
\<close>

record Search =
  optimizedSlots :: Container
  currentSignal :: int
  hasQA :: bool
  forcedItems :: "nat list"
  hasUnstackable :: bool
  hasSixteen :: bool
  hasSixtyFour :: bool
  AreUnstackablesAtThreshold :: bool
  Are16StackablesAtThreshold :: bool
  Are64StackablesAtThreshold :: bool

text \<open>Steps 1 to 3: normalize, score, classify, note the stack classes present.\<close>

definition initialSearch :: "Container \<Rightarrow> Search" where
  "initialSearch slots =
     (let normalized = normalizeSlots slots;
          classified = classify normalized;
          forced = forcedIndices classified
      in \<lparr>optimizedSlots = classified,
          currentSignal = calculateSignalStrength normalized,
          hasQA = hasQuantityAdjustments (markAdjusted normalized),
          forcedItems = forced,
          hasUnstackable = hasStackSize 1 (itemsAt classified forced),
          hasSixteen = hasStackSize 16 (itemsAt classified forced),
          hasSixtyFour = hasStackSize 64 (itemsAt classified forced),
          AreUnstackablesAtThreshold = False,
          Are16StackablesAtThreshold = False,
          Are64StackablesAtThreshold = False\<rparr>)"

definition runStrategy1 :: "Search \<Rightarrow> Search" where
  "runStrategy1 st =
     (if hasUnstackable st \<and> \<not> hasQA st then
        let (slots, found) = strategy1 (itemsAt (optimizedSlots st) (forcedItems st))
                               (currentSignal st) (optimizedSlots st)
        in st\<lparr>optimizedSlots := slots, AreUnstackablesAtThreshold := found\<rparr>
      else st)"

definition runStrategy2 :: "Search \<Rightarrow> Search" where
  "runStrategy2 st =
     (if hasSixteen st then
        let (slots, found) = strategy2 (currentSignal st) (optimizedSlots st)
        in st\<lparr>optimizedSlots := slots, Are16StackablesAtThreshold := found\<rparr>
      else st)"

definition runStrategy3 :: "Search \<Rightarrow> Search" where
  "runStrategy3 st =
     (if hasSixtyFour st then
        let (slots, found) = strategy3 (currentSignal st) (optimizedSlots st)
        in st\<lparr>optimizedSlots := slots, Are64StackablesAtThreshold := found\<rparr>
      else st)"

text \<open>The condition under which Strategy 4 is entered.\<close>

definition duplicationNeeded :: "Search \<Rightarrow> bool" where
  "duplicationNeeded st =
     (\<not> hasQA st \<and>
      ((\<not> AreUnstackablesAtThreshold st \<and> hasUnstackable st) \<or>
       (\<not> Are16StackablesAtThreshold st \<and> hasSixteen st) \<or>
       (\<not> Are64StackablesAtThreshold st \<and> hasSixtyFour st)))"

definition runStrategy4 :: "Search \<Rightarrow> error + Search" where
  "runStrategy4 st =
     (if duplicationNeeded st then
        (case strategy4 (forcedItems st) (currentSignal st) (optimizedSlots st) of
           Inl e \<Rightarrow> Inl e
         | Inr slots \<Rightarrow> Inr (st\<lparr>optimizedSlots := slots\<rparr>))
      else Inr st)"

definition optimizeForRedstone :: "Container \<Rightarrow> error + Container" where
  "optimizeForRedstone slots =
     (if list_all (\<lambda>x. x = None) slots then Inr slots
      else
        (case runStrategy4 (runStrategy3 (runStrategy2 (runStrategy1 (initialSearch slots)))) of
           Inl e \<Rightarrow> Inl e
         | Inr st \<Rightarrow> layout (strategy5 (currentSignal st) (optimizedSlots st))))"

section \<open>Notions used in the proofs\<close>

text \<open>The fill fraction of one occupied slot, of a slot, and the fill sum of a container.\<close>

definition fillOf :: "Slot \<Rightarrow> rat" where
  "fillOf item = of_int (quantityOr1 item) / of_int (stackLimit item)"

definition slotFill :: "Slot option \<Rightarrow> rat" where
  "slotFill s = (case s of None \<Rightarrow> 0 | Some item \<Rightarrow> fillOf item)"

definition fillSum :: "Container \<Rightarrow> rat" where
  "fillSum slots = sum_list (map slotFill slots)"

text \<open>Items as the test file builds them: only identifier, stack size, rarity and
  quantity vary.\<close>

definition testItem :: "string \<Rightarrow> int \<Rightarrow> string \<Rightarrow> int \<Rightarrow> Slot" where
  "testItem i s r q =
     \<lparr>item_id = i, name = [], sprite = [], color = \<lparr>rgb = (0, 0, 0), hsl = (0, 0, 0), hex = []\<rparr>,
      category = [], item_group = [], material = [], stack_size = s, rarity = r,
      forceAdjusted = None, isAdjusted = None, quantity = Some q, isDuplicate = False,
      originalIndex = None, userSubstituted = False\<rparr>"

text \<open>The rule of Step 2 for the slot at index \<open>j\<close>: its quantity exceeds 1, or another
  occupied slot holds the same identifier and that identifier is not the name of a member
  of \<open>Object.prototype\<close> (under such a name the dictionary of counts never holds a
  number).\<close>

definition qualifies :: "Container \<Rightarrow> nat \<Rightarrow> bool" where
  "qualifies slots j =
     (case slots ! j of None \<Rightarrow> False
      | Some item \<Rightarrow> quantityGt item 1 \<or>
          (\<not> inheritedKey (item_id item) \<and>
           list_ex (\<lambda>k. k \<noteq> j \<and> (case slots ! k of None \<Rightarrow> False
                                    | Some other \<Rightarrow> item_id other = item_id item))
             [0..<length slots]))"



text \<open>The identifier held by a slot, if any.\<close>

definition slotId :: "Slot option \<Rightarrow> string option" where
  "slotId s = map_option item_id s"

text \<open>The test file's \<open>testSignals\<close>: the occupied slot with the largest stack size
  (\<open>reduce\<close> without an initial value), written at quantity 1 into slot 0.\<close>

definition largestStackSizeItem :: "Slot list \<Rightarrow> error + Slot" where
  "largestStackSizeItem items =
     (case items of
        [] \<Rightarrow> Inl TypeError
      | first # others \<Rightarrow> Inr (foldl (\<lambda>largest current.
            if stack_size current > stack_size largest then current else largest) first others))"

definition withOneMoreUnit :: "Container \<Rightarrow> error + Container" where
  "withOneMoreUnit slots =
     (case largestStackSizeItem (nonNull slots) of
        Inl e \<Rightarrow> Inl e
      | Inr largest \<Rightarrow> Inr (slots[0 := Some (largest\<lparr>quantity := Some 1\<rparr>)]))"

text \<open>A 16-stackable and a 64-stackable of equal rarity, both of quantity 1.\<close>

definition mixedPair :: Container where
  "mixedPair = [None, Some (testItem ''a'' 16 ''common'' 1), Some (testItem ''b'' 64 ''common'' 1)]
               @ replicate 51 None"

text \<open>The search state when Strategy 4 is reached.\<close>

definition beforeStrategy4 :: "Container \<Rightarrow> Search" where
  "beforeStrategy4 slots = runStrategy3 (runStrategy2 (runStrategy1 (initialSearch slots)))"

text \<open>One stack of two units of a 16-stackable.\<close>

definition oneStackOfTwo :: Container where
  "oneStackOfTwo = [None, Some (testItem ''a'' 16 ''common'' 2)] @ replicate 52 None"

definition oneStackOfTwoOptimized :: Container where
  "oneStackOfTwoOptimized =
     replicate 53 None @
     [Some ((testItem ''a'' 16 ''common'' 16)
              \<lparr>forceAdjusted := Some True, isAdjusted := Some True, originalIndex := Some 1\<rparr>)]"

text \<open>A working slot as the optimizer keeps it: a stack size of 1, 16 or 64 and a
  quantity from 1 to the stack size.\<close>

definition wfItem :: "Slot \<Rightarrow> bool" where
  "wfItem item =
     ((stack_size item = 1 \<or> stack_size item = 16 \<or> stack_size item = 64) \<and>
      (case quantity item of None \<Rightarrow> False | Some q \<Rightarrow> 1 \<le> q \<and> q \<le> stack_size item))"

definition wfSlots :: "Container \<Rightarrow> bool" where
  "wfSlots slots = list_all (\<lambda>s. case s of None \<Rightarrow> True | Some item \<Rightarrow> wfItem item) slots"

text \<open>The number of occupied slots.\<close>

definition occupied :: "Container \<Rightarrow> nat" where
  "occupied slots = length (nonNull slots)"

section \<open>The signal as a function of the fill sum\<close>

text \<open>The signal of a non-empty container with fill sum \<open>x\<close>.\<close>

definition signalOf :: "rat \<Rightarrow> int" where
  "signalOf x = \<lfloor>(14 / 54) * x + 1\<rfloor>"

text \<open>A slot created by one of the duplication strategies from an item of the container
  \<open>base\<close>: well-formed, marked as forced, without an original position, with the
  identifier and stack size of an item of \<open>base\<close>.\<close>

definition cloneOf :: "Container \<Rightarrow> Slot \<Rightarrow> bool" where
  "cloneOf base x =
     (wfItem x \<and> forceAdjusted x = Some True \<and> originalIndex x = Some (- 1) \<and>
      list_ex (\<lambda>s. case s of None \<Rightarrow> False
                  | Some item \<Rightarrow> item_id item = item_id x \<and> stack_size item = stack_size x) base)"

text \<open>The working arrays the strategies can produce from the classified container \<open>base\<close>:
  an item of \<open>base\<close> stays in its slot with its quantity raised within its stack size; an
  empty slot other than slot 0 may hold a clone.\<close>

definition slotReach :: "Container \<Rightarrow> nat \<Rightarrow> Slot option \<Rightarrow> Slot option \<Rightarrow> bool" where
  "slotReach base j a b =
     (case a of
        Some item \<Rightarrow>
          (\<exists>q. (case quantity item of None \<Rightarrow> 0 | Some q0 \<Rightarrow> q0) \<le> q \<and> q \<le> stack_size item \<and>
               b = Some (item\<lparr>quantity := Some q\<rparr>))
      | None \<Rightarrow> b = None \<or> (0 < j \<and> (\<exists>x. b = Some x \<and> cloneOf base x)))"

definition reach :: "Container \<Rightarrow> Container \<Rightarrow> bool" where
  "reach base slots =
     (length slots = length base \<and> (\<forall>j < length base. slotReach base j (base ! j) (slots ! j)))"

text \<open>The input contract: 54 slots, slot 0 empty, every stack size 1, 16 or 64 and every
  quantity, where set, from 1 to the stack size.\<close>

definition wellFormedSlot :: "Slot \<Rightarrow> bool" where
  "wellFormedSlot item =
     ((stack_size item = 1 \<or> stack_size item = 16 \<or> stack_size item = 64) \<and>
      (case quantity item of None \<Rightarrow> True | Some q \<Rightarrow> 1 \<le> q \<and> q \<le> stack_size item))"

definition wellFormed :: "Container \<Rightarrow> bool" where
  "wellFormed slots =
     (length slots = 54 \<and> slots ! 0 = None \<and>
      list_all (\<lambda>s. case s of None \<Rightarrow> True | Some item \<Rightarrow> wellFormedSlot item) slots)"

text \<open>The invariant of the strategies: the working array is reachable from the classified
  container, and its signal is \<open>cs\<close>.\<close>

definition keeps :: "Container \<Rightarrow> int \<Rightarrow> Container \<Rightarrow> bool" where
  "keeps base cs slots = (reach base slots \<and> calculateSignalStrength slots = cs)"

text \<open>The classified container of an input.\<close>

definition classified :: "Container \<Rightarrow> Container" where
  "classified slots = classify (normalizeSlots slots)"

text \<open>The working array after the five strategies, before the final layout.\<close>

definition searchedSlots :: "Container \<Rightarrow> error + Container" where
  "searchedSlots slots =
     (case runStrategy4 (runStrategy3 (runStrategy2 (runStrategy1 (initialSearch slots)))) of
        Inl e \<Rightarrow> Inl e
      | Inr st \<Rightarrow> Inr (strategy5 (currentSignal st) (optimizedSlots st)))"

text \<open>The occupied slots as the layout step sees them: flags recomputed, \<open>isAdjusted\<close> set.\<close>

definition finalItems :: "Container \<Rightarrow> Slot list" where
  "finalItems slots =
     map (\<lambda>item. item\<lparr>isAdjusted := Some (forceAdjusted item = Some True)\<rparr>)
       (nonNull (markAdjusted slots))"

text \<open>The test file's \<open>initialState\<close>: one unstackable item in slot 1.\<close>

definition singleUnstackable :: Container where
  "singleUnstackable = [None, Some (testItem [] 1 [] 1)] @ replicate 52 None"

text \<open>The final form of the slot at index \<open>j\<close>: both flags say whether it qualifies as
  adjusted in the working array.\<close>

definition finalAt :: "Container \<Rightarrow> nat \<Rightarrow> Slot option" where
  "finalAt slots j =
     map_option (\<lambda>item. item\<lparr>forceAdjusted := Some (qualifies slots j),
                               isAdjusted := Some (qualifies slots j)\<rparr>) (slots ! j)"

text \<open>The order of the adjusted group: by stack size, then by quantity.\<close>

definition sortedBefore :: "Slot \<Rightarrow> Slot \<Rightarrow> bool" where
  "sortedBefore a b =
     (stack_size a < stack_size b \<or>
      (stack_size a = stack_size b \<and>
       (case (quantity a, quantity b) of (Some q, Some q') \<Rightarrow> q \<le> q' | _ \<Rightarrow> False)))"

text \<open>\<open>t\<close> is \<open>slots\<close> with some empty slots filled by the item \<open>d\<close>.\<close>

definition filledWith :: "Slot \<Rightarrow> Container \<Rightarrow> Container \<Rightarrow> bool" where
  "filledWith d slots t =
     (length t = length slots \<and>
      (\<forall>j < length slots. t ! j = slots ! j \<or> (slots ! j = None \<and> t ! j = Some d)))"

text \<open>A container whose occupied slots all have stack size \<open>s\<close> and quantity 1 (set or
  left to its default), as the test file builds them.\<close>

definition oneClass :: "int \<Rightarrow> Container \<Rightarrow> bool" where
  "oneClass s slots =
     list_all (\<lambda>sl. case sl of None \<Rightarrow> True
                    | Some item \<Rightarrow> stack_size item = s \<and> (quantity item = None \<or> quantity item = Some 1))
       slots"

text \<open>How the working array holds the input at index \<open>j\<close>: an input item stays in its
  slot, normalized, with some candidate flag and its quantity kept or raised within the
  stack size; a slot that was empty is still empty, or holds a clone made by a duplication
  strategy (original index -1) of an item of the input.\<close>

definition holdsInput :: "Container \<Rightarrow> Container \<Rightarrow> nat \<Rightarrow> bool" where
  "holdsInput slots working j =
     (case slots ! j of
        Some item \<Rightarrow>
          (\<exists>q b. quantityOr1 item \<le> q \<and> q \<le> stack_size item \<and>
             working ! j = Some ((normalizeSlot j item)\<lparr>forceAdjusted := Some b, quantity := Some q\<rparr>))
      | None \<Rightarrow>
          working ! j = None \<or>
          (\<exists>x. working ! j = Some x \<and> originalIndex x = Some (- 1) \<and>
               list_ex (\<lambda>s. case s of None \<Rightarrow> False
                           | Some item \<Rightarrow> item_id item = item_id x \<and> stack_size item = stack_size x)
                 slots))"

text \<open>One 16-stackable item of quantity 1 in slot 1.\<close>

definition singleSixteen :: Container where
  "singleSixteen = [None, Some (testItem ''a'' 16 ''common'' 1)] @ replicate 52 None"

text \<open>\<open>b\<close> is \<open>a\<close> with some quantities raised: what the increment loops do to the working
  array.\<close>

definition slotRaised :: "Slot option \<Rightarrow> Slot option \<Rightarrow> bool" where
  "slotRaised a b =
     (case a of None \<Rightarrow> b = None
      | Some x \<Rightarrow> \<exists>q. (case quantity x of None \<Rightarrow> 0 | Some q0 \<Rightarrow> q0) \<le> q \<and>
                      b = Some (x\<lparr>quantity := Some q\<rparr>))"

definition raised :: "Container \<Rightarrow> Container \<Rightarrow> bool" where
  "raised a b = (length b = length a \<and> (\<forall>j < length a. slotRaised (a ! j) (b ! j)))"

text \<open>The working array after Strategy 1 and after Strategy 2.\<close>

definition afterStrategy1 :: "Container \<Rightarrow> Container" where
  "afterStrategy1 slots = optimizedSlots (runStrategy1 (initialSearch slots))"

definition afterStrategy2 :: "Container \<Rightarrow> Container" where
  "afterStrategy2 slots = optimizedSlots (runStrategy2 (runStrategy1 (initialSearch slots)))"

text \<open>A working array on which the increment loops change nothing: for the signal \<open>cs\<close>,
  one more unit in any forced slot below its limit raises the signal.\<close>

definition settled :: "int \<Rightarrow> Container \<Rightarrow> bool" where
  "settled cs w =
     (wfSlots w \<and>
      (\<forall>i < length w. \<forall>x. w ! i = Some x \<longrightarrow> forceAdjusted x = Some True \<longrightarrow>
           quantityLt x (stack_size x) \<longrightarrow>
           cs < signalOf (fillSum w + 1 / of_int (stack_size x))))"

text \<open>The rule of the marking loop for an item, given the identifiers of the occupied
  slots.\<close>

definition adjustedBy :: "string list \<Rightarrow> Slot \<Rightarrow> bool" where
  "adjustedBy ids item =
     (quantityGt item 1 \<or> (\<not> inheritedKey (item_id item) \<and> 1 < count_list ids (item_id item)))"

section \<open>The scorer\<close>

lemma foldl_plus_sum_list:
  "foldl (\<lambda>sum item. sum + f item) a items = a + sum_list (map f items)" for a :: rat
  by (induction items arbitrary: a) (simp_all add: add.assoc)

lemma sum_list_nonNull: "sum_list (map fillOf (nonNull slots)) = fillSum slots"
  by (induction slots rule: nonNull.induct) (simp_all add: fillSum_def slotFill_def)

lemma nonNull_empty_iff: "nonNull slots = [] \<longleftrightarrow> list_all (\<lambda>x. x = None) slots"
  by (induction slots rule: nonNull.induct) simp_all

lemma score_fillSum:
  "calculateSignalStrength slots =
     (if list_all (\<lambda>x. x = None) slots then 0 else \<lfloor>(14 / 54) * fillSum slots + 1\<rfloor>)"
proof (cases "nonNull slots = []")
  case True
  then show ?thesis by (simp add: calculateSignalStrength_def nonNull_empty_iff[symmetric])
next
  case False
  then have "min 1 (length (nonNull slots)) = 1" by (cases "nonNull slots") simp_all
  with False show ?thesis
    unfolding calculateSignalStrength_def Let_def fillOf_def[symmetric]
    by (simp add: foldl_plus_sum_list sum_list_nonNull nonNull_empty_iff[symmetric])
qed

lemma floor_scaled_int:
  "\<lfloor>(14 / 54 :: rat) * (of_int m / of_int d) + 1\<rfloor> = (14 * m) div (54 * d) + 1"
proof -
  have "(14 / 54 :: rat) * (of_int m / of_int d) = of_int (14 * m) / of_int (54 * d)"
    by simp
  then have "\<lfloor>(14 / 54 :: rat) * (of_int m / of_int d) + 1\<rfloor>
      = \<lfloor>(of_int (14 * m) / of_int (54 * d) :: rat)\<rfloor> + 1"
    using floor_add_int[of "of_int (14 * m) / of_int (54 * d) :: rat" 1] by simp
  then show ?thesis
    by (simp only: floor_divide_of_int_eq)
qed




section \<open>Classification (Step 2)\<close>

lemma inheritedKey_proto: "inheritedKey ''__proto__''"
  by (simp add: inheritedKey_def)

text \<open>Under a key that is no member of \<open>Object.prototype\<close> the dictionary counts.\<close>

lemma itemCounts_plain:
  assumes "\<not> inheritedKey k"
    and "(case readKey m k of None \<Rightarrow> Number 0 | Some v \<Rightarrow> v) = Number c"
  shows "(case readKey (foldl (\<lambda>acc item.
              writeKey acc (item_id item)
                (plusOne (case readKey acc (item_id item) of None \<Rightarrow> Number 0 | Some v \<Rightarrow> v)))
            m items) k of None \<Rightarrow> Number 0 | Some v \<Rightarrow> v)
         = Number (c + int (count_list (map item_id items) k))"
  using assms(2)
proof (induction items arbitrary: m c)
  case Nil
  then show ?case by simp
next
  case (Cons item items)
  let ?m = "writeKey m (item_id item)
              (plusOne (case readKey m (item_id item) of None \<Rightarrow> Number 0 | Some v \<Rightarrow> v))"
  have k: "k \<noteq> ''__proto__''" using assms(1) inheritedKey_proto by auto
  have "(case readKey ?m k of None \<Rightarrow> Number 0 | Some v \<Rightarrow> v)
          = Number (if item_id item = k then c + 1 else c)"
    using Cons.prems k assms(1)
    by (auto simp: readKey_def writeKey_def plusOne_def split: option.splits)
  from Cons.IH[OF this] show ?case by simp
qed

text \<open>Under the name of a member of \<open>Object.prototype\<close> it never holds a number.\<close>

lemma itemCounts_inherited:
  assumes "inheritedKey k"
    and "\<exists>t. (case readKey m k of None \<Rightarrow> Number 0 | Some v \<Rightarrow> v) = Other t"
  shows "\<exists>t. (case readKey (foldl (\<lambda>acc item.
              writeKey acc (item_id item)
                (plusOne (case readKey acc (item_id item) of None \<Rightarrow> Number 0 | Some v \<Rightarrow> v)))
            m items) k of None \<Rightarrow> Number 0 | Some v \<Rightarrow> v) = Other t"
  using assms(2)
proof (induction items arbitrary: m)
  case Nil
  then show ?case by simp
next
  case (Cons item items)
  let ?m = "writeKey m (item_id item)
              (plusOne (case readKey m (item_id item) of None \<Rightarrow> Number 0 | Some v \<Rightarrow> v))"
  have "\<exists>t. (case readKey ?m k of None \<Rightarrow> Number 0 | Some v \<Rightarrow> v) = Other t"
    using Cons.prems assms(1)
    by (auto simp: readKey_def writeKey_def plusOne_def split: option.splits)
  from Cons.IH[OF this] show ?case by simp
qed

lemma itemCounts_count:
  "entryGt (case readKey (itemCounts slots) k of None \<Rightarrow> Number 0 | Some v \<Rightarrow> v) 1
     \<longleftrightarrow> \<not> inheritedKey k \<and> count_list (map item_id (nonNull slots)) k > 1"
proof (cases "inheritedKey k")
  case True
  have "\<exists>t. (case readKey Map.empty k of None \<Rightarrow> Number 0 | Some v \<Rightarrow> v) = Other t"
    using True by (simp add: readKey_def)
  from itemCounts_inherited[OF True this, of "nonNull slots"] show ?thesis
    using True by (auto simp: itemCounts_def entryGt_def)
next
  case False
  have "(case readKey Map.empty k of None \<Rightarrow> Number 0 | Some v \<Rightarrow> v) = Number 0"
    using False by (simp add: readKey_def)
  from itemCounts_plain[OF False this, of "nonNull slots"] show ?thesis
    using False by (simp add: itemCounts_def entryGt_def)
qed

lemma count_nonNull: "count_list (map item_id (nonNull slots)) k = count_list (map slotId slots) (Some k)"
  by (induction slots rule: nonNull.induct) (simp_all add: slotId_def)

lemma count_list_gt1_iff:
  assumes "j < length ys"
  shows "count_list ys (ys ! j) > 1 \<longleftrightarrow> (\<exists>k < length ys. k \<noteq> j \<and> ys ! k = ys ! j)"
proof -
  let ?S = "{i. i < length ys \<and> ys ! i = ys ! j}"
  have fin: "finite ?S" by simp
  have c: "count_list ys (ys ! j) = card ?S"
    by (simp add: count_list_eq_length_filter length_filter_conv_card eq_commute)
  have jS: "j \<in> ?S" using assms by simp
  show ?thesis
  proof
    assume "count_list ys (ys ! j) > 1"
    then have "card ?S > 1" by (simp add: c)
    then have "card (?S - {j}) > 0" using fin jS by (simp add: card_Diff_singleton)
    then have "?S - {j} \<noteq> {}" by (metis card.empty less_numeral_extra(3))
    then show "\<exists>k < length ys. k \<noteq> j \<and> ys ! k = ys ! j" by auto
  next
    assume "\<exists>k < length ys. k \<noteq> j \<and> ys ! k = ys ! j"
    then obtain k where k: "k \<in> ?S" "k \<noteq> j" by auto
    then have "{j, k} \<subseteq> ?S" using jS by simp
    then have "card {j, k} \<le> card ?S" using fin card_mono by blast
    then show "count_list ys (ys ! j) > 1" using k by (simp add: c)
  qed
qed

lemma list_ex_upt: "list_ex P [0..<n] \<longleftrightarrow> (\<exists>k<n. P k)"
  by (auto simp: list_ex_iff)

lemma markAdjusted_nth:
  assumes "j < length slots"
  shows "isForced (markAdjusted slots ! j) \<longleftrightarrow> qualifies slots j"
proof (cases "slots ! j")
  case None
  then show ?thesis using assms by (simp add: markAdjusted_def isForced_def qualifies_def)
next
  case (Some item)
  let ?ys = "map slotId slots"
  have yj: "?ys ! j = Some (item_id item)" using assms Some by (simp add: slotId_def)
  have same: "?ys ! k = Some (item_id item) \<longleftrightarrow>
        (case slots ! k of None \<Rightarrow> False | Some other \<Rightarrow> item_id other = item_id item)"
    if "k < length slots" for k
    using that by (cases "slots ! k") (simp_all add: slotId_def)
  have "count_list (map item_id (nonNull slots)) (item_id item) > 1
        \<longleftrightarrow> (\<exists>k < length slots. k \<noteq> j \<and> ?ys ! k = Some (item_id item))"
    using count_list_gt1_iff[of j ?ys] assms yj by (simp add: count_nonNull)
  also have "\<dots> \<longleftrightarrow> (\<exists>k < length slots. k \<noteq> j \<and> (case slots ! k of None \<Rightarrow> False
                                   | Some other \<Rightarrow> item_id other = item_id item))"
    using same by blast
  finally show ?thesis
    using assms Some
    by (simp add: markAdjusted_def isForced_def qualifies_def itemCounts_count Let_def list_ex_upt)
qed

lemma hasQA_markAdjusted [simp]: "hasQuantityAdjustments (markAdjusted slots) = hasQuantityAdjustments slots"
  by (auto simp: hasQuantityAdjustments_def markAdjusted_def list_ex_iff Let_def split: option.splits)

lemma hasQA_markAll [simp]: "hasQuantityAdjustments (markAll slots) = hasQuantityAdjustments slots"
  by (auto simp: hasQuantityAdjustments_def markAll_def list_ex_iff split: option.splits)

lemma length_markAdjusted [simp]: "length (markAdjusted slots) = length slots"
  by (simp add: markAdjusted_def)

lemma length_markAll [simp]: "length (markAll slots) = length slots"
  by (simp add: markAll_def)







section \<open>Runs on concrete containers\<close>

text \<open>
  Claim C8 at a container with a 16-stackable in slot 1 and a 64-stackable in slot 2, both
  of rarity common and quantity 1. Both classes are filled to their limits without reaching
  the threshold, Strategy 4 is entered with all stacks maxed, its candidates are the two
  items, and it chooses the 16-stackable, not the candidate with the largest stack limit.
\<close>

theorem duplication_picks_smaller_stack:
  "duplicationNeeded (beforeStrategy4 mixedPair)
   \<and> allMaxed (optimizedSlots (beforeStrategy4 mixedPair))
   \<and> map (\<lambda>item. (item_id item, stack_size item, getRarityOrder (Some (rarity item))))
         (itemsAt (optimizedSlots (beforeStrategy4 mixedPair)) (forcedItems (beforeStrategy4 mixedPair)))
       = [(''a'', 16, Number 0), (''b'', 64, Number 0)]
   \<and> map_sum id (\<lambda>item. (item_id item, stack_size item))
         (itemToDuplicate (itemsAt (optimizedSlots (beforeStrategy4 mixedPair))
                                   (forcedItems (beforeStrategy4 mixedPair))))
       = Inr (''a'', 16)
   \<and> map_sum id (\<lambda>out. map (\<lambda>item. (item_id item, stack_size item, quantity item, originalIndex item))
                            (nonNull out))
         (optimizeForRedstone mixedPair)
       = Inr [(''a'', 16, Some 13, Some (- 1)), (''a'', 16, Some 16, Some 1),
              (''a'', 16, Some 16, Some (- 1)), (''b'', 64, Some 64, Some 2)]"
  by code_simp

theorem duplication_picks_smaller_stack_witness:
  "map_sum id (\<lambda>item. (item_id item, stack_size item))
         (itemToDuplicate (itemsAt (optimizedSlots (beforeStrategy4 mixedPair))
                                   (forcedItems (beforeStrategy4 mixedPair))))
       = Inr (''a'', 16)"
  using duplication_picks_smaller_stack by blast

text \<open>
  Claim C3 as stated, for every container of one stack class, fails on a container that
  holds one stack of two units of a 16-stackable: a quantity above 1 keeps the duplication
  strategies away, the stack is filled to 16, and one more unit in slot 0 leaves the signal
  at 1.
\<close>

theorem tightness_counterexample:
  "wellFormed oneStackOfTwo
   \<and> list_all (\<lambda>s. case s of None \<Rightarrow> True | Some item \<Rightarrow> stack_size item = 16) oneStackOfTwo
   \<and> length (nonNull oneStackOfTwo) = 1
   \<and> optimizeForRedstone oneStackOfTwo = Inr oneStackOfTwoOptimized
   \<and> withOneMoreUnit oneStackOfTwoOptimized
       = Inr (oneStackOfTwoOptimized[0 := Some ((testItem ''a'' 16 ''common'' 1)
              \<lparr>forceAdjusted := Some True, isAdjusted := Some True, originalIndex := Some 1\<rparr>)])
   \<and> calculateSignalStrength oneStackOfTwoOptimized = 1
   \<and> calculateSignalStrength (oneStackOfTwoOptimized[0 := Some ((testItem ''a'' 16 ''common'' 1)
              \<lparr>forceAdjusted := Some True, isAdjusted := Some True, originalIndex := Some 1\<rparr>)]) = 1"
  by code_simp

section \<open>Occupied slots and fill sums\<close>

lemma nonNull_append [simp]: "nonNull (xs @ ys) = nonNull xs @ nonNull ys"
  by (induction xs rule: nonNull.induct) simp_all

lemma nonNull_map_Some [simp]: "nonNull (map Some xs) = xs"
  by (induction xs) simp_all

lemma nonNull_replicate_None [simp]: "nonNull (replicate n None) = []"
  by (induction n) simp_all

lemma nonNull_map_option: "nonNull (map (map_option f) xs) = map f (nonNull xs)"
  by (induction xs rule: nonNull.induct) simp_all

lemma set_nonNull: "set (nonNull xs) = {x. Some x \<in> set xs}"
  by (induction xs rule: nonNull.induct) auto

lemma length_nonNull_le: "length (nonNull xs) \<le> length xs"
  by (induction xs rule: nonNull.induct) simp_all

lemma sum_list_update_group:
  fixes xs :: "rat list"
  shows "i < length xs \<Longrightarrow> sum_list (xs[i := v]) = sum_list xs - xs ! i + v"
  by (induction xs arbitrary: i) (auto split: nat.splits)

lemma fillSum_update:
  "i < length slots \<Longrightarrow> fillSum (slots[i := s]) = fillSum slots - slotFill (slots ! i) + slotFill s"
  by (simp add: fillSum_def map_update sum_list_update_group)

lemma mset_nonNull_update:
  "i < length slots \<Longrightarrow>
   mset (nonNull (slots[i := s])) + mset (nonNull [slots ! i]) = mset (nonNull slots) + mset (nonNull [s])"
proof (induction slots arbitrary: i)
  case Nil
  then show ?case by simp
next
  case (Cons a slots)
  show ?case
  proof (cases i)
    case 0
    then show ?thesis by (cases a; cases s) simp_all
  next
    case (Suc k)
    with Cons show ?thesis by (cases a) (simp_all add: ac_simps)
  qed
qed

lemma occupied_update:
  "i < length slots \<Longrightarrow>
   occupied (slots[i := s]) + occupied [slots ! i] = occupied slots + occupied [s]"
  using arg_cong[OF mset_nonNull_update[of i slots s], of size]
  by (simp add: occupied_def)

lemma wfItem_fill:
  assumes "wfItem item"
  shows "stackLimit item = stack_size item" "quantity item = Some (quantityOr1 item)"
    "1 \<le> quantityOr1 item" "quantityOr1 item \<le> stack_size item"
    "0 < fillOf item" "fillOf item \<le> 1"
proof -
  from assms obtain q where q: "quantity item = Some q" "1 \<le> q" "q \<le> stack_size item"
    and s: "stack_size item = 1 \<or> stack_size item = 16 \<or> stack_size item = 64"
    by (auto simp: wfItem_def split: option.splits)
  show sl: "stackLimit item = stack_size item" using s by (auto simp: stackLimit_def)
  show "quantity item = Some (quantityOr1 item)" using q by (simp add: quantityOr1_def)
  show q1: "1 \<le> quantityOr1 item" using q by (simp add: quantityOr1_def)
  show q2: "quantityOr1 item \<le> stack_size item" using q by (simp add: quantityOr1_def)
  have pos: "0 < stack_size item" using s by auto
  show "0 < fillOf item" using q1 pos by (simp add: fillOf_def sl)
  show "fillOf item \<le> 1" using q2 pos by (simp add: fillOf_def sl)
qed

lemma wfSlots_nth: "wfSlots slots \<Longrightarrow> j < length slots \<Longrightarrow> slots ! j = Some item \<Longrightarrow> wfItem item"
  by (auto simp: wfSlots_def list_all_length split: option.splits)

lemma wfSlotsI: "(\<And>j item. j < length slots \<Longrightarrow> slots ! j = Some item \<Longrightarrow> wfItem item) \<Longrightarrow> wfSlots slots"
  by (auto simp: wfSlots_def list_all_length split: option.splits)

lemma slotFill_bounds: "wfSlots slots \<Longrightarrow> j < length slots \<Longrightarrow> 0 \<le> slotFill (slots ! j) \<and> slotFill (slots ! j) \<le> 1"
  using wfItem_fill(5,6) wfSlots_nth
  by (cases "slots ! j") (fastforce simp: slotFill_def)+

lemma signalOf_mono: "x \<le> y \<Longrightarrow> signalOf x \<le> signalOf y"
  by (simp add: signalOf_def floor_mono)

lemma score_signalOf:
  "nonNull slots \<noteq> [] \<Longrightarrow> calculateSignalStrength slots = signalOf (fillSum slots)"
  by (simp add: score_fillSum signalOf_def nonNull_empty_iff)

lemma score_signalOf_nth:
  "j < length slots \<Longrightarrow> slots ! j \<noteq> None \<Longrightarrow> calculateSignalStrength slots = signalOf (fillSum slots)"
proof -
  assume a: "j < length slots" "slots ! j \<noteq> None"
  then obtain x where "Some x \<in> set slots" by (metis nth_mem not_None_eq)
  then have "nonNull slots \<noteq> []" using set_nonNull[of slots] by auto
  then show ?thesis by (rule score_signalOf)
qed

declare whileIncrement.simps [simp del]

section \<open>The increment loops\<close>

lemma setQuantity_length [simp]: "length (setQuantity slots i q) = length slots"
  by (simp add: setQuantity_def)

lemma setQuantity_twice [simp]: "setQuantity (setQuantity slots i a) i b = setQuantity slots i b"
  by (cases "i < length slots") (simp_all add: setQuantity_def option.map_comp comp_def list_update_beyond)

lemma setQuantity_nth_other: "j \<noteq> i \<Longrightarrow> setQuantity slots i q ! j = slots ! j"
  by (simp add: setQuantity_def)

lemma setQuantity_nth_same:
  "i < length slots \<Longrightarrow> setQuantity slots i q ! i = map_option (\<lambda>item. item\<lparr>quantity := Some q\<rparr>) (slots ! i)"
  by (simp add: setQuantity_def)

lemma canIncrement_Some:
  "canIncrement limit i slots \<longleftrightarrow>
     i < length slots \<and> (\<exists>item q. slots ! i = Some item \<and> quantity item = Some q \<and> q < limit)"
  by (auto simp: canIncrement_def quantityLt_def split: option.splits)

lemma quantityAt_setQuantity:
  "i < length slots \<Longrightarrow> slots ! i \<noteq> None \<Longrightarrow> quantityAt (setQuantity slots i q) i = q"
  by (auto simp: quantityAt_def setQuantity_def)

lemma setQuantity_same:
  "slots ! i = Some item \<Longrightarrow> quantity item = Some q \<Longrightarrow> setQuantity slots i q = slots"
  by (cases "i < length slots") (simp_all add: setQuantity_def list_update_same_conv list_update_beyond)

lemma canIncrement_setQuantity:
  "canIncrement limit i (setQuantity slots i q) \<longleftrightarrow> i < length slots \<and> slots ! i \<noteq> None \<and> q < limit"
  by (auto simp: canIncrement_Some setQuantity_nth_same)

lemma whileIncrement_stop: "\<not> canIncrement limit i slots \<Longrightarrow> whileIncrement limit cs i slots = (slots, False)"
  by (simp add: whileIncrement.simps)

text \<open>What the inner loop returns: the quantity at \<open>i\<close> raised to some \<open>q\<close>, every accepted
  intermediate signal at most \<open>cs\<close>; either the next unit would exceed \<open>cs\<close>, or the limit
  is reached.\<close>

lemma whileIncrement_result:
  assumes "canIncrement limit i slots"
  shows "\<exists>q found. whileIncrement limit cs i slots = (setQuantity slots i q, found)
           \<and> quantityAt slots i \<le> q \<and> q \<le> limit
           \<and> (quantityAt slots i < q \<longrightarrow> calculateSignalStrength (setQuantity slots i q) \<le> cs)
           \<and> (found \<longrightarrow> q < limit \<and> cs < calculateSignalStrength (setQuantity slots i (q + 1)))
           \<and> (\<not> found \<longrightarrow> q = limit)"
  using assms
proof (induction limit cs i slots rule: whileIncrement.induct)
  case (1 limit cs i slots)
  from "1.prems" obtain item q0 where i: "i < length slots"
    and it: "slots ! i = Some item" "quantity item = Some q0" and q0: "q0 < limit"
    by (auto simp: canIncrement_Some)
  have qa: "quantityAt slots i = q0" using it by (simp add: quantityAt_def)
  let ?inc = "setQuantity slots i (q0 + 1)"
  have qinc: "quantityAt ?inc i = q0 + 1" using i it by (simp add: quantityAt_setQuantity)
  show ?case
  proof (cases "cs < calculateSignalStrength ?inc")
    case True
    then have "whileIncrement limit cs i slots = (setQuantity slots i q0, True)"
      using "1.prems" by (subst whileIncrement.simps) (simp add: qa qinc Let_def)
    then show ?thesis using True q0 qa by (intro exI[of _ q0] exI[of _ True]) simp
  next
    case False
    then have eq: "whileIncrement limit cs i slots = whileIncrement limit cs i ?inc"
      using "1.prems" by (subst whileIncrement.simps) (simp add: qa Let_def)
    show ?thesis
    proof (cases "canIncrement limit i ?inc")
      case c: True
      from "1.IH"[OF "1.prems" _ refl _ c] False qa
      obtain q found where r: "whileIncrement limit cs i ?inc = (setQuantity ?inc i q, found)"
        and b: "quantityAt ?inc i \<le> q" "q \<le> limit"
        and le: "quantityAt ?inc i < q \<longrightarrow> calculateSignalStrength (setQuantity ?inc i q) \<le> cs"
        and f: "found \<longrightarrow> q < limit \<and> cs < calculateSignalStrength (setQuantity ?inc i (q + 1))"
        and nf: "\<not> found \<longrightarrow> q = limit"
        by auto
      have "calculateSignalStrength (setQuantity slots i q) \<le> cs"
      proof (cases "q = q0 + 1")
        case True
        then show ?thesis using False by simp
      next
        case False
        then show ?thesis using le b qinc by simp
      qed
      then show ?thesis
        using r b f nf qinc qa eq by (intro exI[of _ q] exI[of _ found]) simp
    next
      case c: False
      then have "whileIncrement limit cs i ?inc = (?inc, False)" by (rule whileIncrement_stop)
      moreover have "q0 + 1 = limit" using c q0 i it by (simp add: canIncrement_setQuantity)
      ultimately show ?thesis
        using eq qa False by (intro exI[of _ "q0 + 1"] exI[of _ False]) simp
    qed
  qed
qed

section \<open>Reachable working arrays\<close>

lemma reach_length: "reach base slots \<Longrightarrow> length slots = length base"
  by (simp add: reach_def)

lemma reach_nth: "reach base slots \<Longrightarrow> j < length base \<Longrightarrow> slotReach base j (base ! j) (slots ! j)"
  by (simp add: reach_def)

lemma slotReach_refl: "wfItem item \<Longrightarrow> slotReach base j (Some item) (Some item)"
  by (auto simp: slotReach_def wfItem_def split: option.splits)

lemma reach_refl: "wfSlots base \<Longrightarrow> reach base base"
  unfolding reach_def
proof (intro conjI allI impI)
  fix j assume wf: "wfSlots base" and j: "j < length base"
  show "slotReach base j (base ! j) (base ! j)"
  proof (cases "base ! j")
    case None
    then show ?thesis by (simp add: slotReach_def)
  next
    case (Some item)
    then show ?thesis using wfSlots_nth[OF wf j] by (simp add: slotReach_refl)
  qed
qed simp

lemma reach_cases:
  assumes "reach base slots" "j < length base"
  obtains (original) item q0 q where "base ! j = Some item" "quantity item = Some q0 \<or> quantity item = None \<and> q0 = 0"
      "q0 \<le> q" "q \<le> stack_size item" "slots ! j = Some (item\<lparr>quantity := Some q\<rparr>)"
  | (empty) "base ! j = None" "slots ! j = None"
  | (clone) x where "base ! j = None" "0 < j" "slots ! j = Some x" "cloneOf base x"
proof -
  have s: "slotReach base j (base ! j) (slots ! j)" using assms by (rule reach_nth)
  show ?thesis
  proof (cases "base ! j")
    case None
    then show ?thesis using s empty clone by (auto simp: slotReach_def)
  next
    case (Some item)
    then show ?thesis using s original[of item] by (auto simp: slotReach_def split: option.splits)
  qed
qed

lemma reach_wfItem:
  assumes r: "reach base slots" and wf: "wfSlots base" and j: "j < length slots"
    and s: "slots ! j = Some x"
  shows "wfItem x"
proof -
  have jb: "j < length base" using r j by (simp add: reach_def)
  from r jb show ?thesis
  proof (cases rule: reach_cases)
    case (original item q0 q)
    then have w: "wfItem item" using wf jb wfSlots_nth by blast
    then show ?thesis using original s by (auto simp: wfItem_def split: option.splits)
  next
    case empty
    then show ?thesis using s by simp
  next
    case (clone x)
    then show ?thesis using s by (simp add: cloneOf_def)
  qed
qed

lemma reach_wfSlots: "reach base slots \<Longrightarrow> wfSlots base \<Longrightarrow> wfSlots slots"
  by (rule wfSlotsI) (rule reach_wfItem)

lemma reach_head: "reach base slots \<Longrightarrow> base \<noteq> [] \<Longrightarrow> base ! 0 = None \<Longrightarrow> slots ! 0 = None"
  using reach_nth[of base slots 0] by (simp add: slotReach_def)

lemma cloneOf_quantity:
  "cloneOf base x \<Longrightarrow> 1 \<le> q \<Longrightarrow> q \<le> stack_size x \<Longrightarrow> cloneOf base (x\<lparr>quantity := Some q\<rparr>)"
  by (auto simp: cloneOf_def wfItem_def list_ex_iff split: option.splits)

lemma reach_setQuantity:
  assumes r: "reach base slots" and wf: "wfSlots base"
    and s: "slots ! i = Some x" "quantity x = Some q0" "q0 \<le> q" "q \<le> stack_size x"
  shows "reach base (setQuantity slots i q)"
proof (cases "i < length slots")
  case False
  then show ?thesis using r by (simp add: setQuantity_def list_update_beyond)
next
  case i: True
  have wx: "wfItem x" using reach_wfItem[OF r wf i s(1)] .
  then have q1: "1 \<le> q" using s by (auto simp: wfItem_def)
  have ib: "i < length base" using r i by (simp add: reach_def)
  have n: "setQuantity slots i q ! i = Some (x\<lparr>quantity := Some q\<rparr>)"
    using i s by (simp add: setQuantity_nth_same)
  have "slotReach base i (base ! i) (Some (x\<lparr>quantity := Some q\<rparr>))"
    using r ib
  proof (cases rule: reach_cases)
    case (original item q0' q')
    then show ?thesis using s by (auto simp: slotReach_def intro!: exI[of _ q])
  next
    case empty
    then show ?thesis using s by simp
  next
    case (clone y)
    then show ?thesis using s q1 cloneOf_quantity[of base x q] by (auto simp: slotReach_def)
  qed
  then show ?thesis
    using r n unfolding reach_def
    by (auto simp: setQuantity_nth_other) (metis setQuantity_nth_other)
qed

lemma reach_place:
  assumes r: "reach base slots" and i: "0 < i" "i < length slots" and e: "slots ! i = None"
    and c: "cloneOf base x"
  shows "reach base (slots[i := Some x])"
proof -
  have ib: "i < length base" using r i by (simp add: reach_def)
  have "slotReach base i (base ! i) (Some x)"
    using r ib
  proof (cases rule: reach_cases)
    case (original item q0 q)
    then show ?thesis using e by simp
  next
    case empty
    then show ?thesis using i c by (simp add: slotReach_def)
  next
    case (clone y)
    then show ?thesis using e by simp
  qed
  then show ?thesis
    using r i unfolding reach_def by (auto simp: nth_list_update)
qed

section \<open>Invariants of the loops\<close>

lemma incrementAll_invariant:
  assumes "P slots"
    and step: "\<And>sl i item q0 q. \<lbrakk>P sl; i \<in> set idxs; i < length sl; sl ! i = Some item;
                 quantity item = Some q0; q0 < q; q \<le> limitOf item;
                 calculateSignalStrength (setQuantity sl i q) \<le> cs\<rbrakk> \<Longrightarrow> P (setQuantity sl i q)"
  shows "P (fst (incrementAll limitOf cs idxs slots))"
  using assms
proof (induction idxs arbitrary: slots)
  case Nil
  then show ?case by simp
next
  case (Cons i idxs)
  have step': "\<And>sl i item q0 q. \<lbrakk>P sl; i \<in> set idxs; i < length sl; sl ! i = Some item;
                 quantity item = Some q0; q0 < q; q \<le> limitOf item;
                 calculateSignalStrength (setQuantity sl i q) \<le> cs\<rbrakk> \<Longrightarrow> P (setQuantity sl i q)"
    by (rule Cons.prems(2)) auto
  show ?case
  proof (cases "slots ! i")
    case None
    then show ?thesis using Cons.IH[OF Cons.prems(1) step'] by simp
  next
    case (Some item)
    show ?thesis
    proof (cases "canIncrement (limitOf item) i slots")
      case False
      then show ?thesis
        using Some Cons.IH[OF Cons.prems(1) step'] by (simp add: whileIncrement_stop)
    next
      case True
      then obtain q0 where i: "i < length slots" and q0: "quantity item = Some q0" "q0 < limitOf item"
        using Some by (auto simp: canIncrement_Some)
      have qa: "quantityAt slots i = q0" using Some q0 by (simp add: quantityAt_def)
      from whileIncrement_result[OF True, of cs] qa
      obtain q found where r: "whileIncrement (limitOf item) cs i slots = (setQuantity slots i q, found)"
        and b: "q0 \<le> q" "q \<le> limitOf item"
        and le: "q0 < q \<longrightarrow> calculateSignalStrength (setQuantity slots i q) \<le> cs"
        by auto
      have p: "P (setQuantity slots i q)"
      proof (cases "q = q0")
        case True
        then show ?thesis using Cons.prems(1) setQuantity_same[OF Some q0(1)] by simp
      next
        case False
        then show ?thesis
          using Cons.prems(2)[OF Cons.prems(1) _ i Some q0(1) _ b(2)] b(1) le by simp
      qed
      show ?thesis
      proof (cases found)
        case True
        then show ?thesis using Some r p by simp
      next
        case False
        then show ?thesis using Some r Cons.IH[OF p step'] by simp
      qed
    qed
  qed
qed

lemma fillUnstackables_invariant:
  assumes "P slots"
    and step: "\<And>sl i. \<lbrakk>P sl; i \<in> set idxs; sl ! i = None;
                 calculateSignalStrength (sl[i := Some (unstackableDuplicate target)]) \<le> cs\<rbrakk>
               \<Longrightarrow> P (sl[i := Some (unstackableDuplicate target)])"
  shows "P (fst (fillUnstackables target cs idxs slots))"
  using assms
proof (induction idxs arbitrary: slots)
  case Nil
  then show ?case by simp
next
  case (Cons i idxs)
  have step': "P (sl[j := Some (unstackableDuplicate target)])"
    if "P sl" "j \<in> set idxs" "sl ! j = None"
       "calculateSignalStrength (sl[j := Some (unstackableDuplicate target)]) \<le> cs" for sl j
  proof (rule Cons.prems(2))
    show "P sl" by fact
    show "j \<in> set (i # idxs)" using that(2) by simp
    show "sl ! j = None" by fact
    show "calculateSignalStrength (sl[j := Some (unstackableDuplicate target)]) \<le> cs" by fact
  qed
  let ?placed = "slots[i := Some (unstackableDuplicate target)]"
  have unfold: "fillUnstackables target cs (i # idxs) slots =
     (if slots ! i = None then
        if cs < calculateSignalStrength ?placed then (?placed[i := None], True)
        else fillUnstackables target cs idxs ?placed
      else fillUnstackables target cs idxs slots)"
    by (simp only: fillUnstackables.simps Let_def)
  show ?case
  proof (cases "slots ! i = None")
    case False
    have "P (fst (fillUnstackables target cs idxs slots))"
      using Cons.prems(1) step' by (rule Cons.IH)
    then show ?thesis using False by (simp only: unfold if_False simp_thms)
  next
    case True
    show ?thesis
    proof (cases "cs < calculateSignalStrength ?placed")
      case e: True
      have r: "?placed[i := None] = slots"
        using True by (cases "i < length slots") (simp_all add: list_update_beyond list_update_same_conv)
      have "fillUnstackables target cs (i # idxs) slots = (?placed[i := None], True)"
        using True e by (simp only: unfold if_True simp_thms)
      then show ?thesis using Cons.prems(1) by (simp only: r fst_conv)
    next
      case e: False
      have i: "i \<in> set (i # idxs)" by simp
      have p: "P ?placed" using Cons.prems(1) i True e by (intro Cons.prems(2)) simp_all
      have "P (fst (fillUnstackables target cs idxs ?placed))"
        using p step' by (rule Cons.IH)
      then show ?thesis using True e by (simp only: unfold if_True if_False simp_thms)
    qed
  qed
qed

lemma duplicateStacks_invariant:
  assumes "P slots"
    and step: "\<And>sl i. \<lbrakk>P sl; i \<in> set idxs; sl ! i = None;
                 calculateSignalStrength (sl[i := Some (stackDuplicate source)]) \<le> cs\<rbrakk>
               \<Longrightarrow> P (sl[i := Some (stackDuplicate source)])"
    and final: "\<And>sl i. \<lbrakk>P sl; i \<in> set idxs; sl ! i = None;
                 cs < calculateSignalStrength (sl[i := Some (stackDuplicate source)])\<rbrakk>
               \<Longrightarrow> Q (sl[i := Some ((stackDuplicate source)\<lparr>quantity := Some 1\<rparr>)])"
    and finish: "\<And>sl. P sl \<Longrightarrow> Q sl"
  shows "Q (duplicateStacks source cs idxs slots)"
  using assms(1,2,3)
proof (induction idxs arbitrary: slots)
  case Nil
  then show ?case using finish by simp
next
  case (Cons i idxs)
  have step': "P (sl[j := Some (stackDuplicate source)])"
    if "P sl" "j \<in> set idxs" "sl ! j = None"
       "calculateSignalStrength (sl[j := Some (stackDuplicate source)]) \<le> cs" for sl j
  proof (rule Cons.prems(2))
    show "P sl" by fact
    show "j \<in> set (i # idxs)" using that(2) by simp
    show "sl ! j = None" by fact
    show "calculateSignalStrength (sl[j := Some (stackDuplicate source)]) \<le> cs" by fact
  qed
  have final': "Q (sl[j := Some ((stackDuplicate source)\<lparr>quantity := Some 1\<rparr>)])"
    if "P sl" "j \<in> set idxs" "sl ! j = None"
       "cs < calculateSignalStrength (sl[j := Some (stackDuplicate source)])" for sl j
  proof (rule Cons.prems(3))
    show "P sl" by fact
    show "j \<in> set (i # idxs)" using that(2) by simp
    show "sl ! j = None" by fact
    show "cs < calculateSignalStrength (sl[j := Some (stackDuplicate source)])" by fact
  qed
  let ?placed = "slots[i := Some (stackDuplicate source)]"
  have unfold: "duplicateStacks source cs (i # idxs) slots =
     (if slots ! i = None then
        if cs < calculateSignalStrength ?placed
        then ?placed[i := Some ((stackDuplicate source)\<lparr>quantity := Some 1\<rparr>)]
        else duplicateStacks source cs idxs ?placed
      else duplicateStacks source cs idxs slots)"
    by (simp only: duplicateStacks.simps Let_def)
  have i: "i \<in> set (i # idxs)" by simp
  show ?case
  proof (cases "slots ! i = None")
    case False
    have "Q (duplicateStacks source cs idxs slots)"
      using Cons.prems(1) step' final' by (rule Cons.IH)
    then show ?thesis using False by (simp only: unfold if_False simp_thms)
  next
    case True
    show ?thesis
    proof (cases "cs < calculateSignalStrength ?placed")
      case e: True
      have "Q (slots[i := Some ((stackDuplicate source)\<lparr>quantity := Some 1\<rparr>)])"
        using Cons.prems(1) i True e by (rule Cons.prems(3))
      moreover have "duplicateStacks source cs (i # idxs) slots
          = ?placed[i := Some ((stackDuplicate source)\<lparr>quantity := Some 1\<rparr>)]"
        using True e by (simp only: unfold if_True simp_thms)
      ultimately show ?thesis by (simp only: list_update_overwrite)
    next
      case e: False
      have p: "P ?placed" using Cons.prems(1) i True e by (intro Cons.prems(2)) simp_all
      have "Q (duplicateStacks source cs idxs ?placed)"
        using p step' final' by (rule Cons.IH)
      then show ?thesis using True e by (simp only: unfold if_True if_False simp_thms)
    qed
  qed
qed

section \<open>Fill sums under the updates of the loops\<close>

lemma fillOf_quantity:
  "wfItem x \<Longrightarrow> 1 \<le> q \<Longrightarrow> fillOf (x\<lparr>quantity := Some q\<rparr>) = of_int q / of_int (stack_size x)"
  by (auto simp: fillOf_def quantityOr1_def stackLimit_def wfItem_def)

lemma fillOf_wf: "wfItem x \<Longrightarrow> fillOf x = of_int (quantityOr1 x) / of_int (stack_size x)"
  by (simp add: fillOf_def wfItem_fill(1))

lemma fillSum_setQuantity:
  assumes "i < length slots" "slots ! i = Some x" "wfItem x" "quantity x = Some q0" "1 \<le> q"
  shows "fillSum (setQuantity slots i q) = fillSum slots + of_int (q - q0) / of_int (stack_size x)"
proof -
  have "quantityOr1 x = q0" using assms wfItem_fill(2)[of x] by simp
  then show ?thesis
    using assms by (simp add: setQuantity_def fillSum_update slotFill_def fillOf_quantity fillOf_wf diff_divide_distrib)
qed

lemma fillSum_place:
  "i < length slots \<Longrightarrow> slots ! i = None \<Longrightarrow> fillSum (slots[i := Some x]) = fillSum slots + fillOf x"
  by (simp add: fillSum_update slotFill_def)

lemma fillSum_nonneg: "wfSlots slots \<Longrightarrow> 0 \<le> fillSum slots"
  unfolding fillSum_def
  by (rule sum_list_nonneg) (auto simp: in_set_conv_nth dest: slotFill_bounds)

lemma signalOf_pos: "0 \<le> x \<Longrightarrow> 1 \<le> signalOf x"
  by (simp add: signalOf_def le_floor_iff)

lemma score_le_signalOf: "wfSlots slots \<Longrightarrow> calculateSignalStrength slots \<le> signalOf (fillSum slots)"
  using signalOf_pos[OF fillSum_nonneg, of slots]
  by (cases "nonNull slots = []") (simp_all add: score_signalOf, simp add: calculateSignalStrength_def)

lemma score_setQuantity_ge:
  assumes wf: "wfSlots slots" and i: "i < length slots" and x: "slots ! i = Some x" "quantity x = Some q0"
    and q: "q0 \<le> q"
  shows "calculateSignalStrength slots \<le> calculateSignalStrength (setQuantity slots i q)"
proof -
  have wx: "wfItem x" using wfSlots_nth[OF wf i x(1)] .
  then have q1: "1 \<le> q" "0 < stack_size x" using x q by (auto simp: wfItem_def)
  have "fillSum slots \<le> fillSum (setQuantity slots i q)"
    using q q1 by (simp add: fillSum_setQuantity[OF i x(1) wx x(2) q1(1)])
  moreover have "setQuantity slots i q ! i \<noteq> None" using i x by (simp add: setQuantity_nth_same)
  ultimately show ?thesis
    using score_signalOf_nth[of i slots] score_signalOf_nth[of i "setQuantity slots i q"] i x
    by (simp add: signalOf_mono)
qed

lemma score_place_ge:
  assumes wf: "wfSlots slots" and i: "i < length slots" and e: "slots ! i = None" and x: "wfItem x"
  shows "calculateSignalStrength slots \<le> calculateSignalStrength (slots[i := Some x])"
proof -
  have "fillSum slots \<le> fillSum (slots[i := Some x])"
    using wfItem_fill(5)[OF x] by (simp add: fillSum_place[OF i e])
  then have "signalOf (fillSum slots) \<le> signalOf (fillSum (slots[i := Some x]))"
    by (rule signalOf_mono)
  moreover have "calculateSignalStrength (slots[i := Some x]) = signalOf (fillSum (slots[i := Some x]))"
    using score_signalOf_nth[of i "slots[i := Some x]"] i by simp
  ultimately show ?thesis using score_le_signalOf[OF wf] by simp
qed

section \<open>Normalization and classification keep the contract\<close>

lemma normalizeSlots_length [simp]: "length (normalizeSlots slots) = length slots"
  by (simp add: normalizeSlots_def)

lemma normalizeSlots_nth:
  "j < length slots \<Longrightarrow> normalizeSlots slots ! j = map_option (normalizeSlot j) (slots ! j)"
  by (simp add: normalizeSlots_def nth_enumerate_eq)

lemma wellFormed_nth:
  "wellFormed slots \<Longrightarrow> j < length slots \<Longrightarrow> slots ! j = Some item \<Longrightarrow> wellFormedSlot item"
  by (auto simp: wellFormed_def list_all_length split: option.splits)

lemma wfItem_normalizeSlot: "wellFormedSlot item \<Longrightarrow> wfItem (normalizeSlot j item)"
  by (auto simp: wellFormedSlot_def wfItem_def normalizeSlot_def quantityOr1_def split: option.splits)

lemma fillOf_normalizeSlot: "fillOf (normalizeSlot j item) = fillOf item"
  by (auto simp: fillOf_def normalizeSlot_def quantityOr1_def stackLimit_def split: option.splits)

lemma wfSlots_normalizeSlots: "wellFormed slots \<Longrightarrow> wfSlots (normalizeSlots slots)"
proof (rule wfSlotsI)
  fix j item
  assume w: "wellFormed slots" and j: "j < length (normalizeSlots slots)"
    and s: "normalizeSlots slots ! j = Some item"
  then obtain x where "slots ! j = Some x" "item = normalizeSlot j x"
    by (auto simp: normalizeSlots_nth)
  then show "wfItem item" using wellFormed_nth[OF w, of j x] j wfItem_normalizeSlot by simp
qed

lemma list_all_None_nth: "list_all (\<lambda>x. x = None) slots \<longleftrightarrow> (\<forall>j < length slots. slots ! j = None)"
  by (simp add: list_all_length)

lemma fillSum_pointwise:
  assumes "length a = length b" "\<And>j. j < length a \<Longrightarrow> slotFill (a ! j) = slotFill (b ! j)"
  shows "fillSum a = fillSum b"
proof -
  have "map slotFill a = map slotFill b"
    using assms by (intro nth_equalityI) simp_all
  then show ?thesis by (simp add: fillSum_def)
qed

lemma score_pointwise:
  assumes "length a = length b" "\<And>j. j < length a \<Longrightarrow> slotFill (a ! j) = slotFill (b ! j)"
    "\<And>j. j < length a \<Longrightarrow> a ! j = None \<longleftrightarrow> b ! j = None"
  shows "calculateSignalStrength a = calculateSignalStrength b"
  using fillSum_pointwise[OF assms(1,2)] assms(1,3)
  by (auto simp: score_fillSum list_all_None_nth)

lemma score_normalizeSlots: "calculateSignalStrength (normalizeSlots slots) = calculateSignalStrength slots"
  by (rule score_pointwise)
     (auto simp: normalizeSlots_nth slotFill_def fillOf_normalizeSlot split: option.splits)

lemma markAdjusted_nth_eq:
  "j < length slots \<Longrightarrow> \<exists>f. markAdjusted slots ! j = map_option (\<lambda>item. item\<lparr>forceAdjusted := Some (f item)\<rparr>) (slots ! j)"
  by (auto simp: markAdjusted_def Let_def)

lemma markAll_nth_eq:
  "j < length slots \<Longrightarrow> markAll slots ! j = map_option (\<lambda>item. item\<lparr>forceAdjusted := Some True\<rparr>) (slots ! j)"
  by (simp add: markAll_def)

lemma classify_length [simp]: "length (classify slots) = length slots"
  by (simp add: classify_def Let_def)

lemma classify_nth:
  assumes "j < length slots"
  shows "\<exists>b. classify slots ! j = map_option (\<lambda>item. item\<lparr>forceAdjusted := Some b\<rparr>) (slots ! j)"
proof -
  from markAdjusted_nth_eq[OF assms] obtain f where
    m: "markAdjusted slots ! j = map_option (\<lambda>item. item\<lparr>forceAdjusted := Some (f item)\<rparr>) (slots ! j)" ..
  show ?thesis
  proof (cases "slots ! j")
    case None
    then show ?thesis using assms m by (simp add: classify_def Let_def markAll_nth_eq)
  next
    case (Some item)
    then show ?thesis using assms m
      by (cases "hasQuantityAdjustments slots") (auto simp: classify_def Let_def markAll_nth_eq)
  qed
qed

lemma wfItem_forceAdjusted [simp]: "wfItem (item\<lparr>forceAdjusted := b\<rparr>) = wfItem item"
  by (simp add: wfItem_def split: option.splits)

lemma fillOf_forceAdjusted [simp]: "fillOf (item\<lparr>forceAdjusted := b\<rparr>) = fillOf item"
  by (simp add: fillOf_def quantityOr1_def stackLimit_def)

lemma wfSlots_classify: "wfSlots slots \<Longrightarrow> wfSlots (classify slots)"
proof (rule wfSlotsI)
  fix j item
  assume w: "wfSlots slots" and j: "j < length (classify slots)" and s: "classify slots ! j = Some item"
  from classify_nth[of j slots] j obtain b where
    "classify slots ! j = map_option (\<lambda>item. item\<lparr>forceAdjusted := Some b\<rparr>) (slots ! j)" by auto
  with s obtain x where "slots ! j = Some x" "item = x\<lparr>forceAdjusted := Some b\<rparr>" by auto
  then show "wfItem item" using wfSlots_nth[OF w, of j x] j by simp
qed

lemma score_classify: "calculateSignalStrength (classify slots) = calculateSignalStrength slots"
proof (rule score_pointwise)
  show "length (classify slots) = length slots" by simp
  fix j assume "j < length (classify slots)"
  then obtain b where c: "classify slots ! j = map_option (\<lambda>item. item\<lparr>forceAdjusted := Some b\<rparr>) (slots ! j)"
    using classify_nth[of j slots] by auto
  show "slotFill (classify slots ! j) = slotFill (slots ! j)"
    by (cases "slots ! j") (simp_all add: c slotFill_def)
  show "classify slots ! j = None \<longleftrightarrow> slots ! j = None"
    by (simp add: c)
qed

lemma classified_facts:
  assumes "wellFormed slots"
  shows "length (classified slots) = 54" "classified slots ! 0 = None" "wfSlots (classified slots)"
    "calculateSignalStrength (classified slots) = calculateSignalStrength slots"
    "classified slots \<noteq> []"
proof -
  show l: "length (classified slots) = 54" using assms by (simp add: classified_def wellFormed_def)
  then show "classified slots \<noteq> []" by auto
  have "\<exists>b. classified slots ! 0 = map_option (\<lambda>item. item\<lparr>forceAdjusted := Some b\<rparr>) (normalizeSlots slots ! 0)"
    unfolding classified_def using assms by (intro classify_nth) (simp add: wellFormed_def)
  then show "classified slots ! 0 = None"
    using assms by (auto simp: normalizeSlots_nth wellFormed_def)
  show "wfSlots (classified slots)"
    unfolding classified_def using assms by (intro wfSlots_classify wfSlots_normalizeSlots)
  show "calculateSignalStrength (classified slots) = calculateSignalStrength slots"
    by (simp add: classified_def score_classify score_normalizeSlots)
qed

section \<open>The strategies keep the working array reachable and its signal unchanged\<close>

lemma foldl_choice: "foldl (\<lambda>acc item. if c item acc then item else acc) a xs \<in> set (a # xs)"
  by (induction xs arbitrary: a) (auto split: if_splits)

lemma itemsAt_member: "x \<in> set (itemsAt slots idxs) \<Longrightarrow> \<exists>j \<in> set idxs. slots ! j = Some x"
  by (auto simp: itemsAt_def set_nonNull)

lemma forcedIndices_member: "j \<in> set (forcedIndices slots) \<longleftrightarrow> j < length slots \<and> isForced (slots ! j)"
  by (auto simp: forcedIndices_def)

lemma targetUnstackable_member:
  assumes "targetUnstackable items = Some t"
  shows "t \<in> set items" "stack_size t = 1"
proof -
  from assms obtain u us where f: "filter (\<lambda>item. stack_size item = 1) items = u # us"
    and t: "t = foldl (\<lambda>acc item.
            if entryLess (getRarityOrder (Some (rarity item))) (getRarityOrder (Some (rarity acc)))
            then item else acc)
            u (u # us)"
    by (auto simp: targetUnstackable_def split: list.splits)
  have "t \<in> set (u # u # us)" unfolding t by (rule foldl_choice)
  then have "t \<in> set (filter (\<lambda>item. stack_size item = 1) items)" by (simp add: f)
  then show "t \<in> set items" "stack_size t = 1" by auto
qed

lemma itemToDuplicate_member: "itemToDuplicate items = Inr x \<Longrightarrow> x \<in> set items"
  using foldl_choice[of "\<lambda>item acc. stack_size item \<ge> stack_size acc \<and>
               entryLess (getRarityOrder (Some (rarity item))) (getRarityOrder (Some (rarity acc)))"]
  by (auto simp: itemToDuplicate_def split: list.splits)

lemma itemToDuplicate_error: "itemToDuplicate items = Inl e \<Longrightarrow> items = []"
  by (auto simp: itemToDuplicate_def split: list.splits)

lemma hasId_iff:
  "list_ex (\<lambda>s. case s of None \<Rightarrow> False | Some item \<Rightarrow> item_id item = k \<and> stack_size item = n) base
     \<longleftrightarrow> (\<exists>item. Some item \<in> set base \<and> item_id item = k \<and> stack_size item = n)"
proof
  assume "list_ex (\<lambda>s. case s of None \<Rightarrow> False | Some item \<Rightarrow> item_id item = k \<and> stack_size item = n) base"
  then show "\<exists>item. Some item \<in> set base \<and> item_id item = k \<and> stack_size item = n"
    by (auto simp: list_ex_iff split: option.splits)
next
  assume "\<exists>item. Some item \<in> set base \<and> item_id item = k \<and> stack_size item = n"
  then obtain item where "Some item \<in> set base" "item_id item = k" "stack_size item = n" by blast
  then show "list_ex (\<lambda>s. case s of None \<Rightarrow> False | Some item \<Rightarrow> item_id item = k \<and> stack_size item = n) base"
    unfolding list_ex_iff by (intro bexI[of _ "Some item"]) simp_all
qed

lemma reach_hasId:
  assumes r: "reach base slots" and j: "j < length slots" and s: "slots ! j = Some x"
  shows "\<exists>item. Some item \<in> set base \<and> item_id item = item_id x \<and> stack_size item = stack_size x"
proof -
  have jb: "j < length base" using r j by (simp add: reach_def)
  from r jb show ?thesis
  proof (cases rule: reach_cases)
    case (original item q0 q)
    then have "base ! j = Some item" "item_id item = item_id x" "stack_size item = stack_size x"
      using s by auto
    then show ?thesis using jb by (metis nth_mem)
  next
    case empty
    then show ?thesis using s by simp
  next
    case (clone y)
    then show ?thesis using s by (auto simp: cloneOf_def hasId_iff)
  qed
qed

lemma cloneOf_stackDuplicate:
  assumes r: "reach base slots" and wf: "wfSlots base" and j: "j < length slots" and s: "slots ! j = Some x"
  shows "cloneOf base (stackDuplicate x)" "cloneOf base ((stackDuplicate x)\<lparr>quantity := Some 1\<rparr>)"
proof -
  have w: "wfItem x" using reach_wfItem[OF r wf j s] .
  have i: "\<exists>item. Some item \<in> set base \<and> item_id item = item_id x \<and> stack_size item = stack_size x"
    using reach_hasId[OF r j s] .
  show "cloneOf base (stackDuplicate x)"
    using w i by (auto simp: cloneOf_def stackDuplicate_def wfItem_def hasId_iff split: option.splits)
  show "cloneOf base ((stackDuplicate x)\<lparr>quantity := Some 1\<rparr>)"
    using w i by (auto simp: cloneOf_def stackDuplicate_def wfItem_def hasId_iff split: option.splits)
qed

lemma cloneOf_unstackableDuplicate:
  assumes wf: "wfSlots base" and j: "j < length base" and s: "base ! j = Some t"
  shows "cloneOf base (unstackableDuplicate t)"
proof -
  have w: "wfItem t" using wfSlots_nth[OF wf j s] .
  have "Some t \<in> set base" using j s by (metis nth_mem)
  then show ?thesis
    using w by (auto simp: cloneOf_def unstackableDuplicate_def wfItem_def hasId_iff split: option.splits)
qed

lemma keeps_incrementAll:
  assumes wf: "wfSlots base" and k: "keeps base cs slots"
    and lim: "\<forall>i \<in> set idxs. \<forall>x. slots ! i = Some x \<longrightarrow> limitOf x \<le> stack_size x"
    and inv: "\<And>x q. limitOf (x\<lparr>quantity := q\<rparr>) = limitOf x"
  shows "keeps base cs (fst (incrementAll limitOf cs idxs slots))"
proof -
  let ?P = "\<lambda>sl. keeps base cs sl \<and> (\<forall>i \<in> set idxs. \<forall>x. sl ! i = Some x \<longrightarrow> limitOf x \<le> stack_size x)"
  have "?P (fst (incrementAll limitOf cs idxs slots))"
  proof (rule incrementAll_invariant[where P = ?P])
    show "?P slots" using k lim by simp
  next
    fix sl i item q0 q
    assume p: "?P sl" and i: "i \<in> set idxs" "i < length sl" and s: "sl ! i = Some item"
      and q: "quantity item = Some q0" "q0 < q" "q \<le> limitOf item"
      and le: "calculateSignalStrength (setQuantity sl i q) \<le> cs"
    have r: "reach base sl" and c: "calculateSignalStrength sl = cs" using p by (simp_all add: keeps_def)
    have ql: "q \<le> stack_size item" using p i s q by force
    have r': "reach base (setQuantity sl i q)"
      using reach_setQuantity[OF r wf s q(1) _ ql] q by simp
    have "cs \<le> calculateSignalStrength (setQuantity sl i q)"
      using score_setQuantity_ge[OF reach_wfSlots[OF r wf] i(2) s q(1), of q] q c by simp
    then have k': "keeps base cs (setQuantity sl i q)" using r' le by (simp add: keeps_def)
    have "\<forall>j \<in> set idxs. \<forall>x. setQuantity sl i q ! j = Some x \<longrightarrow> limitOf x \<le> stack_size x"
    proof (intro ballI allI impI)
      fix j x assume j: "j \<in> set idxs" and x: "setQuantity sl i q ! j = Some x"
      show "limitOf x \<le> stack_size x"
      proof (cases "j = i")
        case True
        then have "x = item\<lparr>quantity := Some q\<rparr>" using x i s by (simp add: setQuantity_nth_same)
        then show ?thesis using p i s by (auto simp: inv)
      next
        case False
        then show ?thesis using p j x by (simp add: setQuantity_nth_other)
      qed
    qed
    then show "?P (setQuantity sl i q)" using k' by simp
  qed
  then show ?thesis by simp
qed

lemma keeps_fillUnstackables:
  assumes wf: "wfSlots base" and k: "keeps base cs slots"
    and c: "cloneOf base (unstackableDuplicate target)"
    and idx: "\<forall>i \<in> set idxs. 0 < i \<and> i < length base"
  shows "keeps base cs (fst (fillUnstackables target cs idxs slots))"
proof (rule fillUnstackables_invariant[where P = "keeps base cs"])
  show "keeps base cs slots" by fact
next
  fix sl i
  assume p: "keeps base cs sl" and i: "i \<in> set idxs" and e: "sl ! i = None"
    and le: "calculateSignalStrength (sl[i := Some (unstackableDuplicate target)]) \<le> cs"
  have r: "reach base sl" and s: "calculateSignalStrength sl = cs" using p by (simp_all add: keeps_def)
  have il: "0 < i" "i < length sl" using idx i r by (auto simp: reach_def)
  have "reach base (sl[i := Some (unstackableDuplicate target)])"
    using reach_place[OF r il e c] .
  moreover have "cs \<le> calculateSignalStrength (sl[i := Some (unstackableDuplicate target)])"
    using score_place_ge[OF reach_wfSlots[OF r wf] il(2) e, of "unstackableDuplicate target"] c s
    by (simp add: cloneOf_def)
  ultimately show "keeps base cs (sl[i := Some (unstackableDuplicate target)])"
    using le by (simp add: keeps_def)
qed

lemma reach_duplicateStacks:
  assumes r: "reach base slots"
    and c: "cloneOf base (stackDuplicate source)" "cloneOf base ((stackDuplicate source)\<lparr>quantity := Some 1\<rparr>)"
    and idx: "\<forall>i \<in> set idxs. 0 < i \<and> i < length base"
  shows "reach base (duplicateStacks source cs idxs slots)"
proof (rule duplicateStacks_invariant[where P = "reach base" and Q = "reach base"])
  show "reach base slots" by fact
next
  fix sl i
  assume p: "reach base sl" and i: "i \<in> set idxs" and e: "sl ! i = None"
  have il: "0 < i" "i < length sl" using idx i p by (auto simp: reach_def)
  show "reach base (sl[i := Some (stackDuplicate source)])"
    using reach_place[OF p il e c(1)] .
  show "reach base (sl[i := Some ((stackDuplicate source)\<lparr>quantity := Some 1\<rparr>)])"
    using reach_place[OF p il e c(2)] .
qed

section \<open>The search as a whole\<close>

lemma optimizeForRedstone_searched:
  "optimizeForRedstone slots =
     (if list_all (\<lambda>x. x = None) slots then Inr slots
      else (case searchedSlots slots of Inl e \<Rightarrow> Inl e | Inr sl \<Rightarrow> layout sl))"
  by (simp add: optimizeForRedstone_def searchedSlots_def split: sum.splits)

lemma reach_incrementAll:
  assumes wf: "wfSlots base" and r: "reach base slots"
    and lim: "\<forall>i \<in> set idxs. \<forall>x. slots ! i = Some x \<longrightarrow> limitOf x \<le> stack_size x"
    and inv: "\<And>x q. limitOf (x\<lparr>quantity := q\<rparr>) = limitOf x"
  shows "reach base (fst (incrementAll limitOf cs idxs slots))"
proof -
  let ?P = "\<lambda>sl. reach base sl \<and> (\<forall>i \<in> set idxs. \<forall>x. sl ! i = Some x \<longrightarrow> limitOf x \<le> stack_size x)"
  have "?P (fst (incrementAll limitOf cs idxs slots))"
  proof (rule incrementAll_invariant[where P = ?P])
    show "?P slots" using r lim by simp
  next
    fix sl i item q0 q
    assume p: "?P sl" and i: "i \<in> set idxs" "i < length sl" and s: "sl ! i = Some item"
      and q: "quantity item = Some q0" "q0 < q" "q \<le> limitOf item"
    have r: "reach base sl" using p by simp
    have ql: "q \<le> stack_size item" using p i s q by force
    have r': "reach base (setQuantity sl i q)"
      using reach_setQuantity[OF r wf s q(1) _ ql] q by simp
    have "\<forall>j \<in> set idxs. \<forall>x. setQuantity sl i q ! j = Some x \<longrightarrow> limitOf x \<le> stack_size x"
    proof (intro ballI allI impI)
      fix j x assume j: "j \<in> set idxs" and x: "setQuantity sl i q ! j = Some x"
      show "limitOf x \<le> stack_size x"
      proof (cases "j = i")
        case True
        then have "x = item\<lparr>quantity := Some q\<rparr>" using x i s by (simp add: setQuantity_nth_same)
        then show ?thesis using p i s by (auto simp: inv)
      next
        case False
        then show ?thesis using p j x by (simp add: setQuantity_nth_other)
      qed
    qed
    then show "?P (setQuantity sl i q)" using r' by simp
  qed
  then show ?thesis by simp
qed

lemma stackablesFromEnd_limit:
  "\<forall>i \<in> set (stackablesFromEnd n slots). \<forall>x. slots ! i = Some x \<longrightarrow> (\<lambda>_. n) x \<le> stack_size x"
  by (auto simp: stackablesFromEnd_def)

lemma initialSearch_fields [simp]:
  "optimizedSlots (initialSearch slots) = classified slots"
  "currentSignal (initialSearch slots) = calculateSignalStrength (normalizeSlots slots)"
  "hasQA (initialSearch slots) = hasQuantityAdjustments (normalizeSlots slots)"
  "forcedItems (initialSearch slots) = forcedIndices (classified slots)"
  "hasUnstackable (initialSearch slots) = hasStackSize 1 (itemsAt (classified slots) (forcedIndices (classified slots)))"
  "hasSixteen (initialSearch slots) = hasStackSize 16 (itemsAt (classified slots) (forcedIndices (classified slots)))"
  "hasSixtyFour (initialSearch slots) = hasStackSize 64 (itemsAt (classified slots) (forcedIndices (classified slots)))"
  "AreUnstackablesAtThreshold (initialSearch slots) = False"
  "Are16StackablesAtThreshold (initialSearch slots) = False"
  "Are64StackablesAtThreshold (initialSearch slots) = False"
  by (simp_all add: initialSearch_def classified_def Let_def)

lemma runStrategy1_fields [simp]:
  "currentSignal (runStrategy1 st) = currentSignal st"
  "hasQA (runStrategy1 st) = hasQA st"
  "forcedItems (runStrategy1 st) = forcedItems st"
  "hasUnstackable (runStrategy1 st) = hasUnstackable st"
  "hasSixteen (runStrategy1 st) = hasSixteen st"
  "hasSixtyFour (runStrategy1 st) = hasSixtyFour st"
  "Are16StackablesAtThreshold (runStrategy1 st) = Are16StackablesAtThreshold st"
  "Are64StackablesAtThreshold (runStrategy1 st) = Are64StackablesAtThreshold st"
  by (simp_all add: runStrategy1_def split: prod.splits)

lemma runStrategy2_fields [simp]:
  "currentSignal (runStrategy2 st) = currentSignal st"
  "hasQA (runStrategy2 st) = hasQA st"
  "forcedItems (runStrategy2 st) = forcedItems st"
  "hasUnstackable (runStrategy2 st) = hasUnstackable st"
  "hasSixteen (runStrategy2 st) = hasSixteen st"
  "hasSixtyFour (runStrategy2 st) = hasSixtyFour st"
  "AreUnstackablesAtThreshold (runStrategy2 st) = AreUnstackablesAtThreshold st"
  "Are64StackablesAtThreshold (runStrategy2 st) = Are64StackablesAtThreshold st"
  by (simp_all add: runStrategy2_def split: prod.splits)

lemma runStrategy3_fields [simp]:
  "currentSignal (runStrategy3 st) = currentSignal st"
  "hasQA (runStrategy3 st) = hasQA st"
  "forcedItems (runStrategy3 st) = forcedItems st"
  "hasUnstackable (runStrategy3 st) = hasUnstackable st"
  "hasSixteen (runStrategy3 st) = hasSixteen st"
  "hasSixtyFour (runStrategy3 st) = hasSixtyFour st"
  "AreUnstackablesAtThreshold (runStrategy3 st) = AreUnstackablesAtThreshold st"
  "Are16StackablesAtThreshold (runStrategy3 st) = Are16StackablesAtThreshold st"
  by (simp_all add: runStrategy3_def split: prod.splits)

lemma runStrategy1_slots:
  "optimizedSlots (runStrategy1 st) =
     (if hasUnstackable st \<and> \<not> hasQA st
      then fst (strategy1 (itemsAt (optimizedSlots st) (forcedItems st)) (currentSignal st) (optimizedSlots st))
      else optimizedSlots st)"
  by (simp add: runStrategy1_def split: prod.splits)

lemma runStrategy2_slots:
  "optimizedSlots (runStrategy2 st) =
     (if hasSixteen st then fst (strategy2 (currentSignal st) (optimizedSlots st)) else optimizedSlots st)"
  by (simp add: runStrategy2_def split: prod.splits)

lemma runStrategy3_slots:
  "optimizedSlots (runStrategy3 st) =
     (if hasSixtyFour st then fst (strategy3 (currentSignal st) (optimizedSlots st)) else optimizedSlots st)"
  by (simp add: runStrategy3_def split: prod.splits)

lemma keeps_strategy1:
  assumes wf: "wfSlots base" and k: "keeps base cs base"
  shows "keeps base cs (fst (strategy1 (itemsAt base (forcedIndices base)) cs base))"
proof (cases "targetUnstackable (itemsAt base (forcedIndices base))")
  case None
  then show ?thesis using k by (simp add: strategy1_def)
next
  case (Some t)
  then have "t \<in> set (itemsAt base (forcedIndices base))" by (rule targetUnstackable_member)
  then obtain j where "j < length base" "base ! j = Some t"
    using itemsAt_member forcedIndices_member by blast
  then have c: "cloneOf base (unstackableDuplicate t)" using cloneOf_unstackableDuplicate[OF wf] by blast
  have "keeps base cs (fst (fillUnstackables t cs [1..<length base] base))"
    using wf k c by (rule keeps_fillUnstackables) simp
  then show ?thesis using Some by (simp add: strategy1_def)
qed

lemma keeps_strategy2:
  assumes "wfSlots base" "keeps base cs slots"
  shows "keeps base cs (fst (strategy2 cs slots))"
  unfolding strategy2_def using assms
  by (rule keeps_incrementAll) (simp_all add: stackablesFromEnd_limit)

lemma keeps_strategy3:
  assumes "wfSlots base" "keeps base cs slots"
  shows "keeps base cs (fst (strategy3 cs slots))"
  unfolding strategy3_def using assms
  by (rule keeps_incrementAll) (simp_all add: stackablesFromEnd_limit)

lemma keeps_strategy5:
  assumes "wfSlots base" "keeps base cs slots"
  shows "keeps base cs (strategy5 cs slots)"
  unfolding strategy5_def using assms
  by (rule keeps_incrementAll) simp_all

lemma reach_strategy5:
  assumes "wfSlots base" "reach base slots"
  shows "reach base (strategy5 cs slots)"
  unfolding strategy5_def using assms
  by (rule reach_incrementAll) simp_all

text \<open>The state when Strategy 4 is reached.\<close>

lemma keeps_beforeStrategy4:
  assumes w: "wellFormed slots"
  shows "keeps (classified slots) (calculateSignalStrength slots) (optimizedSlots (beforeStrategy4 slots))"
proof -
  let ?b = "classified slots" and ?cs = "calculateSignalStrength slots"
  note f = classified_facts[OF w]
  have cs: "calculateSignalStrength (normalizeSlots slots) = ?cs" by (rule score_normalizeSlots)
  have k0: "keeps ?b ?cs ?b" using f by (simp add: keeps_def reach_refl)
  have k1: "keeps ?b ?cs (optimizedSlots (runStrategy1 (initialSearch slots)))"
    using keeps_strategy1[OF f(3) k0] k0 by (simp add: runStrategy1_slots cs)
  have k2: "keeps ?b ?cs (optimizedSlots (runStrategy2 (runStrategy1 (initialSearch slots))))"
    using keeps_strategy2[OF f(3) k1] k1 by (simp add: runStrategy2_slots cs)
  have k3: "keeps ?b ?cs (optimizedSlots (runStrategy3 (runStrategy2 (runStrategy1 (initialSearch slots)))))"
    using keeps_strategy3[OF f(3) k2] k2 by (simp add: runStrategy3_slots cs)
  then show ?thesis by (simp add: beforeStrategy4_def)
qed

lemma beforeStrategy4_fields [simp]:
  "currentSignal (beforeStrategy4 slots) = calculateSignalStrength slots"
  "hasQA (beforeStrategy4 slots) = hasQuantityAdjustments (normalizeSlots slots)"
  "forcedItems (beforeStrategy4 slots) = forcedIndices (classified slots)"
  "hasUnstackable (beforeStrategy4 slots) = hasStackSize 1 (itemsAt (classified slots) (forcedIndices (classified slots)))"
  "hasSixteen (beforeStrategy4 slots) = hasStackSize 16 (itemsAt (classified slots) (forcedIndices (classified slots)))"
  "hasSixtyFour (beforeStrategy4 slots) = hasStackSize 64 (itemsAt (classified slots) (forcedIndices (classified slots)))"
  by (simp_all add: beforeStrategy4_def score_normalizeSlots)

section \<open>Strategy 4 and the whole search keep the working array reachable\<close>

lemma itemsAt_memberI: "j \<in> set idxs \<Longrightarrow> slots ! j = Some x \<Longrightarrow> x \<in> set (itemsAt slots idxs)"
  by (force simp: itemsAt_def set_nonNull)

lemma hasStackSize_nonempty: "hasStackSize n items \<Longrightarrow> items \<noteq> []"
  by (auto simp: hasStackSize_def)

lemma reach_itemsAt_nonempty:
  assumes r: "reach base slots" and n: "itemsAt base (forcedIndices base) \<noteq> []"
  shows "itemsAt slots (forcedIndices base) \<noteq> []"
proof -
  from n obtain x where "x \<in> set (itemsAt base (forcedIndices base))" by (cases "itemsAt base (forcedIndices base)") auto
  then obtain j where j: "j \<in> set (forcedIndices base)" "base ! j = Some x" using itemsAt_member by blast
  then have jb: "j < length base" by (simp add: forcedIndices_member)
  from r jb obtain y where "slots ! j = Some y" using j by (cases rule: reach_cases) auto
  then have "y \<in> set (itemsAt slots (forcedIndices base))" using j by (intro itemsAt_memberI)
  then show ?thesis by auto
qed

lemma reach_strategy4:
  assumes wf: "wfSlots base" and r: "reach base slots"
    and n: "itemsAt base (forcedIndices base) \<noteq> []"
  shows "\<exists>sl. strategy4 (forcedIndices base) cs slots = Inr sl \<and> reach base sl"
proof (cases "allMaxed slots")
  case False
  then show ?thesis using r by (simp add: strategy4_def)
next
  case True
  have ne: "itemsAt slots (forcedIndices base) \<noteq> []" using reach_itemsAt_nonempty[OF r n] .
  then obtain source where s: "itemToDuplicate (itemsAt slots (forcedIndices base)) = Inr source"
    using itemToDuplicate_error by (cases "itemToDuplicate (itemsAt slots (forcedIndices base))") auto
  then have "source \<in> set (itemsAt slots (forcedIndices base))" by (rule itemToDuplicate_member)
  then obtain j where j: "j \<in> set (forcedIndices base)" "slots ! j = Some source"
    using itemsAt_member by blast
  then have jl: "j < length slots" using r by (simp add: forcedIndices_member reach_def)
  note c = cloneOf_stackDuplicate[OF r wf jl j(2)]
  have "reach base (duplicateStacks source cs [1..<length slots] slots)"
    using r c by (rule reach_duplicateStacks) (use r in \<open>simp add: reach_def\<close>)
  then show ?thesis using True s by (simp add: strategy4_def)
qed

lemma duplicationNeeded_class:
  "duplicationNeeded st \<Longrightarrow> hasUnstackable st \<or> hasSixteen st \<or> hasSixtyFour st"
  by (auto simp: duplicationNeeded_def)

lemma reach_runStrategy4:
  assumes w: "wellFormed slots"
  shows "\<exists>st. runStrategy4 (beforeStrategy4 slots) = Inr st
            \<and> reach (classified slots) (optimizedSlots st)
            \<and> currentSignal st = calculateSignalStrength slots"
proof (cases "duplicationNeeded (beforeStrategy4 slots)")
  case False
  then show ?thesis using keeps_beforeStrategy4[OF w] by (simp add: runStrategy4_def keeps_def)
next
  case True
  note f = classified_facts[OF w]
  have r: "reach (classified slots) (optimizedSlots (beforeStrategy4 slots))"
    using keeps_beforeStrategy4[OF w] by (simp add: keeps_def)
  have "itemsAt (classified slots) (forcedIndices (classified slots)) \<noteq> []"
    using duplicationNeeded_class[OF True] hasStackSize_nonempty by auto
  from reach_strategy4[OF f(3) r this, of "calculateSignalStrength slots"]
  obtain sl where "strategy4 (forcedIndices (classified slots)) (calculateSignalStrength slots)
        (optimizedSlots (beforeStrategy4 slots)) = Inr sl" "reach (classified slots) sl" by blast
  then show ?thesis using True by (simp add: runStrategy4_def)
qed

lemma searched_reach:
  assumes w: "wellFormed slots"
  shows "\<exists>sl. searchedSlots slots = Inr sl \<and> reach (classified slots) sl"
proof -
  from reach_runStrategy4[OF w] obtain st where
    st: "runStrategy4 (beforeStrategy4 slots) = Inr st" "reach (classified slots) (optimizedSlots st)"
    by blast
  have "reach (classified slots) (strategy5 (currentSignal st) (optimizedSlots st))"
    using classified_facts(3)[OF w] st(2) by (rule reach_strategy5)
  then show ?thesis using st(1) by (simp add: searchedSlots_def beforeStrategy4_def)
qed

section \<open>The layout step\<close>

lemma occupied_bound: "slots \<noteq> [] \<Longrightarrow> slots ! 0 = None \<Longrightarrow> length (nonNull slots) \<le> length slots - 1"
  using length_nonNull_le[of "tl slots"] by (cases slots) simp_all

lemma length_finalItems [simp]: "length (finalItems slots) = length (nonNull slots)"
  by (simp add: finalItems_def markAdjusted_def nonNull_map_option)

lemma layout_result:
  assumes "length (nonNull slots) \<le> 53"
  shows "layout slots =
     Inr ([None] @ map Some (filter (\<lambda>item. \<not> forceAdjusted item = Some True) (finalItems slots))
          @ replicate (53 - length (nonNull slots)) None
          @ map Some (sort_key sortKey (filter (\<lambda>item. forceAdjusted item = Some True) (finalItems slots))))"
proof -
  let ?un = "filter (\<lambda>item. \<not> forceAdjusted item = Some True) (finalItems slots)"
  let ?adj = "filter (\<lambda>item. forceAdjusted item = Some True) (finalItems slots)"
  have "length ?adj + length ?un = length (finalItems slots)"
    by (rule sum_length_filter_compl)
  then have l: "int (length ?un) + int (length ?adj) = int (length (nonNull slots))" by simp
  then have "53 - int (length ?un) - int (length ?adj) = int (53 - length (nonNull slots))"
    using assms by simp
  then show ?thesis
    unfolding layout_def Let_def finalItems_def[symmetric] by simp
qed

lemma finalItems_member:
  assumes "y \<in> set (finalItems slots)"
  shows "\<exists>x b b'. Some x \<in> set slots \<and> y = x\<lparr>forceAdjusted := Some b, isAdjusted := Some b'\<rparr>"
proof -
  from assms obtain z where z: "z \<in> set (nonNull (markAdjusted slots))"
    "y = z\<lparr>isAdjusted := Some (forceAdjusted z = Some True)\<rparr>"
    by (auto simp: finalItems_def)
  then have "Some z \<in> set (markAdjusted slots)" by (simp add: set_nonNull)
  then obtain j where j: "j < length slots" "markAdjusted slots ! j = Some z"
    by (auto simp: in_set_conv_nth)
  from markAdjusted_nth_eq[OF j(1)] obtain f where
    "markAdjusted slots ! j = map_option (\<lambda>item. item\<lparr>forceAdjusted := Some (f item)\<rparr>) (slots ! j)" ..
  with j(2) obtain x where "slots ! j = Some x" "z = x\<lparr>forceAdjusted := Some (f x)\<rparr>"
    by (cases "slots ! j") auto
  then have "Some x \<in> set slots" "z = x\<lparr>forceAdjusted := Some (f x)\<rparr>"
    using j(1) by (auto simp: in_set_conv_nth)
  then show ?thesis using z by auto
qed

lemma finalItems_ids: "map item_id (finalItems slots) = map item_id (nonNull slots)"
  by (simp add: finalItems_def markAdjusted_def nonNull_map_option Let_def comp_def)

lemma finalItems_fill: "map fillOf (finalItems slots) = map fillOf (nonNull slots)"
  by (simp add: finalItems_def markAdjusted_def nonNull_map_option Let_def comp_def fillOf_def
        quantityOr1_def stackLimit_def)

lemma layout_items:
  assumes "layout slots = Inr out"
  shows "mset (nonNull out) = mset (finalItems slots)" "length out = 54" "out ! 0 = None"
proof -
  let ?un = "filter (\<lambda>item. \<not> forceAdjusted item = Some True) (finalItems slots)"
  let ?adj = "filter (\<lambda>item. forceAdjusted item = Some True) (finalItems slots)"
  have le: "length (nonNull slots) \<le> 53"
  proof (rule ccontr)
    assume "\<not> length (nonNull slots) \<le> 53"
    moreover have "length ?adj + length ?un = length (finalItems slots)" by (rule sum_length_filter_compl)
    ultimately have "53 - int (length ?un) - int (length ?adj) < 0" by simp
    then show False using assms unfolding layout_def Let_def finalItems_def[symmetric] by simp
  qed
  have out: "out = [None] @ map Some ?un @ replicate (53 - length (nonNull slots)) None
                   @ map Some (sort_key sortKey ?adj)"
    using layout_result[OF le] assms by simp
  have "mset (nonNull out) = mset ?un + mset ?adj" by (simp add: out)
  also have "\<dots> = mset (finalItems slots)" by (simp add: union_commute)
  finally show "mset (nonNull out) = mset (finalItems slots)" .
  have "length ?adj + length ?un = length (nonNull slots)"
    using sum_length_filter_compl[of _ "finalItems slots"] by simp
  then show "length out = 54" using le by (simp add: out)
  show "out ! 0 = None" by (simp add: out)
qed

section \<open>Totality, well-formed output, kept occurrences\<close>

lemma wellFormed_singleUnstackable: "wellFormed singleUnstackable"
  by (simp add: wellFormed_def singleUnstackable_def wellFormedSlot_def testItem_def list_all_iff)

lemma optimize_layout:
  assumes w: "wellFormed slots"
  shows "\<exists>sl out. searchedSlots slots = Inr sl \<and> reach (classified slots) sl \<and> layout sl = Inr out
           \<and> (\<not> list_all (\<lambda>x. x = None) slots \<longrightarrow> optimizeForRedstone slots = Inr out)"
proof -
  from searched_reach[OF w] obtain sl where
    sl: "searchedSlots slots = Inr sl" "reach (classified slots) sl" by blast
  note f = classified_facts[OF w]
  have "length sl = 54" "sl ! 0 = None"
    using sl(2) f reach_head[OF sl(2)] by (simp_all add: reach_def)
  then have "length (nonNull sl) \<le> 53" using occupied_bound[of sl] by force
  then obtain out where "layout sl = Inr out" using layout_result by blast
  then show ?thesis using sl by (auto simp: optimizeForRedstone_searched)
qed

text \<open>
  Claim C9. On every well-formed container \<open>optimizeForRedstone\<close> returns a container and
  raises no error (neither the TypeError of \<open>reduce\<close> on an empty array nor the RangeError
  of an array of negative length; every loop of the model is a terminating recursion); on a
  container without occupied slots it returns its input, whose signal is 0.
\<close>

theorem optimizer_total:
  "wellFormed slots \<Longrightarrow>
     (\<exists>out. optimizeForRedstone slots = Inr out) \<and>
     (list_all (\<lambda>x. x = None) slots \<longrightarrow>
        optimizeForRedstone slots = Inr slots \<and> calculateSignalStrength slots = 0)"
  using optimize_layout[of slots]
  by (cases "list_all (\<lambda>x. x = None) slots")
     (auto simp: optimizeForRedstone_searched score_fillSum)

theorem optimizer_total_witness:
  "wellFormed singleUnstackable \<and> (\<exists>out. optimizeForRedstone singleUnstackable = Inr out)
   \<and> wellFormed (replicate 54 None) \<and> optimizeForRedstone (replicate 54 None) = Inr (replicate 54 None)
   \<and> calculateSignalStrength (replicate 54 None) = 0"
proof -
  have e: "wellFormed (replicate 54 None)" by (simp add: wellFormed_def list_all_iff)
  have a: "list_all (\<lambda>x. x = None) (replicate 54 (None :: Slot option))" by (simp add: list_all_iff)
  show ?thesis
    using optimizer_total[OF wellFormed_singleUnstackable] optimizer_total[OF e] a
      wellFormed_singleUnstackable e by blast
qed

lemma wfItem_flags:
  "wfItem (x\<lparr>forceAdjusted := b, isAdjusted := b'\<rparr>) = wfItem x"
  by (simp add: wfItem_def split: option.splits)

lemma wfItem_wellFormedSlot: "wfItem x \<Longrightarrow> wellFormedSlot x"
  by (auto simp: wfItem_def wellFormedSlot_def split: option.splits)

lemma optimize_wfSlots:
  assumes w: "wellFormed slots" and n: "\<not> list_all (\<lambda>x. x = None) slots"
    and o: "optimizeForRedstone slots = Inr out"
  shows "wfSlots out" "length out = 54" "out ! 0 = None"
proof -
  from optimize_layout[OF w] n o obtain sl where
    sl: "reach (classified slots) sl" "layout sl = Inr out" by auto
  have wf: "wfSlots sl" using reach_wfSlots[OF sl(1) classified_facts(3)[OF w]] .
  show "length out = 54" "out ! 0 = None" using layout_items[OF sl(2)] by simp_all
  show "wfSlots out"
  proof (rule wfSlotsI)
    fix j y assume "j < length out" "out ! j = Some y"
    then have "y \<in> set (nonNull out)" by (auto simp: set_nonNull in_set_conv_nth)
    then have "y \<in> set (finalItems sl)"
      using mset_eq_setD[OF layout_items(1)[OF sl(2)]] by simp
    then obtain x b b' where x: "Some x \<in> set sl" "y = x\<lparr>forceAdjusted := Some b, isAdjusted := Some b'\<rparr>"
      using finalItems_member by blast
    then have "wfItem x" using wf by (auto simp: in_set_conv_nth dest: wfSlots_nth)
    then show "wfItem y" using x by (simp add: wfItem_flags)
  qed
qed

text \<open>
  Claim C5. For every well-formed container the optimizer's result is well-formed: it has
  exactly 54 elements, its element at index 0 is empty, and every occupied slot carries a
  quantity that is at least 1 and at most the item's stack limit.
\<close>

theorem output_well_formed:
  "wellFormed slots \<Longrightarrow>
     \<exists>out. optimizeForRedstone slots = Inr out \<and> wellFormed out \<and> length out = 54 \<and> out ! 0 = None \<and>
       (\<not> list_all (\<lambda>x. x = None) slots \<longrightarrow>
          (\<forall>item. Some item \<in> set out \<longrightarrow>
             (\<exists>q. quantity item = Some q \<and> 1 \<le> q \<and> q \<le> stack_size item)))"
proof (cases "list_all (\<lambda>x. x = None) slots")
  case True
  assume "wellFormed slots"
  then show ?thesis using True by (auto simp: optimizeForRedstone_searched wellFormed_def)
next
  case False
  assume w: "wellFormed slots"
  then obtain out where o: "optimizeForRedstone slots = Inr out" using optimize_layout[OF w] False by blast
  note r = optimize_wfSlots[OF w False o]
  have q: "\<exists>q. quantity item = Some q \<and> 1 \<le> q \<and> q \<le> stack_size item" if "Some item \<in> set out" for item
  proof -
    have "wfItem item" using that r(1) by (auto simp: in_set_conv_nth dest: wfSlots_nth)
    then show ?thesis by (auto simp: wfItem_def split: option.splits)
  qed
  have "wellFormedSlot item" if "Some item \<in> set out" for item
  proof -
    have "wfItem item" using that r(1) by (auto simp: in_set_conv_nth dest: wfSlots_nth)
    then show ?thesis by (rule wfItem_wellFormedSlot)
  qed
  then have "wellFormed out"
    unfolding wellFormed_def list_all_iff
    using r by (auto split: option.splits)
  then show ?thesis using o r q by blast
qed

theorem output_well_formed_witness:
  "wellFormed singleUnstackable \<and>
   (\<exists>out. optimizeForRedstone singleUnstackable = Inr out \<and> wellFormed out \<and> length out = 54
      \<and> out ! 0 = None)"
  using output_well_formed[OF wellFormed_singleUnstackable] wellFormed_singleUnstackable by blast





lemma ids_layout:
  assumes "layout slots = Inr out"
  shows "mset (map item_id (nonNull out)) = mset (map item_id (nonNull slots))"
proof -
  have "mset (map item_id (nonNull out)) = image_mset item_id (mset (nonNull out))" by simp
  also have "\<dots> = image_mset item_id (mset (finalItems slots))"
    using layout_items(1)[OF assms] by simp
  also have "\<dots> = mset (map item_id (finalItems slots))" by simp
  finally show ?thesis by (simp only: finalItems_ids)
qed



section \<open>Arithmetic of the signal at whole fill sums\<close>

lemma signalOf_of_nat: "signalOf (of_nat n) = (14 * int n) div 54 + 1"
  using floor_scaled_int[of "int n" 1] by (simp add: signalOf_def)

lemma div_shift:
  fixes a r m :: int
  assumes "0 \<le> r" "r < m"
  shows "(m * a + r) div m = a"
proof -
  have "m \<noteq> 0" using assms by auto
  then have "(m * a + r) div m = a + r div m" by simp
  then show ?thesis using assms by simp
qed

text \<open>The remainder of \<open>14 n\<close> modulo 54 is even, hence at most 52: a fraction of a stack
  that adds less than 2 to \<open>14 * fill\<close> cannot reach the next multiple of 54.\<close>

lemma remainder_fourteen:
  fixes n :: int
  obtains a b where "14 * n = 54 * a + b" "0 \<le> b" "b \<le> 52" "a = (14 * n) div 54"
proof -
  define a where "a = (14 * n) div 54"
  define b where "b = (14 * n) mod 54"
  have e: "14 * n = 54 * a + b" unfolding a_def b_def by (rule mult_div_mod_eq[symmetric])
  have b0: "0 \<le> b" "b < 54"
    unfolding b_def by (rule pos_mod_sign, simp) (rule pos_mod_bound, simp)
  have "b = 2 * (7 * n - 27 * a)" using e by simp
  then have "even b" by simp
  then have "b \<noteq> 53" by auto
  then have "b \<le> 52" using b0 by simp
  then show ?thesis using that e b0 a_def by blast
qed

lemma signalOf_plus_sixteenth: "signalOf (of_nat n + 1 / 16) = signalOf (of_nat n)"
proof -
  obtain a b where ab: "14 * int n = 54 * a + b" "0 \<le> b" "b \<le> 52" "a = (14 * int n) div 54"
    by (rule remainder_fourteen)
  have "(of_nat n + 1 / 16 :: rat) = of_int (16 * int n + 1) / of_int 16" by simp
  then have "signalOf (of_nat n + 1 / 16) = (14 * (16 * int n + 1)) div (54 * 16) + 1"
    unfolding signalOf_def by (simp only: floor_scaled_int)
  also have "14 * (16 * int n + 1) = 864 * a + (16 * b + 14)" using ab(1) by simp
  also have "(864 * a + (16 * b + 14)) div (54 * 16) = a"
    using div_shift[of "16 * b + 14" 864 a] ab(2,3) by simp
  finally show ?thesis by (simp only: signalOf_of_nat ab(4))
qed

lemma signalOf_plus_sixtyfourth: "signalOf (of_nat n + 1 / 64) = signalOf (of_nat n)"
proof -
  obtain a b where ab: "14 * int n = 54 * a + b" "0 \<le> b" "b \<le> 52" "a = (14 * int n) div 54"
    by (rule remainder_fourteen)
  have "(of_nat n + 1 / 64 :: rat) = of_int (64 * int n + 1) / of_int 64" by simp
  then have "signalOf (of_nat n + 1 / 64) = (14 * (64 * int n + 1)) div (54 * 64) + 1"
    unfolding signalOf_def by (simp only: floor_scaled_int)
  also have "14 * (64 * int n + 1) = 3456 * a + (64 * b + 14)" using ab(1) by simp
  also have "(3456 * a + (64 * b + 14)) div (54 * 64) = a"
    using div_shift[of "64 * b + 14" 3456 a] ab(2,3) by simp
  finally show ?thesis by (simp only: signalOf_of_nat ab(4))
qed

section \<open>Fill sums of full and nearly full containers\<close>

lemma wfSlots_Cons: "wfSlots (s # slots) \<longleftrightarrow> (case s of None \<Rightarrow> True | Some item \<Rightarrow> wfItem item) \<and> wfSlots slots"
  by (simp add: wfSlots_def)

lemma fillSum_Cons: "fillSum (s # slots) = slotFill s + fillSum slots"
  by (simp add: fillSum_def)

lemma occupied_Cons: "occupied (s # slots) = (if s = None then 0 else 1) + occupied slots"
  by (cases s) (simp_all add: occupied_def)

lemma fillSum_le_occupied: "wfSlots slots \<Longrightarrow> fillSum slots \<le> of_nat (occupied slots)"
proof (induction slots)
  case Nil
  then show ?case by (simp add: fillSum_def occupied_def)
next
  case (Cons s slots)
  then have ih: "fillSum slots \<le> of_nat (occupied slots)" by (simp add: wfSlots_Cons)
  show ?case
  proof (cases s)
    case None
    then show ?thesis using ih by (simp add: fillSum_Cons occupied_Cons slotFill_def)
  next
    case (Some x)
    then have "fillOf x \<le> 1" using Cons.prems wfItem_fill(6) by (simp add: wfSlots_Cons)
    then show ?thesis using ih Some by (simp add: fillSum_Cons occupied_Cons slotFill_def)
  qed
qed

lemma fillSum_full:
  "(\<And>x. Some x \<in> set slots \<Longrightarrow> fillOf x = 1) \<Longrightarrow> fillSum slots = of_nat (occupied slots)"
proof (induction slots)
  case Nil
  then show ?case by (simp add: fillSum_def occupied_def)
next
  case (Cons s slots)
  then have ih: "fillSum slots = of_nat (occupied slots)" by simp
  show ?case
  proof (cases s)
    case None
    then show ?thesis using ih by (simp add: fillSum_Cons occupied_Cons slotFill_def)
  next
    case (Some x)
    then have "fillOf x = 1" using Cons.prems by simp
    then show ?thesis using ih Some by (simp add: fillSum_Cons occupied_Cons slotFill_def)
  qed
qed

lemma wfSlots_update_None: "wfSlots slots \<Longrightarrow> wfSlots (slots[j := None])"
proof (rule wfSlotsI)
  fix k item assume w: "wfSlots slots" and k: "k < length (slots[j := None])"
    and s: "slots[j := None] ! k = Some item"
  then have "slots ! k = Some item" by (cases "k = j") simp_all
  then show "wfItem item" using w k wfSlots_nth by simp
qed

lemma fillSum_one_low:
  assumes wf: "wfSlots slots" and j: "j < length slots" and x: "slots ! j = Some x" and f: "fillOf x \<le> e"
  shows "fillSum slots \<le> of_nat (occupied slots) - 1 + e"
proof -
  have "fillSum (slots[j := None]) = fillSum slots - fillOf x"
    using j x by (simp add: fillSum_update slotFill_def)
  moreover have "fillSum (slots[j := None]) \<le> of_nat (occupied (slots[j := None]))"
    using wfSlots_update_None[OF wf] by (rule fillSum_le_occupied)
  moreover have "occupied (slots[j := None]) + 1 = occupied slots"
    using occupied_update[OF j, of None] x by (simp add: occupied_def)
  then have "(of_nat (occupied (slots[j := None])) :: rat) = of_nat (occupied slots) - 1"
    by (metis add_diff_cancel_right' of_nat_1 of_nat_add)
  ultimately show ?thesis using f by simp
qed

lemma occupied_same_shape:
  assumes "length a = length b" "\<And>j. j < length a \<Longrightarrow> (a ! j = None) = (b ! j = None)"
  shows "occupied a = occupied b"
  using assms
proof (induction a b rule: list_induct2)
  case Nil
  then show ?case by simp
next
  case (Cons x xs y ys)
  have "(xs ! j = None) = (ys ! j = None)" if "j < length xs" for j
    using Cons.prems[of "Suc j"] that by simp
  then have "occupied xs = occupied ys" using Cons.IH by blast
  moreover have "(x = None) = (y = None)" using Cons.prems[of 0] by simp
  ultimately show ?case by (simp add: occupied_Cons)
qed

section \<open>What the loops leave untouched, and what their flags mean\<close>

lemma incrementAll_shape:
  "length (fst (incrementAll limitOf cs idxs slots)) = length slots \<and>
   (\<forall>j. (fst (incrementAll limitOf cs idxs slots) ! j = None) = (slots ! j = None))"
proof (rule incrementAll_invariant[where P = "\<lambda>sl::Container. length sl = length slots \<and> (\<forall>j. (sl ! j = None) = (slots ! j = None))"])
  show "length slots = length slots \<and> (\<forall>j. (slots ! j = None) = (slots ! j = None))" by simp
next
  fix sl :: Container and i item q0 q
  assume p: "length sl = length slots \<and> (\<forall>j. (sl ! j = None) = (slots ! j = None))"
    and i: "i < length sl" and s: "sl ! i = Some item"
  have si: "slots ! i \<noteq> None" using p s by (metis option.distinct(1))
  have "(setQuantity sl i q ! j = None) = (slots ! j = None)" for j
    using p i s si by (cases "j = i") (simp_all add: setQuantity_nth_same setQuantity_nth_other)
  then show "length (setQuantity sl i q) = length slots \<and> (\<forall>j. (setQuantity sl i q ! j = None) = (slots ! j = None))"
    using p by simp
qed

lemma fillUnstackables_frame:
  "length (fst (fillUnstackables target cs idxs slots)) = length slots \<and>
   (\<forall>j. slots ! j \<noteq> None \<longrightarrow> fst (fillUnstackables target cs idxs slots) ! j = slots ! j)"
proof (rule fillUnstackables_invariant[where P = "\<lambda>sl::Container. length sl = length slots \<and> (\<forall>j. slots ! j \<noteq> None \<longrightarrow> sl ! j = slots ! j)"])
  show "length slots = length slots \<and> (\<forall>j. slots ! j \<noteq> None \<longrightarrow> slots ! j = slots ! j)" by simp
next
  fix sl :: Container and i
  assume p: "length sl = length slots \<and> (\<forall>j. slots ! j \<noteq> None \<longrightarrow> sl ! j = slots ! j)"
    and e: "sl ! i = None"
  have "sl[i := Some (unstackableDuplicate target)] ! j = slots ! j" if "slots ! j \<noteq> None" for j
    using p e that by (cases "j = i") auto
  then show "length (sl[i := Some (unstackableDuplicate target)]) = length slots \<and>
      (\<forall>j. slots ! j \<noteq> None \<longrightarrow> sl[i := Some (unstackableDuplicate target)] ! j = slots ! j)"
    using p by simp
qed

lemma fillUnstackables_unfold:
  "fillUnstackables target cs (i # idxs) slots =
     (if slots ! i = None then
        if cs < calculateSignalStrength (slots[i := Some (unstackableDuplicate target)])
        then (slots[i := Some (unstackableDuplicate target), i := None], True)
        else fillUnstackables target cs idxs (slots[i := Some (unstackableDuplicate target)])
      else fillUnstackables target cs idxs slots)"
  by (simp only: fillUnstackables.simps Let_def)

lemma place_remove: "slots ! i = None \<Longrightarrow> slots[i := x, i := None] = slots"
  by (cases "i < length slots") (simp_all add: list_update_beyond list_update_same_conv)

text \<open>Strategy 1 stops with its flag set only where one more unit of the duplicate, in some
  empty slot, exceeds the signal.\<close>

lemma fillUnstackables_found:
  assumes "snd (fillUnstackables target cs idxs slots)"
  shows "\<exists>i \<in> set idxs. fst (fillUnstackables target cs idxs slots) ! i = None \<and>
           cs < calculateSignalStrength
                  ((fst (fillUnstackables target cs idxs slots))[i := Some (unstackableDuplicate target)])"
  using assms
proof (induction idxs arbitrary: slots)
  case Nil
  then show ?case by simp
next
  case (Cons i idxs)
  let ?placed = "slots[i := Some (unstackableDuplicate target)]"
  show ?case
  proof (cases "slots ! i = None")
    case False
    then have eq: "fillUnstackables target cs (i # idxs) slots = fillUnstackables target cs idxs slots"
      by (simp only: fillUnstackables_unfold if_False)
    show ?thesis using Cons.IH[of slots] Cons.prems unfolding eq by auto
  next
    case True
    show ?thesis
    proof (cases "cs < calculateSignalStrength ?placed")
      case e: True
      have eq: "fillUnstackables target cs (i # idxs) slots = (slots, True)"
        using True e by (simp only: fillUnstackables_unfold if_True place_remove simp_thms)
      show ?thesis unfolding eq using True e by simp
    next
      case e: False
      have eq: "fillUnstackables target cs (i # idxs) slots = fillUnstackables target cs idxs ?placed"
        using True e by (simp only: fillUnstackables_unfold if_True if_False simp_thms)
      show ?thesis using Cons.IH[of ?placed] Cons.prems unfolding eq by auto
    qed
  qed
qed

text \<open>Without the flag, every slot the loop visited is occupied.\<close>

lemma fillUnstackables_not_found:
  assumes "\<not> snd (fillUnstackables target cs idxs slots)" "\<forall>i \<in> set idxs. i < length slots"
  shows "\<forall>i \<in> set idxs. fst (fillUnstackables target cs idxs slots) ! i \<noteq> None"
  using assms
proof (induction idxs arbitrary: slots)
  case Nil
  then show ?case by simp
next
  case (Cons i idxs)
  let ?placed = "slots[i := Some (unstackableDuplicate target)]"
  have il: "i < length slots" using Cons.prems(2) by simp
  show ?case
  proof (cases "slots ! i = None")
    case False
    then have eq: "fillUnstackables target cs (i # idxs) slots = fillUnstackables target cs idxs slots"
      by (simp only: fillUnstackables_unfold if_False)
    have "fst (fillUnstackables target cs idxs slots) ! i = slots ! i"
      using fillUnstackables_frame[of target cs idxs slots] False by simp
    then show ?thesis using Cons.IH[of slots] Cons.prems False unfolding eq by auto
  next
    case True
    show ?thesis
    proof (cases "cs < calculateSignalStrength ?placed")
      case e: True
      have eq: "fillUnstackables target cs (i # idxs) slots = (slots, True)"
        using True e by (simp only: fillUnstackables_unfold if_True place_remove simp_thms)
      show ?thesis using Cons.prems(1) unfolding eq by simp
    next
      case e: False
      have eq: "fillUnstackables target cs (i # idxs) slots = fillUnstackables target cs idxs ?placed"
        using True e by (simp only: fillUnstackables_unfold if_True if_False simp_thms)
      have "fst (fillUnstackables target cs idxs ?placed) ! i = ?placed ! i"
        using fillUnstackables_frame[of target cs idxs ?placed] il by simp
      then have "fst (fillUnstackables target cs idxs ?placed) ! i \<noteq> None" using il by simp
      then show ?thesis using Cons.IH[of ?placed] Cons.prems unfolding eq by auto
    qed
  qed
qed

lemma duplicateStacks_full:
  "\<forall>i \<in> set idxs. slots ! i \<noteq> None \<Longrightarrow> duplicateStacks source cs idxs slots = slots"
  by (induction idxs arbitrary: slots) auto

section \<open>The duplication mode: no quantity above 1\<close>

lemma classified_fallback:
  assumes w: "wellFormed slots" and nq: "\<not> hasQuantityAdjustments (normalizeSlots slots)"
    and j: "j < length slots" and x: "classified slots ! j = Some x"
  shows "forceAdjusted x = Some True" "quantity x = Some 1"
proof -
  let ?n = "normalizeSlots slots"
  have c: "classified slots = markAll (markAdjusted ?n)"
    using nq by (simp add: classified_def classify_def Let_def)
  from markAdjusted_nth_eq[of j ?n] j obtain f where
    m: "markAdjusted ?n ! j = map_option (\<lambda>item. item\<lparr>forceAdjusted := Some (f item)\<rparr>) (?n ! j)" by auto
  have "classified slots ! j = map_option (\<lambda>item. item\<lparr>forceAdjusted := Some True\<rparr>) (markAdjusted ?n ! j)"
    using j by (simp add: c markAll_nth_eq)
  with x m obtain y where y: "?n ! j = Some y" "x = y\<lparr>forceAdjusted := Some True\<rparr>"
    by (cases "?n ! j") auto
  show "forceAdjusted x = Some True" using y by simp
  have "wfItem y" using wfSlots_nth[OF wfSlots_normalizeSlots[OF w], of j y] j y by simp
  then obtain q where q: "quantity y = Some q" "1 \<le> q" by (auto simp: wfItem_def split: option.splits)
  have "Some y \<in> set ?n" using j y by (metis normalizeSlots_length nth_mem)
  then have "\<not> 1 < q" using nq q by (auto simp: hasQuantityAdjustments_def list_ex_iff)
  then show "quantity x = Some 1" using q y by simp
qed

lemma reach_forced:
  assumes r: "reach base slots"
    and b: "\<And>j x. j < length base \<Longrightarrow> base ! j = Some x \<Longrightarrow> forceAdjusted x = Some True"
    and j: "j < length slots" and x: "slots ! j = Some x"
  shows "forceAdjusted x = Some True"
proof -
  have jb: "j < length base" using r j by (simp add: reach_def)
  from r jb show ?thesis
  proof (cases rule: reach_cases)
    case (original item q0 q)
    then show ?thesis using b[OF jb original(1)] x by auto
  next
    case empty
    then show ?thesis using x by simp
  next
    case (clone y)
    then show ?thesis using x by (auto simp: cloneOf_def)
  qed
qed

lemma allMaxed_full:
  assumes m: "allMaxed slots" and wf: "wfSlots slots"
    and f: "\<And>j x. j < length slots \<Longrightarrow> slots ! j = Some x \<Longrightarrow> forceAdjusted x = Some True"
    and x: "Some x \<in> set slots"
  shows "fillOf x = 1" "quantity x = Some (stack_size x)"
proof -
  from x obtain j where j: "j < length slots" "slots ! j = Some x" by (auto simp: in_set_conv_nth)
  have w: "wfItem x" using wfSlots_nth[OF wf j] .
  have "\<not> quantityLt x (stack_size x)"
    using m x f[OF j] by (auto simp: allMaxed_def list_ex_iff)
  then show q: "quantity x = Some (stack_size x)"
    using w by (auto simp: wfItem_def quantityLt_def split: option.splits)
  have "0 < stack_size x" using w by (auto simp: wfItem_def)
  then show "fillOf x = 1" using w q wfItem_fill(2)[OF w] by (simp add: fillOf_wf)
qed

section \<open>Strategy 4 keeps the signal\<close>

lemma fillOf_stackDuplicate [simp]: "fillOf (stackDuplicate x) = fillOf x"
  by (simp add: stackDuplicate_def fillOf_def quantityOr1_def stackLimit_def)

lemma nonNull_update_Some: "i < length slots \<Longrightarrow> nonNull (slots[i := Some x]) \<noteq> []"
proof -
  assume "i < length slots"
  then have "Some x \<in> set (slots[i := Some x])" by (simp add: set_update_memI)
  then show ?thesis using set_nonNull[of "slots[i := Some x]"] by auto
qed

lemma score_duplicateStacks:
  assumes wf: "wfSlots base" and r: "reach base slots" and s: "calculateSignalStrength slots = cs"
    and full: "\<And>x. Some x \<in> set slots \<Longrightarrow> fillOf x = 1"
    and src: "j < length slots" "slots ! j = Some source" and big: "stack_size source \<noteq> 1"
  shows "calculateSignalStrength (duplicateStacks source cs [1..<length slots] slots) = cs"
proof -
  note c = cloneOf_stackDuplicate[OF r wf src]
  have ws: "wfItem source" using reach_wfItem[OF r wf src] .
  have fs: "fillOf source = 1" using full src by (metis nth_mem)
  have st: "stack_size source = 16 \<or> stack_size source = 64" using ws big by (auto simp: wfItem_def)
  let ?P = "\<lambda>t. reach base t \<and> calculateSignalStrength t = cs \<and> (\<forall>x. Some x \<in> set t \<longrightarrow> fillOf x = 1)
                \<and> nonNull t \<noteq> []"
  show ?thesis
  proof (rule duplicateStacks_invariant[where P = ?P and Q = "\<lambda>t. calculateSignalStrength t = cs"])
    have "Some source \<in> set slots" using src by (metis nth_mem)
    then have "nonNull slots \<noteq> []" using set_nonNull[of slots] by auto
    then show "?P slots" using r s full by simp
  next
    fix t i
    assume p: "?P t" and i: "i \<in> set [1..<length slots]" and e: "t ! i = None"
      and le: "calculateSignalStrength (t[i := Some (stackDuplicate source)]) \<le> cs"
    have il: "0 < i" "i < length t" using i p r by (auto simp: reach_def)
    have r': "reach base (t[i := Some (stackDuplicate source)])"
      using reach_place[OF _ il e c(1)] p by simp
    have wt: "wfSlots t" using reach_wfSlots[of base t] p wf by simp
    have "cs \<le> calculateSignalStrength (t[i := Some (stackDuplicate source)])"
      using score_place_ge[OF wt il(2) e, of "stackDuplicate source"] p c(1)
      by (simp add: cloneOf_def)
    moreover have "fillOf x = 1" if "Some x \<in> set (t[i := Some (stackDuplicate source)])" for x
      using that p fs set_update_subset_insert[of t i "Some (stackDuplicate source)"] by auto
    ultimately show "?P (t[i := Some (stackDuplicate source)])"
      using r' le nonNull_update_Some[OF il(2)] by simp
  next
    fix t i
    assume p: "?P t" and i: "i \<in> set [1..<length slots]" and e: "t ! i = None"
    have il: "0 < i" "i < length t" using i p r by (auto simp: reach_def)
    let ?one = "(stackDuplicate source)\<lparr>quantity := Some 1\<rparr>"
    have f1: "fillOf ?one = 1 / of_int (stack_size source)"
      using fillOf_quantity[of "stackDuplicate source" 1] c(1)
      by (simp add: cloneOf_def stackDuplicate_def)
    have ft: "fillSum t = of_nat (occupied t)" using p by (intro fillSum_full) simp
    have "fillSum (t[i := Some ?one]) = of_nat (occupied t) + 1 / of_int (stack_size source)"
      using fillSum_place[OF il(2) e, of ?one] f1 ft by simp
    then have "signalOf (fillSum (t[i := Some ?one])) = signalOf (of_nat (occupied t))"
      using st signalOf_plus_sixteenth[of "occupied t"] signalOf_plus_sixtyfourth[of "occupied t"] by auto
    moreover have "calculateSignalStrength (t[i := Some ?one]) = signalOf (fillSum (t[i := Some ?one]))"
      using nonNull_update_Some[OF il(2)] by (rule score_signalOf)
    moreover have "calculateSignalStrength t = signalOf (of_nat (occupied t))"
      using p score_signalOf[of t] ft by simp
    ultimately show "calculateSignalStrength (t[i := Some ?one]) = cs" using p by simp
  next
    fix t assume "?P t" then show "calculateSignalStrength t = cs" by simp
  qed
qed

lemma hasStackSize_target: "hasStackSize 1 items \<Longrightarrow> \<exists>t. targetUnstackable items = Some t"
proof -
  assume "hasStackSize 1 items"
  then have "filter (\<lambda>item. stack_size item = 1) items \<noteq> []"
    by (auto simp: hasStackSize_def list_ex_iff filter_empty_conv)
  then show ?thesis by (cases "filter (\<lambda>item. stack_size item = 1) items") (simp_all add: targetUnstackable_def)
qed

lemma hasStackSize_member: "hasStackSize n items \<Longrightarrow> \<exists>x \<in> set items. stack_size x = n"
  by (auto simp: hasStackSize_def list_ex_iff)

lemma fillOf_unstackableDuplicate: "stack_size t = 1 \<Longrightarrow> fillOf (unstackableDuplicate t) = 1"
  by (simp add: unstackableDuplicate_def fillOf_def quantityOr1_def stackLimit_def)

lemma runStrategy1_flag:
  "AreUnstackablesAtThreshold (runStrategy1 st) =
     (if hasUnstackable st \<and> \<not> hasQA st
      then snd (strategy1 (itemsAt (optimizedSlots st) (forcedItems st)) (currentSignal st) (optimizedSlots st))
      else AreUnstackablesAtThreshold st)"
  by (simp add: runStrategy1_def split: prod.splits)

lemma runStrategy23_shape:
  "length (optimizedSlots (runStrategy3 (runStrategy2 st))) = length (optimizedSlots st) \<and>
   (\<forall>k. (optimizedSlots (runStrategy3 (runStrategy2 st)) ! k = None) = (optimizedSlots st ! k = None))"
  using incrementAll_shape[of "\<lambda>_. 16" "currentSignal st" "stackablesFromEnd 16 (optimizedSlots st)" "optimizedSlots st"]
    incrementAll_shape[of "\<lambda>_. 64" "currentSignal st"
      "stackablesFromEnd 64 (optimizedSlots (runStrategy2 st))" "optimizedSlots (runStrategy2 st)"]
  by (simp add: runStrategy2_slots runStrategy3_slots strategy2_def strategy3_def)

text \<open>When Strategy 4 duplicates, the duplicated item is never at the same time unstackable
  and over the threshold: had Strategy 1 found the threshold, a stackable candidate of
  quantity 1 would have left room for it, and the stacks could not all be full.\<close>

lemma score_strategy4_run:
  assumes w: "wellFormed slots"
    and d: "duplicationNeeded (beforeStrategy4 slots)"
    and a: "allMaxed (optimizedSlots (beforeStrategy4 slots))"
    and src: "itemToDuplicate (itemsAt (optimizedSlots (beforeStrategy4 slots))
                (forcedIndices (classified slots))) = Inr source"
  shows "calculateSignalStrength
           (duplicateStacks source (calculateSignalStrength slots)
              [1..<length (optimizedSlots (beforeStrategy4 slots))] (optimizedSlots (beforeStrategy4 slots)))
         = calculateSignalStrength slots"
proof -
  define b where "b = classified slots"
  define cs where "cs = calculateSignalStrength slots"
  define s1 where "s1 = optimizedSlots (runStrategy1 (initialSearch slots))"
  define s3 where "s3 = optimizedSlots (beforeStrategy4 slots)"
  note f = classified_facts[OF w, folded b_def cs_def]
  have csn: "calculateSignalStrength (normalizeSlots slots) = cs" by (simp add: cs_def score_normalizeSlots)
  have nq: "\<not> hasQuantityAdjustments (normalizeSlots slots)" using d by (simp add: duplicationNeeded_def)
  have lb: "length b = length slots" by (simp add: b_def classified_def)
  have k3: "keeps b cs s3" using keeps_beforeStrategy4[OF w] by (simp add: b_def cs_def s3_def)
  then have r3: "reach b s3" and sc3: "calculateSignalStrength s3 = cs" by (simp_all add: keeps_def)
  have wf3: "wfSlots s3" using reach_wfSlots[OF r3 f(3)] .
  have fb: "forceAdjusted x = Some True \<and> quantity x = Some 1" if "j < length b" "b ! j = Some x" for j x
    using classified_fallback[OF w nq, of j x] that by (simp add: b_def lb[unfolded b_def])
  have f3: "forceAdjusted x = Some True" if "j < length s3" "s3 ! j = Some x" for j x
    using reach_forced[OF r3 _ that] fb by blast
  have full3: "fillOf x = 1" if "Some x \<in> set s3" for x
    using allMaxed_full(1)[OF a[folded s3_def] wf3 f3 that] .
  from itemToDuplicate_member[OF src] obtain j where
    j: "j \<in> set (forcedIndices b)" "s3 ! j = Some source"
    using itemsAt_member by (fastforce simp: b_def s3_def)
  have jb: "j < length b" "isForced (b ! j)" using j(1) by (simp_all add: forcedIndices_member)
  have jl: "j < length s3" using jb r3 by (simp add: reach_def)
  have ne3: "nonNull s3 \<noteq> []" using j(2) jl set_nonNull[of s3] by (metis empty_iff empty_set mem_Collect_eq nth_mem)
  show ?thesis
  proof (cases "stack_size source = 1")
    case False
    show ?thesis
      using score_duplicateStacks[OF f(3) r3 sc3 full3 jl j(2) False]
      by (simp add: s3_def cs_def)
  next
    case True
    from r3 jb(1) obtain x0 where x0: "b ! j = Some x0" "stack_size x0 = 1"
      using j(2) jb(2) True by (cases rule: reach_cases) (auto simp: isForced_def)
    have "x0 \<in> set (itemsAt b (forcedIndices b))" using j(1) x0(1) by (rule itemsAt_memberI)
    then have hu: "hasStackSize 1 (itemsAt b (forcedIndices b))"
      using x0(2) by (auto simp: hasStackSize_def list_ex_iff)
    then obtain t where t: "targetUnstackable (itemsAt b (forcedIndices b)) = Some t"
      using hasStackSize_target by blast
    have t1: "stack_size t = 1" using targetUnstackable_member(2)[OF t] .
    let ?run = "fillUnstackables t cs [1..<length b] b"
    have s1: "s1 = fst ?run"
      using hu nq t by (simp add: s1_def runStrategy1_slots strategy1_def b_def csn)
    have flag: "AreUnstackablesAtThreshold (beforeStrategy4 slots) = snd ?run"
      using hu nq t by (simp add: beforeStrategy4_def runStrategy1_flag strategy1_def b_def csn)
    have shape: "length s3 = length s1" "\<And>k. (s3 ! k = None) = (s1 ! k = None)"
      using runStrategy23_shape[of "runStrategy1 (initialSearch slots)"]
      by (simp_all add: s3_def s1_def beforeStrategy4_def)
    have l1: "length s1 = length b" using fillUnstackables_frame[of t cs "[1..<length b]" b] by (simp add: s1)
    show ?thesis
    proof (cases "snd ?run")
      case False
      have "\<forall>i \<in> set [1..<length b]. s1 ! i \<noteq> None"
        unfolding s1 using False by (intro fillUnstackables_not_found) simp_all
      then have "\<forall>i \<in> set [1..<length s3]. s3 ! i \<noteq> None" using shape l1 by simp
      then have "duplicateStacks source cs [1..<length s3] s3 = s3" by (rule duplicateStacks_full)
      then show ?thesis using sc3 by (simp add: s3_def cs_def)
    next
      case True
      from fillUnstackables_found[OF True] obtain i where
        i: "i \<in> set [1..<length b]" "s1 ! i = None"
           "cs < calculateSignalStrength (s1[i := Some (unstackableDuplicate t)])"
        by (auto simp: s1)
      have il: "i < length s1" using i(1) l1 by simp
      have "calculateSignalStrength (s1[i := Some (unstackableDuplicate t)])
            = signalOf (fillSum (s1[i := Some (unstackableDuplicate t)]))"
        using nonNull_update_Some[OF il] by (rule score_signalOf)
      also have "\<dots> = signalOf (fillSum s1 + 1)"
        using fillSum_place[OF il i(2)] fillOf_unstackableDuplicate[OF t1] by simp
      finally have over: "cs < signalOf (fillSum s1 + 1)" using i(3) by simp
      have "hasStackSize 16 (itemsAt b (forcedIndices b)) \<or> hasStackSize 64 (itemsAt b (forcedIndices b))"
        using d True flag by (auto simp: duplicationNeeded_def b_def)
      then obtain x1 where x1: "x1 \<in> set (itemsAt b (forcedIndices b))"
        "stack_size x1 = 16 \<or> stack_size x1 = 64"
        using hasStackSize_member by blast
      then obtain j1 where j1: "j1 < length b" "b ! j1 = Some x1"
        using itemsAt_member forcedIndices_member by blast
      have q1: "quantity x1 = Some 1" using fb[OF j1] by simp
      have w1: "wfItem x1" using wfSlots_nth[OF f(3) j1] .
      have low: "fillOf x1 \<le> 1 / 16"
        using x1(2) q1 w1 wfItem_fill(2)[OF w1] by (auto simp: fillOf_wf)
      have s1j: "s1 ! j1 = Some x1"
        using fillUnstackables_frame[of t cs "[1..<length b]" b] j1 by (simp add: s1)
      have k0: "keeps b cs b" using f by (simp add: keeps_def reach_refl)
      have "keeps b cs (fst (strategy1 (itemsAt b (forcedIndices b)) cs b))"
        using keeps_strategy1[OF f(3) k0] .
      then have "reach b s1" using t by (simp add: keeps_def strategy1_def s1)
      then have wf1: "wfSlots s1" using f(3) by (rule reach_wfSlots)
      have "fillSum s1 \<le> of_nat (occupied s1) - 1 + 1 / 16"
        using fillSum_one_low[OF wf1 _ s1j low] j1 l1 by simp
      moreover have "occupied s1 = occupied s3"
        using occupied_same_shape[of s3 s1] shape by simp
      ultimately have "fillSum s1 + 1 \<le> of_nat (occupied s3) + 1 / 16" by simp
      then have "signalOf (fillSum s1 + 1) \<le> signalOf (of_nat (occupied s3) + 1 / 16)"
        by (rule signalOf_mono)
      also have "\<dots> = signalOf (of_nat (occupied s3))" by (rule signalOf_plus_sixteenth)
      also have "\<dots> = signalOf (fillSum s3)" using fillSum_full[of s3] full3 by simp
      also have "\<dots> = cs" using score_signalOf[OF ne3] sc3 by simp
      finally show ?thesis using over by simp
    qed
  qed
qed

section \<open>The optimizer keeps the signal\<close>

lemma keeps_runStrategy4:
  assumes w: "wellFormed slots"
  shows "\<exists>st. runStrategy4 (beforeStrategy4 slots) = Inr st
            \<and> keeps (classified slots) (calculateSignalStrength slots) (optimizedSlots st)
            \<and> currentSignal st = calculateSignalStrength slots"
proof -
  from reach_runStrategy4[OF w] obtain st where
    st: "runStrategy4 (beforeStrategy4 slots) = Inr st" "reach (classified slots) (optimizedSlots st)"
        "currentSignal st = calculateSignalStrength slots" by blast
  note k3 = keeps_beforeStrategy4[OF w]
  have "calculateSignalStrength (optimizedSlots st) = calculateSignalStrength slots"
  proof (cases "duplicationNeeded (beforeStrategy4 slots)")
    case False
    then show ?thesis using st(1) k3 by (auto simp: runStrategy4_def keeps_def)
  next
    case d: True
    show ?thesis
    proof (cases "allMaxed (optimizedSlots (beforeStrategy4 slots))")
      case False
      then show ?thesis using st(1) d k3 by (auto simp: runStrategy4_def strategy4_def keeps_def)
    next
      case a: True
      from st(1) d a obtain source where
        src: "itemToDuplicate (itemsAt (optimizedSlots (beforeStrategy4 slots))
                (forcedIndices (classified slots))) = Inr source"
        and o: "optimizedSlots st = duplicateStacks source (calculateSignalStrength slots)
              [1..<length (optimizedSlots (beforeStrategy4 slots))] (optimizedSlots (beforeStrategy4 slots))"
        by (auto simp: runStrategy4_def strategy4_def split: sum.splits)
      show ?thesis using score_strategy4_run[OF w d a src] o by simp
    qed
  qed
  then show ?thesis using st by (auto simp: keeps_def)
qed

lemma searched_keeps:
  assumes w: "wellFormed slots"
  shows "\<exists>sl. searchedSlots slots = Inr sl \<and> keeps (classified slots) (calculateSignalStrength slots) sl"
proof -
  from keeps_runStrategy4[OF w] obtain st where
    st: "runStrategy4 (beforeStrategy4 slots) = Inr st"
        "keeps (classified slots) (calculateSignalStrength slots) (optimizedSlots st)"
        "currentSignal st = calculateSignalStrength slots" by blast
  have "keeps (classified slots) (calculateSignalStrength slots)
          (strategy5 (calculateSignalStrength slots) (optimizedSlots st))"
    using classified_facts(3)[OF w] st(2) by (rule keeps_strategy5)
  then show ?thesis using st(1,3) by (simp add: searchedSlots_def beforeStrategy4_def)
qed

lemma score_nonNull:
  "calculateSignalStrength slots =
     (if nonNull slots = [] then 0 else \<lfloor>(14 / 54) * sum_list (map fillOf (nonNull slots)) + 1\<rfloor>)"
  by (simp add: score_fillSum sum_list_nonNull nonNull_empty_iff)

lemma score_layout:
  assumes "layout slots = Inr out"
  shows "calculateSignalStrength out = calculateSignalStrength slots"
proof -
  have m: "mset (nonNull out) = mset (finalItems slots)" using layout_items(1)[OF assms] .
  have "sum_list (map fillOf (nonNull out)) = sum_mset (image_mset fillOf (mset (nonNull out)))"
    by (metis mset_map sum_mset_sum_list)
  also have "\<dots> = sum_mset (image_mset fillOf (mset (finalItems slots)))" by (simp only: m)
  also have "\<dots> = sum_list (map fillOf (finalItems slots))" by (metis mset_map sum_mset_sum_list)
  also have "\<dots> = sum_list (map fillOf (nonNull slots))" by (simp only: finalItems_fill)
  finally have s: "sum_list (map fillOf (nonNull out)) = sum_list (map fillOf (nonNull slots))" .
  have "length (nonNull out) = length (finalItems slots)" using m by (metis size_mset)
  then have "(nonNull out = []) = (nonNull slots = [])"
    using length_0_conv[of "nonNull out"] length_0_conv[of "nonNull slots"] by simp
  then show ?thesis using s by (simp add: score_nonNull)
qed

text \<open>
  Claim C1. For every well-formed container the optimizer returns a container whose signal
  strength equals that of the input.
\<close>

theorem signal_preserved:
  "wellFormed slots \<Longrightarrow>
     \<exists>out. optimizeForRedstone slots = Inr out \<and>
           calculateSignalStrength out = calculateSignalStrength slots"
proof (cases "list_all (\<lambda>x. x = None) slots")
  case True
  then show ?thesis by (simp add: optimizeForRedstone_searched)
next
  case False
  assume w: "wellFormed slots"
  from searched_keeps[OF w] obtain sl where
    sl: "searchedSlots slots = Inr sl" "keeps (classified slots) (calculateSignalStrength slots) sl"
    by blast
  from optimize_layout[OF w] sl(1) False obtain out where
    out: "layout sl = Inr out" "optimizeForRedstone slots = Inr out" by auto
  have "calculateSignalStrength out = calculateSignalStrength sl" using out(1) by (rule score_layout)
  then show ?thesis using sl(2) out(2) by (simp add: keeps_def)
qed

theorem signal_preserved_witness:
  "wellFormed singleUnstackable \<and>
   (\<exists>out. optimizeForRedstone singleUnstackable = Inr out \<and>
      calculateSignalStrength out = calculateSignalStrength singleUnstackable)"
  using signal_preserved[OF wellFormed_singleUnstackable] wellFormed_singleUnstackable by blast

section \<open>The layout by indices\<close>

lemma markAdjusted_exact:
  assumes "j < length slots"
  shows "markAdjusted slots ! j
           = map_option (\<lambda>item. item\<lparr>forceAdjusted := Some (qualifies slots j)\<rparr>) (slots ! j)"
proof (cases "slots ! j")
  case None
  then show ?thesis using assms by (simp add: markAdjusted_def)
next
  case (Some x)
  from markAdjusted_nth_eq[OF assms] obtain f where
    m: "markAdjusted slots ! j = map_option (\<lambda>item. item\<lparr>forceAdjusted := Some (f item)\<rparr>) (slots ! j)" ..
  then have "isForced (markAdjusted slots ! j) = f x" using Some by (simp add: isForced_def)
  then have "f x = qualifies slots j" using markAdjusted_nth[OF assms] by simp
  then show ?thesis using m Some by simp
qed

lemma finalItems_indices: "finalItems slots = nonNull (map (finalAt slots) [0..<length slots])"
proof -
  have "map (\<lambda>item. item\<lparr>isAdjusted := Some (forceAdjusted item = Some True)\<rparr>) (nonNull (markAdjusted slots))
        = nonNull (map (map_option (\<lambda>item. item\<lparr>isAdjusted := Some (forceAdjusted item = Some True)\<rparr>))
                     (markAdjusted slots))"
    by (simp only: nonNull_map_option)
  also have "map (map_option (\<lambda>item. item\<lparr>isAdjusted := Some (forceAdjusted item = Some True)\<rparr>))
                     (markAdjusted slots) = map (finalAt slots) [0..<length slots]"
  proof (rule nth_equalityI)
    show "length (map (map_option (\<lambda>item. item\<lparr>isAdjusted := Some (forceAdjusted item = Some True)\<rparr>))
                     (markAdjusted slots)) = length (map (finalAt slots) [0..<length slots])" by simp
    fix j assume "j < length (map (map_option (\<lambda>item. item\<lparr>isAdjusted := Some (forceAdjusted item = Some True)\<rparr>))
                     (markAdjusted slots))"
    then have j: "j < length slots" by simp
    show "map (map_option (\<lambda>item. item\<lparr>isAdjusted := Some (forceAdjusted item = Some True)\<rparr>))
                     (markAdjusted slots) ! j = map (finalAt slots) [0..<length slots] ! j"
      using j by (cases "slots ! j") (simp_all add: markAdjusted_exact finalAt_def)
  qed
  finally show ?thesis by (simp add: finalItems_def)
qed

lemma filter_nonNull_indices:
  "list_all2 (\<lambda>j x. f j = Some x) (filter (\<lambda>j. case f j of None \<Rightarrow> False | Some x \<Rightarrow> P x) js)
     (filter P (nonNull (map f js)))"
proof (induction js)
  case Nil
  then show ?case by simp
next
  case (Cons j js)
  then show ?case by (cases "f j") simp_all
qed

lemma finalAt_forced:
  "finalAt slots j = Some x \<Longrightarrow> forceAdjusted x = Some (qualifies slots j) \<and> isAdjusted x = Some (qualifies slots j)"
  by (auto simp: finalAt_def)

lemma sorted_upt_filter: "sorted_wrt (<) (filter P [0..<n])"
  by (rule sorted_wrt_filter) simp

lemma sortKey_le: "wfItem a \<Longrightarrow> wfItem b \<Longrightarrow> sortKey a \<le> sortKey b \<longleftrightarrow> sortedBefore a b"
  by (auto simp: sortKey_def sortedBefore_def wfItem_def less_eq_prod_def split: option.splits)

section \<open>What the flags of the increment loops mean\<close>

lemma incrementAll_unfold:
  "incrementAll limitOf cs (i # idxs) slots =
     (case slots ! i of
        None \<Rightarrow> incrementAll limitOf cs idxs slots
      | Some item \<Rightarrow>
          (if snd (whileIncrement (limitOf item) cs i slots)
           then (fst (whileIncrement (limitOf item) cs i slots), True)
           else incrementAll limitOf cs idxs (fst (whileIncrement (limitOf item) cs i slots))))"
  by (auto split: option.splits prod.splits bool.splits)

text \<open>A slot that cannot be incremented is left as it is.\<close>

lemma incrementAll_maxed_frame:
  assumes "slots ! i = Some x" "\<not> quantityLt x (limitOf x)"
  shows "fst (incrementAll limitOf cs idxs slots) ! i = Some x"
proof (rule incrementAll_invariant[where P = "\<lambda>sl::Container. sl ! i = Some x"])
  show "slots ! i = Some x" by fact
next
  fix sl :: Container and j item q0 q
  assume p: "sl ! i = Some x" and j: "j < length sl" "sl ! j = Some item"
    and q: "quantity item = Some q0" "q0 < q" "q \<le> limitOf item"
  have "j \<noteq> i" using p j q assms(2) by (auto simp: quantityLt_def)
  then show "setQuantity sl j q ! i = Some x" using p by (simp add: setQuantity_nth_other)
qed

text \<open>With the flag set, some selected slot is below its limit and one more unit in it
  exceeds the signal.\<close>

lemma incrementAll_found:
  assumes "snd (incrementAll limitOf cs idxs slots)"
    and inv: "\<And>x q. limitOf (x\<lparr>quantity := q\<rparr>) = limitOf x"
  shows "\<exists>i \<in> set idxs. \<exists>x. fst (incrementAll limitOf cs idxs slots) ! i = Some x
           \<and> i < length slots \<and> quantityLt x (limitOf x)
           \<and> cs < calculateSignalStrength
                    (setQuantity (fst (incrementAll limitOf cs idxs slots)) i
                       (quantityAt (fst (incrementAll limitOf cs idxs slots)) i + 1))"
  using assms(1)
proof (induction idxs arbitrary: slots)
  case Nil
  then show ?case by simp
next
  case (Cons i idxs)
  show ?case
  proof (cases "slots ! i")
    case None
    then have eq: "incrementAll limitOf cs (i # idxs) slots = incrementAll limitOf cs idxs slots"
      by (simp add: incrementAll_unfold)
    show ?thesis using Cons.IH[of slots] Cons.prems unfolding eq by auto
  next
    case (Some item)
    let ?w = "whileIncrement (limitOf item) cs i slots"
    show ?thesis
    proof (cases "canIncrement (limitOf item) i slots")
      case False
      then have "?w = (slots, False)" by (rule whileIncrement_stop)
      then have eq: "incrementAll limitOf cs (i # idxs) slots = incrementAll limitOf cs idxs slots"
        using Some by (simp add: incrementAll_unfold)
      show ?thesis using Cons.IH[of slots] Cons.prems unfolding eq by auto
    next
      case True
      then obtain q0 where il: "i < length slots" and q0: "quantity item = Some q0"
        using Some by (auto simp: canIncrement_Some)
      from whileIncrement_result[OF True, of cs]
      obtain q found where r: "?w = (setQuantity slots i q, found)"
        and f: "found \<longrightarrow> q < limitOf item \<and> cs < calculateSignalStrength (setQuantity slots i (q + 1))"
        by auto
      show ?thesis
      proof (cases found)
        case True
        then have eq: "incrementAll limitOf cs (i # idxs) slots = (setQuantity slots i q, True)"
          using Some r by (simp add: incrementAll_unfold)
        have n: "setQuantity slots i q ! i = Some (item\<lparr>quantity := Some q\<rparr>)"
          using il Some by (simp add: setQuantity_nth_same)
        have "quantityLt (item\<lparr>quantity := Some q\<rparr>) (limitOf (item\<lparr>quantity := Some q\<rparr>))"
          using f True by (simp add: inv quantityLt_def)
        moreover have "quantityAt (setQuantity slots i q) i = q"
          using il Some by (simp add: quantityAt_setQuantity)
        ultimately show ?thesis unfolding eq using n f True il by auto
      next
        case False
        then have eq: "incrementAll limitOf cs (i # idxs) slots
                        = incrementAll limitOf cs idxs (setQuantity slots i q)"
          using Some r by (simp add: incrementAll_unfold)
        show ?thesis using Cons.IH[of "setQuantity slots i q"] Cons.prems unfolding eq by auto
      qed
    qed
  qed
qed

text \<open>Without the flag, every selected slot has reached its limit.\<close>

lemma incrementAll_not_found:
  assumes "\<not> snd (incrementAll limitOf cs idxs slots)"
    and inv: "\<And>x q. limitOf (x\<lparr>quantity := q\<rparr>) = limitOf x"
  shows "\<forall>i \<in> set idxs. \<forall>x. fst (incrementAll limitOf cs idxs slots) ! i = Some x
           \<longrightarrow> i < length slots \<longrightarrow> \<not> quantityLt x (limitOf x)"
  using assms(1)
proof (induction idxs arbitrary: slots)
  case Nil
  then show ?case by simp
next
  case (Cons i idxs)
  have sh: "\<And>sl k. (fst (incrementAll limitOf cs idxs sl) ! k = None) = (sl ! k = None)"
    using incrementAll_shape by blast
  show ?case
  proof (cases "slots ! i")
    case None
    then have eq: "incrementAll limitOf cs (i # idxs) slots = incrementAll limitOf cs idxs slots"
      by (simp add: incrementAll_unfold)
    have "fst (incrementAll limitOf cs idxs slots) ! i = None" using None sh by simp
    then show ?thesis using Cons.IH[of slots] Cons.prems unfolding eq by auto
  next
    case (Some item)
    let ?w = "whileIncrement (limitOf item) cs i slots"
    show ?thesis
    proof (cases "canIncrement (limitOf item) i slots")
      case False
      then have "?w = (slots, False)" by (rule whileIncrement_stop)
      then have eq: "incrementAll limitOf cs (i # idxs) slots = incrementAll limitOf cs idxs slots"
        using Some by (simp add: incrementAll_unfold)
      have "i < length slots \<longrightarrow> \<not> quantityLt item (limitOf item)"
        using False Some by (simp add: canIncrement_def)
      then have "i < length slots \<longrightarrow> fst (incrementAll limitOf cs idxs slots) ! i = Some item"
        using incrementAll_maxed_frame[OF Some, of limitOf cs idxs] by simp
      then show ?thesis using Cons.IH[of slots] Cons.prems Some False unfolding eq
        by (auto simp: canIncrement_def)
    next
      case True
      then obtain q0 where il: "i < length slots" and q0: "quantity item = Some q0"
        using Some by (auto simp: canIncrement_Some)
      from whileIncrement_result[OF True, of cs]
      obtain q found where r: "?w = (setQuantity slots i q, found)"
        and nf: "\<not> found \<longrightarrow> q = limitOf item"
        by auto
      have nfound: "\<not> found" using Cons.prems Some r by (auto simp: incrementAll_unfold split: if_splits)
      then have eq: "incrementAll limitOf cs (i # idxs) slots
                        = incrementAll limitOf cs idxs (setQuantity slots i q)"
        using Some r by (simp add: incrementAll_unfold)
      let ?x = "item\<lparr>quantity := Some q\<rparr>"
      have n: "setQuantity slots i q ! i = Some ?x"
        using il Some by (simp add: setQuantity_nth_same)
      have "\<not> quantityLt ?x (limitOf ?x)" using nf nfound by (simp add: inv quantityLt_def)
      then have "fst (incrementAll limitOf cs idxs (setQuantity slots i q)) ! i = Some ?x"
        using incrementAll_maxed_frame[OF n, of limitOf cs idxs] by simp
      then show ?thesis
        using Cons.IH[of "setQuantity slots i q"] Cons.prems nf nfound unfolding eq
        by (auto simp: inv quantityLt_def)
    qed
  qed
qed

section \<open>Fill sums only grow; what Strategy 4 returns\<close>

lemma fill_mono_incrementAll:
  assumes wf: "wfSlots base" and r: "reach base slots"
    and lim: "\<forall>i \<in> set idxs. \<forall>x. slots ! i = Some x \<longrightarrow> limitOf x \<le> stack_size x"
    and inv: "\<And>x q. limitOf (x\<lparr>quantity := q\<rparr>) = limitOf x"
  shows "fillSum slots \<le> fillSum (fst (incrementAll limitOf cs idxs slots))"
proof -
  let ?P = "\<lambda>sl. reach base sl \<and> (\<forall>i \<in> set idxs. \<forall>x. sl ! i = Some x \<longrightarrow> limitOf x \<le> stack_size x)
                 \<and> fillSum slots \<le> fillSum sl"
  have "?P (fst (incrementAll limitOf cs idxs slots))"
  proof (rule incrementAll_invariant[where P = ?P])
    show "?P slots" using r lim by simp
  next
    fix sl i item q0 q
    assume p: "?P sl" and i: "i \<in> set idxs" "i < length sl" and s: "sl ! i = Some item"
      and q: "quantity item = Some q0" "q0 < q" "q \<le> limitOf item"
    have r: "reach base sl" using p by simp
    have ql: "q \<le> stack_size item" using p i s q by force
    have r': "reach base (setQuantity sl i q)"
      using reach_setQuantity[OF r wf s q(1) _ ql] q by simp
    have wi: "wfItem item" using reach_wfItem[OF r wf i(2) s] .
    then have "1 \<le> q" "0 < stack_size item" using q by (auto simp: wfItem_def)
    then have "fillSum sl \<le> fillSum (setQuantity sl i q)"
      using q by (simp add: fillSum_setQuantity[OF i(2) s wi q(1)])
    moreover have "\<forall>j \<in> set idxs. \<forall>x. setQuantity sl i q ! j = Some x \<longrightarrow> limitOf x \<le> stack_size x"
    proof (intro ballI allI impI)
      fix j x assume j: "j \<in> set idxs" and x: "setQuantity sl i q ! j = Some x"
      show "limitOf x \<le> stack_size x"
      proof (cases "j = i")
        case True
        then have "x = item\<lparr>quantity := Some q\<rparr>" using x i s by (simp add: setQuantity_nth_same)
        then show ?thesis using p i s by (auto simp: inv)
      next
        case False
        then show ?thesis using p j x by (simp add: setQuantity_nth_other)
      qed
    qed
    ultimately show "?P (setQuantity sl i q)" using r' p by simp
  qed
  then show ?thesis by simp
qed

lemma fill_mono_strategy5:
  "wfSlots base \<Longrightarrow> reach base slots \<Longrightarrow> fillSum slots \<le> fillSum (strategy5 cs slots)"
  unfolding strategy5_def by (rule fill_mono_incrementAll) simp_all

lemma filledWith_refl: "filledWith d slots slots"
  by (simp add: filledWith_def)

lemma filledWith_place:
  assumes "filledWith d slots t" "t ! i = None"
  shows "filledWith d slots (t[i := Some d])"
  unfolding filledWith_def
proof (intro conjI allI impI)
  show "length (t[i := Some d]) = length slots" using assms by (simp add: filledWith_def)
  fix j assume j: "j < length slots"
  then have c: "t ! j = slots ! j \<or> (slots ! j = None \<and> t ! j = Some d)"
    using assms by (simp add: filledWith_def)
  show "t[i := Some d] ! j = slots ! j \<or> (slots ! j = None \<and> t[i := Some d] ! j = Some d)"
  proof (cases "j = i")
    case True
    then have "slots ! j = None" using c assms(2) by auto
    moreover have "t[i := Some d] ! j = Some d" using True j assms by (simp add: filledWith_def)
    ultimately show ?thesis by simp
  next
    case False
    then show ?thesis using c by simp
  qed
qed

lemma duplicateStacks_unfold:
  "duplicateStacks source cs (i # idxs) slots =
     (if slots ! i = None then
        if cs < calculateSignalStrength (slots[i := Some (stackDuplicate source)])
        then slots[i := Some ((stackDuplicate source)\<lparr>quantity := Some 1\<rparr>)]
        else duplicateStacks source cs idxs (slots[i := Some (stackDuplicate source)])
      else duplicateStacks source cs idxs slots)"
  by (simp add: Let_def)

text \<open>Strategy 4 either stops at the first duplicate that exceeds the signal, committing it
  at quantity 1, or fills every slot it visits with full duplicates.\<close>

lemma duplicateStacks_cases:
  assumes "\<forall>i \<in> set idxs. i < length slots" "\<not> cs < calculateSignalStrength slots"
  shows "(\<exists>t i. i \<in> set idxs \<and> filledWith (stackDuplicate source) slots t \<and> t ! i = None
             \<and> \<not> cs < calculateSignalStrength t
             \<and> cs < calculateSignalStrength (t[i := Some (stackDuplicate source)])
             \<and> duplicateStacks source cs idxs slots = t[i := Some ((stackDuplicate source)\<lparr>quantity := Some 1\<rparr>)])
         \<or> (filledWith (stackDuplicate source) slots (duplicateStacks source cs idxs slots)
             \<and> (\<forall>i \<in> set idxs. duplicateStacks source cs idxs slots ! i \<noteq> None))"
  (is "?stop idxs slots \<or> ?fill idxs slots")
  using assms
proof (induction idxs arbitrary: slots)
  case Nil
  then show ?case by (simp add: filledWith_refl)
next
  case (Cons i idxs)
  let ?d = "stackDuplicate source"
  let ?placed = "slots[i := Some ?d]"
  have il: "i < length slots" using Cons.prems by simp
  show ?case
  proof (cases "slots ! i = None")
    case False
    then have eq: "duplicateStacks source cs (i # idxs) slots = duplicateStacks source cs idxs slots"
      by (simp only: duplicateStacks_unfold if_False)
    from Cons.IH[of slots] Cons.prems consider "?stop idxs slots" | "?fill idxs slots" by auto
    then show ?thesis
    proof cases
      case 1
      then show ?thesis unfolding eq by auto
    next
      case 2
      then have "duplicateStacks source cs idxs slots ! i \<noteq> None"
        using False il by (auto simp: filledWith_def)
      then show ?thesis using 2 unfolding eq by auto
    qed
  next
    case True
    show ?thesis
    proof (cases "cs < calculateSignalStrength ?placed")
      case e: True
      have eq: "duplicateStacks source cs (i # idxs) slots = slots[i := Some (?d\<lparr>quantity := Some 1\<rparr>)]"
        using True e by (simp only: duplicateStacks_unfold if_True simp_thms)
      have "?stop (i # idxs) slots"
        unfolding eq using True e Cons.prems(2) filledWith_refl[of ?d slots]
        by (intro exI[of _ slots] exI[of _ i]) simp
      then show ?thesis by blast
    next
      case e: False
      have eq: "duplicateStacks source cs (i # idxs) slots = duplicateStacks source cs idxs ?placed"
        using True e by (simp only: duplicateStacks_unfold if_True if_False simp_thms)
      have tr: "filledWith ?d slots t" if "filledWith ?d ?placed t" for t
        using that True il unfolding filledWith_def
        by (auto simp: nth_list_update split: if_splits)
      from Cons.IH[of ?placed] Cons.prems e consider "?stop idxs ?placed" | "?fill idxs ?placed" by auto
      then show ?thesis
      proof cases
        case 1
        then show ?thesis unfolding eq using tr by auto
      next
        case 2
        then have "duplicateStacks source cs idxs ?placed ! i \<noteq> None"
          using il by (auto simp: filledWith_def)
        then show ?thesis using 2 tr unfolding eq by auto
      qed
    qed
  qed
qed

lemma reach_uniform:
  assumes r: "reach base slots" and u: "\<And>x. Some x \<in> set base \<Longrightarrow> stack_size x = s"
    and x: "Some x \<in> set slots"
  shows "stack_size x = s"
proof -
  from x obtain j where "j < length slots" "slots ! j = Some x" by (auto simp: in_set_conv_nth)
  from reach_hasId[OF r this] u show ?thesis by auto
qed

section \<open>Containers of one stack class\<close>

lemma runStrategy4_cases:
  assumes "runStrategy4 st = Inr st'"
  shows "currentSignal st' = currentSignal st"
    and "\<not> duplicationNeeded st \<or> \<not> allMaxed (optimizedSlots st) \<Longrightarrow> optimizedSlots st' = optimizedSlots st"
    and "duplicationNeeded st \<Longrightarrow> allMaxed (optimizedSlots st) \<Longrightarrow>
           \<exists>source. itemToDuplicate (itemsAt (optimizedSlots st) (forcedItems st)) = Inr source \<and>
             optimizedSlots st' = duplicateStacks source (currentSignal st)
                 [1..<length (optimizedSlots st)] (optimizedSlots st)"
  using assms by (auto simp: runStrategy4_def strategy4_def split: if_splits sum.splits)

lemma searched_cases:
  assumes "searchedSlots slots = Inr sl"
  obtains st where "runStrategy4 (beforeStrategy4 slots) = Inr st"
    "sl = strategy5 (currentSignal st) (optimizedSlots st)"
  using assms by (auto simp: searchedSlots_def beforeStrategy4_def split: sum.splits)

lemma length_nonNull_all: "\<forall>x \<in> set xs. x \<noteq> None \<Longrightarrow> length (nonNull xs) = length xs"
  by (induction xs rule: nonNull.induct) simp_all

lemma occupied_full_container:
  assumes "length slots = 54" "slots ! 0 = None" "\<forall>i \<in> set [1..<54]. slots ! i \<noteq> None"
  shows "occupied slots = 53"
proof -
  obtain xs where xs: "slots = None # xs" "length xs = 53"
    using assms(1,2) by (cases slots) auto
  have "\<forall>x \<in> set xs. x \<noteq> None"
  proof
    fix x assume "x \<in> set xs"
    then obtain k where "k < length xs" "xs ! k = x" by (auto simp: in_set_conv_nth)
    then show "x \<noteq> None" using assms(3) xs by (auto dest!: bspec[of _ _ "Suc k"])
  qed
  then show ?thesis using xs by (simp add: occupied_def length_nonNull_all)
qed

lemma fillSum_le_each:
  assumes "\<And>x. Some x \<in> set slots \<Longrightarrow> fillOf x \<le> e"
  shows "fillSum slots \<le> of_nat (occupied slots) * e"
  using assms
proof (induction slots)
  case Nil
  then show ?case by (simp add: fillSum_def occupied_def)
next
  case (Cons a slots)
  then have ih: "fillSum slots \<le> of_nat (occupied slots) * e" by simp
  show ?case
  proof (cases a)
    case None
    then show ?thesis using ih by (simp add: fillSum_Cons occupied_Cons slotFill_def)
  next
    case (Some x)
    then have "fillOf x \<le> e" using Cons.prems by simp
    then show ?thesis using ih Some by (simp add: fillSum_Cons occupied_Cons slotFill_def algebra_simps)
  qed
qed

lemma signalOf_step: "0 \<le> e \<Longrightarrow> e \<le> 1 \<Longrightarrow> signalOf (x + e) \<le> signalOf x + 1"
proof -
  assume e: "0 \<le> e" "e \<le> 1"
  have "(14 / 54) * (x + e) + 1 \<le> ((14 / 54) * x + 1) + 1" using e by (simp add: algebra_simps)
  then have "signalOf (x + e) \<le> \<lfloor>((14 / 54) * x + 1) + 1\<rfloor>" unfolding signalOf_def by (rule floor_mono)
  also have "\<dots> = signalOf x + 1" unfolding signalOf_def by simp
  finally show ?thesis .
qed

lemma oneClass_facts:
  assumes w: "wellFormed slots" and o: "oneClass s slots"
  shows "\<not> hasQuantityAdjustments (normalizeSlots slots)"
    and "\<And>x. Some x \<in> set (classified slots) \<Longrightarrow> stack_size x = s"
proof -
  have n: "stack_size y = s \<and> quantity y = Some 1" if "j < length slots" "normalizeSlots slots ! j = Some y" for j y
  proof -
    from that obtain item where i: "slots ! j = Some item" "y = normalizeSlot j item"
      by (auto simp: normalizeSlots_nth)
    then have "stack_size item = s \<and> (quantity item = None \<or> quantity item = Some 1)"
      using o that(1) by (auto simp: oneClass_def list_all_length split: option.splits)
    then show ?thesis using i by (auto simp: normalizeSlot_def quantityOr1_def)
  qed
  show "\<not> hasQuantityAdjustments (normalizeSlots slots)"
    using n by (auto simp: hasQuantityAdjustments_def list_ex_iff in_set_conv_nth split: option.splits)
  fix x assume "Some x \<in> set (classified slots)"
  then obtain j where j: "j < length slots" "classified slots ! j = Some x"
    by (auto simp: in_set_conv_nth classified_def)
  from classify_nth[of j "normalizeSlots slots"] j obtain b where
    "classified slots ! j = map_option (\<lambda>item. item\<lparr>forceAdjusted := Some b\<rparr>) (normalizeSlots slots ! j)"
    by (auto simp: classified_def)
  then obtain y where "normalizeSlots slots ! j = Some y" "x = y\<lparr>forceAdjusted := Some b\<rparr>"
    using j(2) by (cases "normalizeSlots slots ! j") auto
  then show "stack_size x = s" using n[OF j(1)] by simp
qed

lemma oneClass_has:
  assumes w: "wellFormed slots" and o: "oneClass s slots" and ne: "\<not> list_all (\<lambda>x. x = None) slots"
  shows "hasStackSize n (itemsAt (classified slots) (forcedIndices (classified slots))) \<longleftrightarrow> n = s"
proof
  assume "hasStackSize n (itemsAt (classified slots) (forcedIndices (classified slots)))"
  then obtain x where "x \<in> set (itemsAt (classified slots) (forcedIndices (classified slots)))" "stack_size x = n"
    using hasStackSize_member by blast
  then show "n = s" using oneClass_facts(2)[OF w o, of x] itemsAt_member[of x] by (metis forcedIndices_member nth_mem)
next
  assume n: "n = s"
  from ne obtain j where j: "j < length slots" "slots ! j \<noteq> None"
    by (auto simp: list_all_None_nth)
  have "(classified slots ! j = None) = (slots ! j = None)"
    using classify_nth[of j "normalizeSlots slots"] j(1) by (auto simp: classified_def normalizeSlots_nth)
  then obtain x where x: "classified slots ! j = Some x" using j by auto
  have jl: "j < length (classified slots)" using j by (simp add: classified_def)
  have "forceAdjusted x = Some True"
    using classified_fallback(1)[OF w oneClass_facts(1)[OF w o] j(1) x] .
  then have "j \<in> set (forcedIndices (classified slots))"
    using x jl by (simp add: forcedIndices_member isForced_def)
  then have "x \<in> set (itemsAt (classified slots) (forcedIndices (classified slots)))"
    using x by (rule itemsAt_memberI)
  moreover have "stack_size x = s" using oneClass_facts(2)[OF w o, of x] x jl by (metis nth_mem)
  ultimately show "hasStackSize n (itemsAt (classified slots) (forcedIndices (classified slots)))"
    using n by (auto simp: hasStackSize_def list_ex_iff)
qed

lemma runStrategy1_skip: "\<not> (hasUnstackable st \<and> \<not> hasQA st) \<Longrightarrow> runStrategy1 st = st"
  by (auto simp: runStrategy1_def)

lemma runStrategy2_skip: "\<not> hasSixteen st \<Longrightarrow> runStrategy2 st = st"
  by (simp add: runStrategy2_def)

lemma runStrategy3_skip: "\<not> hasSixtyFour st \<Longrightarrow> runStrategy3 st = st"
  by (simp add: runStrategy3_def)

lemma runStrategy2_flag:
  "Are16StackablesAtThreshold (runStrategy2 st) =
     (if hasSixteen st then snd (strategy2 (currentSignal st) (optimizedSlots st))
      else Are16StackablesAtThreshold st)"
  by (simp add: runStrategy2_def split: prod.splits)

lemma runStrategy3_flag:
  "Are64StackablesAtThreshold (runStrategy3 st) =
     (if hasSixtyFour st then snd (strategy3 (currentSignal st) (optimizedSlots st))
      else Are64StackablesAtThreshold st)"
  by (simp add: runStrategy3_def split: prod.splits)

lemma fillOf_unstackable: "wfItem x \<Longrightarrow> stack_size x = 1 \<Longrightarrow> fillOf x = 1"
  using wfItem_fill(3,4)[of x] by (simp add: fillOf_wf)

lemma signalOf_53: "signalOf 53 = 14" "signalOf 54 = 15"
  using floor_scaled_int[of 53 1] floor_scaled_int[of 54 1] by (simp_all add: signalOf_def)

text \<open>After the search on a container of unstackables of quantity 1, one more unstackable
  raises the signal.\<close>

lemma tight_unstackable:
  assumes w: "wellFormed slots" and o: "oneClass 1 slots"
    and ne: "\<not> list_all (\<lambda>x. x = None) slots" and sl: "searchedSlots slots = Inr sl"
  shows "calculateSignalStrength slots < signalOf (fillSum sl + 1)"
proof -
  define b where "b = classified slots"
  define cs where "cs = calculateSignalStrength slots"
  note f = classified_facts[OF w, folded b_def cs_def]
  note has = oneClass_has[OF w o ne, folded b_def]
  have nq: "\<not> hasQuantityAdjustments (normalizeSlots slots)" using oneClass_facts(1)[OF w o] .
  have csn: "calculateSignalStrength (normalizeSlots slots) = cs" by (simp add: cs_def score_normalizeSlots)
  have hu: "hasStackSize 1 (itemsAt b (forcedIndices b))" by (simp add: has)
  then obtain t where t: "targetUnstackable (itemsAt b (forcedIndices b)) = Some t"
    using hasStackSize_target by blast
  have t1: "stack_size t = 1" using targetUnstackable_member(2)[OF t] .
  let ?run = "fillUnstackables t cs [1..<length b] b"
  define st1 where "st1 = runStrategy1 (initialSearch slots)"
  have s1: "optimizedSlots st1 = fst ?run"
    using hu nq t by (simp add: st1_def runStrategy1_slots strategy1_def b_def csn)
  have flag: "AreUnstackablesAtThreshold st1 = snd ?run"
    using hu nq t by (simp add: st1_def runStrategy1_flag strategy1_def b_def csn)
  have fields: "hasQA st1 = False" "hasUnstackable st1 = True" "hasSixteen st1 = False"
    "hasSixtyFour st1 = False" "currentSignal st1 = cs" "forcedItems st1 = forcedIndices b"
    using nq by (simp_all add: st1_def has[unfolded b_def] csn b_def)
  have b4: "beforeStrategy4 slots = st1"
    using fields by (simp add: beforeStrategy4_def st1_def[symmetric] runStrategy2_skip runStrategy3_skip)
  have k1: "keeps b cs (optimizedSlots st1)"
    using keeps_beforeStrategy4[OF w] by (simp add: b4 b_def cs_def)
  then have r1: "reach b (optimizedSlots st1)" by (simp add: keeps_def)
  from sl obtain st4 where st4: "runStrategy4 st1 = Inr st4"
    "sl = strategy5 (currentSignal st4) (optimizedSlots st4)"
    by (rule searched_cases) (simp add: b4)
  have c4: "currentSignal st4 = cs" using runStrategy4_cases(1)[OF st4(1)] fields by simp
  have l1: "length (optimizedSlots st1) = length b" using r1 by (simp add: reach_def)
  show ?thesis
  proof (cases "snd ?run")
    case True
    then have "\<not> duplicationNeeded st1" using fields flag by (simp add: duplicationNeeded_def)
    then have s4: "optimizedSlots st4 = optimizedSlots st1" using runStrategy4_cases(2)[OF st4(1)] by simp
    from fillUnstackables_found[OF True] obtain i where
      i: "i \<in> set [1..<length b]" "optimizedSlots st1 ! i = None"
         "cs < calculateSignalStrength ((optimizedSlots st1)[i := Some (unstackableDuplicate t)])"
      by (auto simp: s1)
    have il: "i < length (optimizedSlots st1)" using i(1) l1 by simp
    have "calculateSignalStrength ((optimizedSlots st1)[i := Some (unstackableDuplicate t)])
          = signalOf (fillSum ((optimizedSlots st1)[i := Some (unstackableDuplicate t)]))"
      using nonNull_update_Some[OF il] by (rule score_signalOf)
    also have "\<dots> = signalOf (fillSum (optimizedSlots st1) + 1)"
      using fillSum_place[OF il i(2)] fillOf_unstackableDuplicate[OF t1] by simp
    finally have "cs < signalOf (fillSum (optimizedSlots st1) + 1)" using i(3) by simp
    moreover have "fillSum (optimizedSlots st1) \<le> fillSum sl"
      unfolding st4(2) s4 using f(3) r1 by (rule fill_mono_strategy5)
    then have "signalOf (fillSum (optimizedSlots st1) + 1) \<le> signalOf (fillSum sl + 1)"
      by (intro signalOf_mono) simp
    ultimately show ?thesis by (simp add: cs_def)
  next
    case False
    have full1: "\<forall>i \<in> set [1..<length b]. optimizedSlots st1 ! i \<noteq> None"
      unfolding s1 using False by (intro fillUnstackables_not_found) simp_all
    have s4: "optimizedSlots st4 = optimizedSlots st1"
    proof (cases "duplicationNeeded st1 \<and> allMaxed (optimizedSlots st1)")
      case True
      then obtain source where "optimizedSlots st4 = duplicateStacks source (currentSignal st1)
                 [1..<length (optimizedSlots st1)] (optimizedSlots st1)"
        using runStrategy4_cases(3)[OF st4(1)] by blast
      then show ?thesis using duplicateStacks_full[of "[1..<length (optimizedSlots st1)]" "optimizedSlots st1"]
          full1 l1 by simp
    next
      case False
      then show ?thesis using runStrategy4_cases(2)[OF st4(1)] by blast
    qed
    have k5: "keeps b cs sl" unfolding st4(2) s4 c4 using f(3) k1 by (rule keeps_strategy5)
    then have r5: "reach b sl" and sc5: "calculateSignalStrength sl = cs" by (simp_all add: keeps_def)
    have shape: "length sl = length (optimizedSlots st1)"
      "\<And>k. (sl ! k = None) = (optimizedSlots st1 ! k = None)"
      using incrementAll_shape[of stack_size cs "belowLimitFromEnd (optimizedSlots st1)" "optimizedSlots st1"]
      by (simp_all add: st4(2) s4 c4 strategy5_def)
    have "occupied sl = 53"
      using shape full1 l1 f(1) reach_head[OF r5 f(5) f(2)]
      by (intro occupied_full_container) simp_all
    moreover have "fillOf x = 1" if "Some x \<in> set sl" for x
    proof -
      have "stack_size x = 1" using reach_uniform[OF r5 _ that] oneClass_facts(2)[OF w o] by (simp add: b_def)
      moreover have "wfItem x" using that reach_wfSlots[OF r5 f(3)] by (auto simp: in_set_conv_nth dest: wfSlots_nth)
      ultimately show ?thesis by (rule fillOf_unstackable[rotated])
    qed
    then have "fillSum sl = of_nat (occupied sl)" by (rule fillSum_full)
    ultimately have fs: "fillSum sl = of_nat 53" by simp
    have "nonNull sl \<noteq> []" using \<open>occupied sl = 53\<close> by (auto simp: occupied_def)
    then have "cs = signalOf 53" using score_signalOf[of sl] sc5 fs by simp
    then show ?thesis using signalOf_53 fs by (simp add: cs_def)
  qed
qed

lemma stackable_before4:
  assumes w: "wellFormed slots" and o: "oneClass s slots"
    and ne: "\<not> list_all (\<lambda>x. x = None) slots" and s: "s = 16 \<or> s = 64"
  shows "optimizedSlots (beforeStrategy4 slots)
           = fst (incrementAll (\<lambda>_. s) (calculateSignalStrength slots)
                    (stackablesFromEnd s (classified slots)) (classified slots))"
    and "duplicationNeeded (beforeStrategy4 slots)
           = (\<not> snd (incrementAll (\<lambda>_. s) (calculateSignalStrength slots)
                    (stackablesFromEnd s (classified slots)) (classified slots)))"
proof -
  note has = oneClass_has[OF w o ne]
  have nq: "\<not> hasQuantityAdjustments (normalizeSlots slots)" using oneClass_facts(1)[OF w o] .
  have csn: "calculateSignalStrength (normalizeSlots slots) = calculateSignalStrength slots"
    by (rule score_normalizeSlots)
  have r1: "runStrategy1 (initialSearch slots) = initialSearch slots"
    using s by (intro runStrategy1_skip) (auto simp: has)
  from s show "optimizedSlots (beforeStrategy4 slots)
           = fst (incrementAll (\<lambda>_. s) (calculateSignalStrength slots)
                    (stackablesFromEnd s (classified slots)) (classified slots))"
  proof
    assume "s = 16"
    then show ?thesis
      by (simp add: beforeStrategy4_def r1 runStrategy3_slots runStrategy2_slots has strategy2_def csn)
  next
    assume "s = 64"
    then show ?thesis
      by (simp add: beforeStrategy4_def r1 runStrategy3_slots runStrategy2_skip has strategy3_def csn)
  qed
  from s show "duplicationNeeded (beforeStrategy4 slots)
           = (\<not> snd (incrementAll (\<lambda>_. s) (calculateSignalStrength slots)
                    (stackablesFromEnd s (classified slots)) (classified slots)))"
  proof
    assume "s = 16"
    then show ?thesis
      using nq by (simp add: duplicationNeeded_def has beforeStrategy4_def r1 runStrategy2_flag
            strategy2_def csn)
  next
    assume "s = 64"
    then show ?thesis
      using nq by (simp add: duplicationNeeded_def has beforeStrategy4_def r1 runStrategy2_skip
            runStrategy3_flag strategy3_def csn)
  qed
qed

lemma signalOf_low: "signalOf (53 / 16) = 1"
  using floor_scaled_int[of 53 16] by (simp add: signalOf_def)

lemma score_increment:
  assumes wf: "wfSlots slots" and i: "i < length slots" and x: "slots ! i = Some x"
    and q: "quantityLt x limit"
  shows "calculateSignalStrength (setQuantity slots i (quantityAt slots i + 1))
           = signalOf (fillSum slots + 1 / of_int (stack_size x))"
proof -
  from q obtain q0 where q0: "quantity x = Some q0" by (auto simp: quantityLt_def split: option.splits)
  have wx: "wfItem x" using wfSlots_nth[OF wf i x] .
  then have "1 \<le> q0 + 1" using q0 by (auto simp: wfItem_def)
  then have "fillSum (setQuantity slots i (q0 + 1)) = fillSum slots + 1 / of_int (stack_size x)"
    using fillSum_setQuantity[OF i x wx q0, of "q0 + 1"] by simp
  moreover have "quantityAt slots i = q0" using x q0 by (simp add: quantityAt_def)
  moreover have "setQuantity slots i (q0 + 1) ! i \<noteq> None" using i x by (simp add: setQuantity_nth_same)
  then have "calculateSignalStrength (setQuantity slots i (q0 + 1))
             = signalOf (fillSum (setQuantity slots i (q0 + 1)))"
    using score_signalOf_nth[of i "setQuantity slots i (q0 + 1)"] i by simp
  ultimately show ?thesis by simp
qed

lemma fillOf_full: "wfItem x \<Longrightarrow> \<not> quantityLt x (stack_size x) \<Longrightarrow> fillOf x = 1"
proof -
  assume w: "wfItem x" and n: "\<not> quantityLt x (stack_size x)"
  then have "quantityOr1 x = stack_size x" "0 < stack_size x"
    using wfItem_fill(2,4)[OF w] by (auto simp: quantityLt_def wfItem_def split: option.splits)
  then show ?thesis by (simp add: fillOf_wf[OF w])
qed

section \<open>The layout of the result\<close>

lemma nth_Some_mem: "j < length slots \<Longrightarrow> slots ! j = Some x \<Longrightarrow> Some x \<in> set slots"
  using nth_mem[of j slots] by simp

lemma classified_nth:
  assumes "j < length slots"
  shows "\<exists>b. classified slots ! j
            = map_option (\<lambda>item. (normalizeSlot j item)\<lparr>forceAdjusted := Some b\<rparr>) (slots ! j)"
proof -
  from classify_nth[of j "normalizeSlots slots"] assms obtain b where
    "classified slots ! j = map_option (\<lambda>item. item\<lparr>forceAdjusted := Some b\<rparr>) (normalizeSlots slots ! j)"
    by (auto simp: classified_def)
  then have "classified slots ! j
            = map_option (\<lambda>item. (normalizeSlot j item)\<lparr>forceAdjusted := Some b\<rparr>) (slots ! j)"
    using assms by (cases "slots ! j") (simp_all add: normalizeSlots_nth)
  then show ?thesis ..
qed

lemma classified_length [simp]: "length (classified slots) = length slots"
  by (simp add: classified_def)

lemma reach_holdsInput:
  assumes r: "reach (classified slots) sl" and j: "j < length slots"
  shows "holdsInput slots sl j"
proof -
  let ?b = "classified slots"
  have jb: "j < length ?b" using j by simp
  from classified_nth[OF j] obtain b where
    b: "?b ! j = map_option (\<lambda>item. (normalizeSlot j item)\<lparr>forceAdjusted := Some b\<rparr>) (slots ! j)" ..
  from r jb show ?thesis
  proof (cases rule: reach_cases)
    case (original x0 q0 q)
    from original(1) b obtain item where item: "slots ! j = Some item"
      "x0 = (normalizeSlot j item)\<lparr>forceAdjusted := Some b\<rparr>"
      by (cases "slots ! j") auto
    have "quantity x0 = Some (quantityOr1 item)" "stack_size x0 = stack_size item"
      using item(2) by (simp_all add: normalizeSlot_def)
    then have "quantityOr1 item \<le> q" "q \<le> stack_size item" using original(2,3,4) by auto
    moreover have "sl ! j = Some ((normalizeSlot j item)\<lparr>forceAdjusted := Some b, quantity := Some q\<rparr>)"
      using original(5) item(2) by simp
    ultimately show ?thesis using item(1) by (auto simp: holdsInput_def)
  next
    case empty
    then have "slots ! j = None" using b by (cases "slots ! j") simp_all
    then show ?thesis using empty by (simp add: holdsInput_def)
  next
    case (clone x)
    then have e: "slots ! j = None" using b by (cases "slots ! j") simp_all
    from clone(4) obtain y where y: "Some y \<in> set ?b" "item_id y = item_id x" "stack_size y = stack_size x"
      by (auto simp: cloneOf_def hasId_iff)
    then obtain k where k: "k < length slots" "?b ! k = Some y" by (auto simp: in_set_conv_nth)
    from classified_nth[OF k(1)] k(2) obtain item c where
      item: "slots ! k = Some item" "y = (normalizeSlot k item)\<lparr>forceAdjusted := Some c\<rparr>"
      by (cases "slots ! k") auto
    have "Some item \<in> set slots" using k(1) item(1) by (rule nth_Some_mem)
    moreover have "item_id item = item_id x" "stack_size item = stack_size x"
      using y item(2) by (simp_all add: normalizeSlot_def)
    ultimately have "list_ex (\<lambda>s. case s of None \<Rightarrow> False
                           | Some item \<Rightarrow> item_id item = item_id x \<and> stack_size item = stack_size x) slots"
      by (auto simp: hasId_iff)
    moreover have "originalIndex x = Some (- 1)" using clone(4) by (simp add: cloneOf_def)
    ultimately show ?thesis using e clone(3) by (simp add: holdsInput_def)
  qed
qed

lemma searched_empty:
  assumes w: "wellFormed slots" and e: "list_all (\<lambda>x. x = None) slots"
    and r: "reach (classified slots) sl"
  shows "sl = slots"
proof (rule nth_equalityI)
  show "length sl = length slots" using r by (simp add: reach_def)
  fix j assume "j < length sl"
  then have j: "j < length slots" using r by (simp add: reach_def)
  then have n: "slots ! j = None" using e by (simp add: list_all_length)
  have "holdsInput slots sl j" using r j by (rule reach_holdsInput)
  then show "sl ! j = slots ! j"
    using n e by (auto simp: holdsInput_def list_ex_iff list_all_iff split: option.splits)
qed

text \<open>A clone shares its identifier with the item it was made from, so it qualifies as
  adjusted, unless the dictionary of counts fails under that identifier.\<close>

lemma clone_qualifies:
  assumes r: "reach base slots" and j: "j < length base" and e: "base ! j = None"
    and x: "slots ! j = Some x" and nk: "\<not> inheritedKey (item_id x)"
  shows "qualifies slots j"
proof -
  from r j have "cloneOf base x" using e x by (cases rule: reach_cases) auto
  then obtain item where "Some item \<in> set base" "item_id item = item_id x"
    by (auto simp: cloneOf_def hasId_iff)
  then obtain k where k: "k < length base" "base ! k = Some item" by (auto simp: in_set_conv_nth)
  from r k(1) obtain q where "slots ! k = Some (item\<lparr>quantity := Some q\<rparr>)"
    using k(2) by (cases rule: reach_cases) auto
  moreover have "k \<noteq> j" using k e by auto
  moreover have "k < length slots" using k r by (simp add: reach_def)
  ultimately have "\<exists>k < length slots. k \<noteq> j \<and> (case slots ! k of None \<Rightarrow> False
                     | Some other \<Rightarrow> item_id other = item_id x)"
    using \<open>item_id item = item_id x\<close> by (intro exI[of _ k]) simp
  then show ?thesis using x nk by (simp add: qualifies_def list_ex_upt)
qed

lemma sorted_adjusted:
  assumes "\<And>x. x \<in> set xs \<Longrightarrow> wfItem x"
  shows "sorted_wrt sortedBefore (sort_key sortKey xs)"
proof -
  have "sorted_wrt (\<lambda>a b. sortKey a \<le> sortKey b) (sort_key sortKey xs)"
    using sorted_sort_key[of sortKey xs] by (simp add: sorted_map)
  then show ?thesis
    by (rule sorted_wrt_mono_rel[rotated]) (use assms sortKey_le in auto)
qed

text \<open>
  Claim C6. The optimizer's result is laid out from the working array that the five
  strategies leave: the reserved empty slot, then the unadjusted items, then empty padding,
  then the adjusted group, 53 usable slots in all. The two groups are the occupied slots of
  the working array, each with both flags set by the rule (quantity above 1, or several
  slots with its identifier): the unadjusted items are the slots that do not qualify, in the
  order of their indices, and the adjusted group is the slots that qualify, sorted by stack
  size and then by quantity. The working array holds every input item at its input index,
  so the input items appear in their input order; a clone qualifies as adjusted, unless its
  identifier is the name of a member of \<open>Object.prototype\<close>.
\<close>

theorem result_layout:
  "wellFormed slots \<Longrightarrow>
     \<exists>working unadjusted adjusted.
        searchedSlots slots = Inr working
      \<and> length working = 54
      \<and> (\<forall>j < 54. holdsInput slots working j)
      \<and> (\<forall>j < 54. \<forall>x. slots ! j = None \<longrightarrow> working ! j = Some x \<longrightarrow>
             \<not> inheritedKey (item_id x) \<longrightarrow> qualifies working j)
      \<and> unadjusted = filter (\<lambda>x. forceAdjusted x \<noteq> Some True)
                        (nonNull (map (finalAt working) [0..<length working]))
      \<and> adjusted = sort_key sortKey (filter (\<lambda>x. forceAdjusted x = Some True)
                        (nonNull (map (finalAt working) [0..<length working])))
      \<and> sorted_wrt sortedBefore adjusted
      \<and> length unadjusted + length adjusted \<le> 53
      \<and> optimizeForRedstone slots
          = Inr ([None] @ map Some unadjusted
                 @ replicate (53 - length unadjusted - length adjusted) None
                 @ map Some adjusted)"
proof -
  assume w: "wellFormed slots"
  from optimize_layout[OF w] obtain sl out where
    sl: "searchedSlots slots = Inr sl" "reach (classified slots) sl" "layout sl = Inr out"
      "\<not> list_all (\<lambda>x. x = None) slots \<longrightarrow> optimizeForRedstone slots = Inr out"
    by auto
  note f = classified_facts[OF w]
  have wf: "wfSlots sl" using reach_wfSlots[OF sl(2) f(3)] .
  have len: "length sl = 54" "sl ! 0 = None" using sl(2) f reach_head[OF sl(2)] by (simp_all add: reach_def)
  then have occ: "length (nonNull sl) \<le> 53" using occupied_bound[of sl] by force
  let ?items = "nonNull (map (finalAt sl) [0..<length sl])"
  let ?un = "filter (\<lambda>x. forceAdjusted x \<noteq> Some True) ?items"
  let ?adj = "filter (\<lambda>x. forceAdjusted x = Some True) ?items"
  have li: "length ?adj + length ?un = length (nonNull sl)"
    using sum_length_filter_compl[of "\<lambda>x. forceAdjusted x = Some True" ?items]
    by (simp add: finalItems_indices[symmetric])
  then have pad: "53 - length ?un - length (sort_key sortKey ?adj) = 53 - length (nonNull sl)"
    by simp
  have out: "out = [None] @ map Some ?un @ replicate (53 - length ?un - length (sort_key sortKey ?adj)) None
                    @ map Some (sort_key sortKey ?adj)"
    using layout_result[OF occ] sl(3) unfolding pad finalItems_indices by simp
  have o: "optimizeForRedstone slots = Inr out"
  proof (cases "list_all (\<lambda>x. x = None) slots")
    case True
    have e: "sl = slots" using w True sl(2) by (rule searched_empty)
    have "layout slots = Inr slots"
    proof -
      have n: "nonNull slots = []" using True by (simp add: nonNull_empty_iff)
      then have "length (finalItems slots) = 0" by simp
      then have "finalItems slots = []" by (simp only: length_0_conv)
      then have "layout slots = Inr ([None] @ replicate 53 None)"
        using layout_result[of slots] n by simp
      moreover have "slots = replicate 54 None"
        using True w by (intro replicate_eqI) (auto simp: wellFormed_def list_all_iff)
      moreover have "replicate 54 None = [None] @ replicate 53 (None :: Slot option)"
        using replicate_Suc[of 53 "None :: Slot option"] by simp
      ultimately show ?thesis by simp
    qed
    then have "out = slots" using sl(3) e by simp
    then show ?thesis using True by (simp add: optimizeForRedstone_searched)
  next
    case False
    then show ?thesis using sl(4) by simp
  qed
  have wfin: "wfItem x" if "x \<in> set ?adj" for x
  proof -
    from that have "x \<in> set (finalItems sl)" by (simp add: finalItems_indices)
    from finalItems_member[OF this] obtain y b b' where
      "Some y \<in> set sl" "x = y\<lparr>forceAdjusted := Some b, isAdjusted := Some b'\<rparr>" by blast
    then show ?thesis using wf by (auto simp: in_set_conv_nth wfItem_flags dest: wfSlots_nth)
  qed
  have c4: "sorted_wrt sortedBefore (sort_key sortKey ?adj)" using wfin by (rule sorted_adjusted)
  have c5: "length ?un + length (sort_key sortKey ?adj) \<le> 53" using li occ by simp
  have c6: "\<forall>j < 54. holdsInput slots sl j"
    using reach_holdsInput[OF sl(2)] w by (simp add: wellFormed_def)
  have c7: "\<forall>j < 54. \<forall>x. slots ! j = None \<longrightarrow> sl ! j = Some x \<longrightarrow>
             \<not> inheritedKey (item_id x) \<longrightarrow> qualifies sl j"
  proof (intro allI impI)
    fix j x assume j: "j < 54" and e: "slots ! j = None" and x: "sl ! j = Some x"
      and nk: "\<not> inheritedKey (item_id x)"
    have js: "j < length slots" using j w by (simp add: wellFormed_def)
    from classified_nth[OF js] e have "classified slots ! j = None" by auto
    then show "qualifies sl j" using clone_qualifies[OF sl(2) _ _ x nk] js by simp
  qed
  show ?thesis
    using sl(1) len(1) c6 c7 c4 c5 o[unfolded out] by blast
qed

theorem result_layout_witness:
  "wellFormed singleUnstackable \<and>
   (\<exists>working unadjusted adjusted.
        searchedSlots singleUnstackable = Inr working
      \<and> holdsInput singleUnstackable working 1
      \<and> unadjusted = filter (\<lambda>x. forceAdjusted x \<noteq> Some True)
                        (nonNull (map (finalAt working) [0..<length working]))
      \<and> adjusted = sort_key sortKey (filter (\<lambda>x. forceAdjusted x = Some True)
                        (nonNull (map (finalAt working) [0..<length working])))
      \<and> sorted_wrt sortedBefore adjusted
      \<and> optimizeForRedstone singleUnstackable
          = Inr ([None] @ map Some unadjusted
                 @ replicate (53 - length unadjusted - length adjusted) None
                 @ map Some adjusted))"
proof -
  from result_layout[OF wellFormed_singleUnstackable] obtain working unadjusted adjusted where
    r: "searchedSlots singleUnstackable = Inr working"
      "\<forall>j < 54. holdsInput singleUnstackable working j"
      "unadjusted = filter (\<lambda>x. forceAdjusted x \<noteq> Some True)
                        (nonNull (map (finalAt working) [0..<length working]))"
      "adjusted = sort_key sortKey (filter (\<lambda>x. forceAdjusted x = Some True)
                        (nonNull (map (finalAt working) [0..<length working])))"
      "sorted_wrt sortedBefore adjusted"
      "optimizeForRedstone singleUnstackable
          = Inr ([None] @ map Some unadjusted
                 @ replicate (53 - length unadjusted - length adjusted) None
                 @ map Some adjusted)"
    by blast
  have "holdsInput singleUnstackable working 1" using r(2) by simp
  then show ?thesis using r wellFormed_singleUnstackable by blast
qed

section \<open>The threshold is tight for containers of one stack class\<close>

lemma items_wf: "wfSlots slots \<Longrightarrow> Some x \<in> set slots \<Longrightarrow> wfItem x"
  by (auto simp: in_set_conv_nth dest: wfSlots_nth)

lemma score_low:
  assumes ne: "nonNull b \<noteq> []" and len: "length b = 54" and h: "b ! 0 = None"
    and small: "\<And>x. Some x \<in> set b \<Longrightarrow> fillOf x \<le> 1 / 16"
  shows "calculateSignalStrength b \<le> 1"
proof -
  have "b \<noteq> []" using len by auto
  then have "occupied b \<le> 53" using occupied_bound[of b] len h by (simp add: occupied_def)
  then have "(of_nat (occupied b) :: rat) \<le> 53" by simp
  then have "fillSum b \<le> 53 / 16" using fillSum_le_each[of b "1 / 16"] small by simp
  then have "signalOf (fillSum b) \<le> signalOf (53 / 16)" by (rule signalOf_mono)
  then show ?thesis using score_signalOf[OF ne] signalOf_low by simp
qed

lemma tight_stackable:
  assumes w: "wellFormed slots" and o: "oneClass s slots"
    and ne: "\<not> list_all (\<lambda>x. x = None) slots" and s: "s = 16 \<or> s = 64"
    and sl: "searchedSlots slots = Inr sl"
  shows "calculateSignalStrength slots < signalOf (fillSum sl + 1 / of_int s)"
proof -
  define b where "b = classified slots"
  define cs where "cs = calculateSignalStrength slots"
  note f = classified_facts[OF w, folded b_def cs_def]
  note has = oneClass_has[OF w o ne, folded b_def]
  note uni = oneClass_facts(2)[OF w o, folded b_def]
  have nq: "\<not> hasQuantityAdjustments (normalizeSlots slots)" using oneClass_facts(1)[OF w o] .
  define idxs where "idxs = stackablesFromEnd s b"
  let ?run = "incrementAll (\<lambda>_. s) cs idxs b"
  define s3 where "s3 = fst ?run"
  have b3: "optimizedSlots (beforeStrategy4 slots) = s3"
    using stackable_before4(1)[OF w o ne s] by (simp add: s3_def idxs_def b_def cs_def)
  have dn: "duplicationNeeded (beforeStrategy4 slots) = (\<not> snd ?run)"
    using stackable_before4(2)[OF w o ne s] by (simp add: idxs_def b_def cs_def)
  have k3: "keeps b cs s3" using keeps_beforeStrategy4[OF w] by (simp add: b3 b_def cs_def)
  then have r3: "reach b s3" and sc3: "calculateSignalStrength s3 = cs" by (simp_all add: keeps_def)
  have wf3: "wfSlots s3" using reach_wfSlots[OF r3 f(3)] .
  have l3: "length s3 = 54" using r3 f(1) by (simp add: reach_def)
  from sl obtain st4 where st4: "runStrategy4 (beforeStrategy4 slots) = Inr st4"
    "sl = strategy5 (currentSignal st4) (optimizedSlots st4)"
    by (rule searched_cases)
  have c4: "currentSignal st4 = cs" using runStrategy4_cases(1)[OF st4(1)] by (simp add: cs_def)
  obtain st where kst: "runStrategy4 (beforeStrategy4 slots) = Inr st"
     "keeps (classified slots) (calculateSignalStrength slots) (optimizedSlots st)"
    using keeps_runStrategy4[OF w] by blast
  then have k4: "keeps b cs (optimizedSlots st4)" using st4(1) by (simp add: b_def cs_def)
  then have r4: "reach b (optimizedSlots st4)" by (simp add: keeps_def)
  have wf4: "wfSlots (optimizedSlots st4)" using reach_wfSlots[OF r4 f(3)] .
  have l4: "length (optimizedSlots st4) = 54" using r4 f(1) by (simp add: reach_def)
  have k5: "keeps b cs sl" unfolding st4(2) c4 using f(3) k4 by (rule keeps_strategy5)
  then have r5: "reach b sl" and sc5: "calculateSignalStrength sl = cs" by (simp_all add: keeps_def)
  have wf5: "wfSlots sl" using reach_wfSlots[OF r5 f(3)] .
  have sp: "0 < s" using s by auto
  show ?thesis
  proof (cases "snd ?run")
    case True
    then have "\<not> duplicationNeeded (beforeStrategy4 slots)" using dn by simp
    then have s4: "optimizedSlots st4 = s3" using runStrategy4_cases(2)[OF st4(1)] b3 by simp
    from incrementAll_found[OF True] obtain i x where
      i: "s3 ! i = Some x" "i < length b" "quantityLt x s"
         "cs < calculateSignalStrength (setQuantity s3 i (quantityAt s3 i + 1))"
      by (auto simp: s3_def)
    have il: "i < length s3" using i(2) l3 f(1) by simp
    have "Some x \<in> set s3" using il i(1) by (rule nth_Some_mem)
    then have sx: "stack_size x = s" using reach_uniform[OF r3 uni] by simp
    have "cs < signalOf (fillSum s3 + 1 / of_int s)"
      using i(4) score_increment[OF wf3 il i(1) i(3)] sx by simp
    moreover have "fillSum s3 \<le> fillSum sl"
      unfolding st4(2) s4 using f(3) r3 by (rule fill_mono_strategy5)
    then have "signalOf (fillSum s3 + 1 / of_int s) \<le> signalOf (fillSum sl + 1 / of_int s)"
      by (intro signalOf_mono) simp
    ultimately show ?thesis by (simp add: cs_def)
  next
    case False
    have shape3: "length s3 = length b" "\<And>j. (s3 ! j = None) = (b ! j = None)"
      using incrementAll_shape[of "\<lambda>_. s" cs idxs b] by (simp_all add: s3_def)
    have nf: "\<forall>i \<in> set idxs. \<forall>x. s3 ! i = Some x \<longrightarrow> i < length b \<longrightarrow> \<not> quantityLt x s"
      unfolding s3_def using False by (intro incrementAll_not_found) simp_all
    have forced3: "forceAdjusted x = Some True" if "j < length s3" "s3 ! j = Some x" for j x
    proof (rule reach_forced[OF r3 _ that])
      fix k y assume "k < length b" "b ! k = Some y"
      then show "forceAdjusted y = Some True"
        using classified_fallback(1)[OF w nq, of k y] f(1) w by (simp add: b_def wellFormed_def)
    qed
    have full3: "\<not> quantityLt x (stack_size x)" if x: "Some x \<in> set s3" for x
    proof -
      from x obtain j where j: "j < length s3" "s3 ! j = Some x" by (auto simp: in_set_conv_nth)
      have sx: "stack_size x = s" using reach_uniform[OF r3 uni x] .
      have "b ! j \<noteq> None" using shape3(2)[of j] j by simp
      then obtain y where y: "b ! j = Some y" by auto
      have j0: "0 < j" using f(2) y by (cases j) simp_all
      have "j < length b" using j shape3 by simp
      then have "Some y \<in> set b" using y by (rule nth_Some_mem)
      then have sy: "stack_size y = s" using uni by simp
      have fy: "forceAdjusted y = Some True"
        using classified_fallback(1)[OF w nq, of j y] y j shape3 f(1) w by (simp add: b_def wellFormed_def)
      have "j \<in> set idxs" using j j0 shape3 y sy fy by (simp add: idxs_def stackablesFromEnd_def)
      then show ?thesis using nf j shape3 sx by auto
    qed
    have am: "allMaxed s3"
      unfolding allMaxed_def list_ex_iff
    proof (intro notI, elim bexE)
      fix y assume y: "y \<in> set s3"
        and c: "case y of None \<Rightarrow> False | Some item \<Rightarrow> forceAdjusted item = Some True \<and> quantityLt item (stack_size item)"
      from c obtain x where "y = Some x" "quantityLt x (stack_size x)" by (cases y) auto
      then show False using full3[of x] y by simp
    qed
    have "duplicationNeeded (beforeStrategy4 slots)" using dn False by simp
    then obtain source where src: "itemToDuplicate (itemsAt s3 (forcedIndices b)) = Inr source"
        and s4: "optimizedSlots st4 = duplicateStacks source cs [1..<length s3] s3"
      using runStrategy4_cases(3)[OF st4(1)] am by (auto simp: b3 b_def cs_def)
    from itemsAt_member[OF itemToDuplicate_member[OF src]] obtain j where
      j: "s3 ! j = Some source" and jf: "j \<in> set (forcedIndices b)" by auto
    have jl: "j < length s3" using jf shape3 by (simp add: forcedIndices_member)
    have ms: "Some source \<in> set s3" using jl j by (rule nth_Some_mem)
    have ss: "stack_size source = s" using reach_uniform[OF r3 uni ms] .
    have ws: "wfItem source" using items_wf[OF wf3 ms] .
    define d where "d = stackDuplicate source"
    have fd: "fillOf d = 1" using fillOf_full[OF ws full3[OF ms]] by (simp add: d_def)
    have sd: "stack_size d = s" "forceAdjusted d = Some True" using ss by (simp_all add: d_def stackDuplicate_def)
    have fullT: "fillOf x = 1 \<and> \<not> quantityLt x (stack_size x)"
      if ft: "filledWith d s3 t" and wt: "wfSlots t" and x: "Some x \<in> set t" for t x
    proof -
      from x obtain k where k: "k < length t" "t ! k = Some x" by (auto simp: in_set_conv_nth)
      then have "s3 ! k = Some x \<or> x = d" using ft by (auto simp: filledWith_def)
      then show ?thesis
      proof
        assume "s3 ! k = Some x"
        moreover have "k < length s3" using k ft by (simp add: filledWith_def)
        ultimately have "Some x \<in> set s3" by (rule nth_Some_mem[rotated])
        then show ?thesis using full3 fillOf_full items_wf[OF wf3] by simp
      next
        assume xd: "x = d"
        have "\<not> quantityLt d (stack_size d)"
          using full3[OF ms] by (simp add: d_def stackDuplicate_def quantityLt_def stackLimit_def)
        then show ?thesis using fd xd by simp
      qed
    qed
    have low: "cs \<le> 1"
    proof -
      have "fillOf x \<le> 1 / 16" if x: "Some x \<in> set b" for x
      proof -
        from x obtain k where k: "k < length b" "b ! k = Some x" by (auto simp: in_set_conv_nth)
        have q: "quantity x = Some 1"
          using classified_fallback(2)[OF w nq, of k x] k f(1) w by (simp add: b_def wellFormed_def)
        have "wfItem x" using items_wf[OF f(3) x] .
        then have "fillOf x = 1 / of_int s" using q uni[OF x] by (simp add: fillOf_wf quantityOr1_def)
        then show ?thesis using s by auto
      qed
      moreover have "nonNull b \<noteq> []"
      proof -
        have "b ! j \<noteq> None" using shape3(2)[of j] j by simp
        then obtain y where "b ! j = Some y" by auto
        moreover have "j < length b" using jl shape3 by simp
        ultimately have "Some y \<in> set b" by (rule nth_Some_mem[rotated])
        then show ?thesis using set_nonNull[of b] by auto
      qed
      ultimately show ?thesis using score_low[OF _ f(1) f(2)] f(4) by simp
    qed
    have pre: "\<forall>i \<in> set [1..<length s3]. i < length s3" by simp
    have nlt: "\<not> cs < calculateSignalStrength s3" using sc3 by simp
    from duplicateStacks_cases[OF pre nlt, of source]
    show ?thesis
    proof (elim disjE exE conjE)
      assume ft: "filledWith (stackDuplicate source) s3 (duplicateStacks source cs [1..<length s3] s3)"
        and all: "\<forall>i \<in> set [1..<length s3]. duplicateStacks source cs [1..<length s3] s3 ! i \<noteq> None"
      have "occupied (optimizedSlots st4) = 53"
        using all l3 l4 reach_head[OF r4 f(5) f(2)] s4 by (intro occupied_full_container) simp_all
      moreover have "fillSum (optimizedSlots st4) = of_nat (occupied (optimizedSlots st4))"
        using fullT[OF _ wf4] ft by (intro fillSum_full) (simp add: s4 d_def)
      ultimately have fs: "fillSum (optimizedSlots st4) = 53" by simp
      have "nonNull (optimizedSlots st4) \<noteq> []"
        using \<open>occupied (optimizedSlots st4) = 53\<close> by (auto simp: occupied_def)
      then have "cs = signalOf 53" using score_signalOf[of "optimizedSlots st4"] k4 fs by (simp add: keeps_def)
      then show ?thesis using low signalOf_53 by simp
    next
      fix t i
      assume i: "i \<in> set [1..<length s3]" and ft: "filledWith (stackDuplicate source) s3 t"
        and e: "t ! i = None" and nt: "\<not> cs < calculateSignalStrength t"
        and up: "cs < calculateSignalStrength (t[i := Some (stackDuplicate source)])"
        and res: "duplicateStacks source cs [1..<length s3] s3
                    = t[i := Some ((stackDuplicate source)\<lparr>quantity := Some 1\<rparr>)]"
      define d1 where "d1 = d\<lparr>quantity := Some 1\<rparr>"
      have s4': "optimizedSlots st4 = t[i := Some d1]" using s4 res by (simp add: d1_def d_def)
      have lt: "length t = 54" using ft l3 by (simp add: filledWith_def)
      have il: "i < length t" "0 < i" using i lt l3 by simp_all
      have wt: "wfSlots t"
      proof (rule wfSlotsI)
        fix k x assume k: "k < length t" "t ! k = Some x"
        show "wfItem x"
        proof (cases "k = i")
          case True then show ?thesis using e k by simp
        next
          case False
          then have "optimizedSlots st4 ! k = Some x" using k s4' by simp
          then show ?thesis using wfSlots_nth[OF wf4, of k x] k l4 lt by simp
        qed
      qed
      have tfull: "fillOf x = 1" "\<not> quantityLt x (stack_size x)" if "Some x \<in> set t" for x
        using fullT[OF _ wt that] ft by (simp_all add: d_def)
      have ftt: "fillSum t = of_nat (occupied t)" using tfull(1) by (rule fillSum_full)
      have "calculateSignalStrength (t[i := Some d]) = signalOf (fillSum (t[i := Some d]))"
        using nonNull_update_Some[OF il(1)] by (rule score_signalOf)
      also have "\<dots> = signalOf (fillSum t + 1)" using fillSum_place[OF il(1) e, of d] fd by simp
      finally have big: "cs < signalOf (fillSum t + 1)" using up by (simp add: d_def)
      let ?run5 = "incrementAll stack_size cs (belowLimitFromEnd (optimizedSlots st4)) (optimizedSlots st4)"
      have sl5: "sl = fst ?run5" using st4(2) c4 by (simp add: strategy5_def)
      have shape5: "length sl = 54" "\<And>k. (sl ! k = None) = (optimizedSlots st4 ! k = None)"
        using incrementAll_shape[of stack_size cs "belowLimitFromEnd (optimizedSlots st4)" "optimizedSlots st4"] l4
        by (simp_all add: sl5)
      show ?thesis
      proof (cases "snd ?run5")
        case True
        from incrementAll_found[OF True] obtain k x where
          k: "sl ! k = Some x" "k < length (optimizedSlots st4)" "quantityLt x (stack_size x)"
             "cs < calculateSignalStrength (setQuantity sl k (quantityAt sl k + 1))"
          by (auto simp: sl5)
        have kl: "k < length sl" using k(2) l4 shape5 by simp
        have "Some x \<in> set sl" using kl k(1) by (rule nth_Some_mem)
        then have sx: "stack_size x = s" using reach_uniform[OF r5 uni] by simp
        show ?thesis using k(4) score_increment[OF wf5 kl k(1) k(3)] sx by (simp add: cs_def)
      next
        case False
        have nf5: "\<forall>k \<in> set (belowLimitFromEnd (optimizedSlots st4)). \<forall>x. sl ! k = Some x
                      \<longrightarrow> k < length (optimizedSlots st4) \<longrightarrow> \<not> quantityLt x (stack_size x)"
          unfolding sl5 using False by (intro incrementAll_not_found) simp_all
        have q1: "quantityLt d1 (stack_size d1)" using sd s by (auto simp: d1_def quantityLt_def)
        have "i \<in> set (belowLimitFromEnd (optimizedSlots st4))"
          using il l4 lt q1 sd by (simp add: belowLimitFromEnd_def s4' d1_def)
        then have fi: "\<And>x. sl ! i = Some x \<Longrightarrow> \<not> quantityLt x (stack_size x)"
          using nf5 il l4 lt by auto
        have "fillOf x = 1" if x: "Some x \<in> set sl" for x
        proof -
          from x obtain k where k: "k < length sl" "sl ! k = Some x" by (auto simp: in_set_conv_nth)
          have wx: "wfItem x" using items_wf[OF wf5 x] .
          show ?thesis
          proof (cases "k = i")
            case True
            then show ?thesis using fi k wx fillOf_full by simp
          next
            case False
            have "optimizedSlots st4 ! k \<noteq> None" using shape5(2)[of k] k by simp
            then obtain y where y: "optimizedSlots st4 ! k = Some y" by auto
            then have ty: "t ! k = Some y" using False s4' k shape5 lt by simp
            moreover have "k < length t" using k shape5 lt by simp
            ultimately have "Some y \<in> set t" by (rule nth_Some_mem[rotated])
            then have "\<not> quantityLt y (stack_size y)" using tfull(2) by simp
            then have "sl ! k = Some y" unfolding sl5 using y by (intro incrementAll_maxed_frame)
            then have "x = y" using k by simp
            then show ?thesis using \<open>Some y \<in> set t\<close> tfull(1) by simp
          qed
        qed
        then have "fillSum sl = of_nat (occupied sl)" by (rule fillSum_full)
        also have "occupied sl = occupied (optimizedSlots st4)"
          using shape5 l4 by (intro occupied_same_shape) simp_all
        also have "\<dots> = occupied t + 1"
          using occupied_update[OF il(1), of "Some d1"] e by (simp add: s4' occupied_def)
        finally have "fillSum sl = fillSum t + 1" using ftt by simp
        moreover have "nonNull sl \<noteq> []"
        proof -
          have "sl ! i \<noteq> None" using shape5(2)[of i] s4' il by simp
          then obtain x where "sl ! i = Some x" by auto
          moreover have "i < length sl" using il shape5 lt by simp
          ultimately have "Some x \<in> set sl" by (rule nth_Some_mem[rotated])
          then show ?thesis using set_nonNull[of sl] by auto
        qed
        then have "cs = signalOf (fillSum sl)" using score_signalOf[of sl] sc5 by simp
        ultimately show ?thesis using big nt by (simp add: cs_def)
      qed
    qed
  qed
qed

lemma fillSum_layout:
  assumes "layout slots = Inr out"
  shows "fillSum out = fillSum slots"
proof -
  have m: "mset (nonNull out) = mset (finalItems slots)" using layout_items(1)[OF assms] .
  have "sum_list (map fillOf (nonNull out)) = sum_mset (image_mset fillOf (mset (nonNull out)))"
    by (metis mset_map sum_mset_sum_list)
  also have "\<dots> = sum_mset (image_mset fillOf (mset (finalItems slots)))" by (simp only: m)
  also have "\<dots> = sum_list (map fillOf (finalItems slots))" by (metis mset_map sum_mset_sum_list)
  also have "\<dots> = sum_list (map fillOf (nonNull slots))" by (simp only: finalItems_fill)
  finally show ?thesis by (simp only: sum_list_nonNull)
qed

lemma largestStackSizeItem_member:
  "items \<noteq> [] \<Longrightarrow> \<exists>x. largestStackSizeItem items = Inr x \<and> x \<in> set items"
  using foldl_choice[of "\<lambda>current largest. stack_size current > stack_size largest"]
  by (cases items) (auto simp: largestStackSizeItem_def)

lemma oneClass_size:
  assumes w: "wellFormed slots" and o: "oneClass s slots" and ne: "\<not> list_all (\<lambda>x. x = None) slots"
  shows "s = 1 \<or> s = 16 \<or> s = 64"
proof -
  from ne obtain j where j: "j < length slots" "slots ! j \<noteq> None" by (auto simp: list_all_length)
  then obtain x where x: "slots ! j = Some x" by auto
  have "wellFormedSlot x" using w j(1) x by (rule wellFormed_nth)
  moreover have "stack_size x = s" using o j(1) x by (auto simp: oneClass_def list_all_length)
  ultimately show ?thesis by (auto simp: wellFormedSlot_def)
qed

lemma tight_search:
  assumes w: "wellFormed slots" and o: "oneClass s slots"
    and ne: "\<not> list_all (\<lambda>x. x = None) slots" and sl: "searchedSlots slots = Inr sl"
  shows "calculateSignalStrength slots < signalOf (fillSum sl + 1 / of_int s)"
proof -
  from oneClass_size[OF w o ne] consider "s = 1" | "s = 16 \<or> s = 64" by blast
  then show ?thesis
  proof cases
    case 1
    then show ?thesis using tight_unstackable[OF w _ ne sl] o by simp
  next
    case 2
    then show ?thesis using tight_stackable[OF w o ne _ sl] by simp
  qed
qed

text \<open>
  Claim C3, for containers as the test file builds them. For every well-formed container
  with at least one occupied slot whose items all have one stack size and a quantity of 1
  (set, or left to its default), the optimizer returns a container such that writing into
  its slot 0 one unit of its occupied slot with the largest stack size (the first of them)
  gives a signal exactly one above the signal of the optimized container.
\<close>

theorem threshold_tightness:
  "wellFormed slots \<Longrightarrow> oneClass s slots \<Longrightarrow> \<not> list_all (\<lambda>x. x = None) slots \<Longrightarrow>
     \<exists>out more. optimizeForRedstone slots = Inr out \<and> withOneMoreUnit out = Inr more \<and>
        calculateSignalStrength more = calculateSignalStrength out + 1"
proof -
  assume w: "wellFormed slots" and o: "oneClass s slots" and ne: "\<not> list_all (\<lambda>x. x = None) slots"
  define cs where "cs = calculateSignalStrength slots"
  note f = classified_facts[OF w]
  note uni = oneClass_facts(2)[OF w o]
  have sp: "s = 1 \<or> s = 16 \<or> s = 64" using oneClass_size[OF w o ne] .
  from searched_keeps[OF w] obtain sl where
    sl: "searchedSlots slots = Inr sl" "keeps (classified slots) cs sl"
    by (auto simp: cs_def)
  then have r: "reach (classified slots) sl" and sc: "calculateSignalStrength sl = cs"
    by (simp_all add: keeps_def)
  from optimize_layout[OF w] sl(1) ne obtain out where
    out: "layout sl = Inr out" "optimizeForRedstone slots = Inr out" by auto
  have so: "calculateSignalStrength out = cs" using score_layout[OF out(1)] sc by simp
  have fo: "fillSum out = fillSum sl" using out(1) by (rule fillSum_layout)
  have lo: "length out = 54" "out ! 0 = None" using layout_items(2,3)[OF out(1)] by simp_all
  have tight: "cs < signalOf (fillSum out + 1 / of_int s)"
    using tight_search[OF w o ne sl(1)] by (simp add: cs_def fo)
  have pos: "1 \<le> cs"
  proof -
    from ne obtain j where j: "j < length slots" "slots ! j \<noteq> None" by (auto simp: list_all_length)
    have "classified slots ! j \<noteq> None" using classified_nth[OF j(1)] j(2) by auto
    then have "calculateSignalStrength (classified slots) = signalOf (fillSum (classified slots))"
      using j(1) by (intro score_signalOf_nth[of j]) simp_all
    then show ?thesis using signalOf_pos[OF fillSum_nonneg[OF f(3)]] f(4) by (simp add: cs_def)
  qed
  have nn: "nonNull out \<noteq> []"
  proof
    assume "nonNull out = []"
    then have "calculateSignalStrength out = 0" by (simp add: score_nonNull)
    then show False using so pos by simp
  qed
  from largestStackSizeItem_member[OF nn] obtain largest where
    l: "largestStackSizeItem (nonNull out) = Inr largest" "largest \<in> set (nonNull out)" by blast
  let ?more = "out[0 := Some (largest\<lparr>quantity := Some 1\<rparr>)]"
  have m: "withOneMoreUnit out = Inr ?more" using l(1) by (simp add: withOneMoreUnit_def)
  have "largest \<in> set (finalItems sl)"
    using l(2) mset_eq_setD[OF layout_items(1)[OF out(1)]] by simp
  from finalItems_member[OF this] obtain x b b' where
    x: "Some x \<in> set sl" "largest = x\<lparr>forceAdjusted := Some b, isAdjusted := Some b'\<rparr>" by blast
  have "stack_size x = s" using reach_uniform[OF r uni x(1)] .
  then have "fillOf (largest\<lparr>quantity := Some 1\<rparr>) = 1 / of_int s"
    using x(2) sp by (auto simp: fillOf_def quantityOr1_def stackLimit_def)
  then have fm: "fillSum ?more = fillSum out + 1 / of_int s"
    using fillSum_place[of 0 out "largest\<lparr>quantity := Some 1\<rparr>"] lo by simp
  have "?more ! 0 \<noteq> None" using lo by simp
  then have sm: "calculateSignalStrength ?more = signalOf (fillSum out + 1 / of_int s)"
    using score_signalOf_nth[of 0 ?more] lo fm by simp
  have "signalOf (fillSum out + 1 / of_int s) \<le> signalOf (fillSum out) + 1"
    using sp by (intro signalOf_step) auto
  moreover have "signalOf (fillSum out) = cs" using score_signalOf[OF nn] so by simp
  ultimately have "calculateSignalStrength ?more = cs + 1" using tight sm by simp
  then show ?thesis using out(2) m so by simp
qed

text \<open>The theorem at the test file's container of one unstackable item, and at a
  container of one 16-stackable item.\<close>

theorem threshold_tightness_witness:
  "wellFormed singleUnstackable \<and> oneClass 1 singleUnstackable
   \<and> \<not> list_all (\<lambda>x. x = None) singleUnstackable
   \<and> (\<exists>out more. optimizeForRedstone singleUnstackable = Inr out \<and> withOneMoreUnit out = Inr more \<and>
        calculateSignalStrength more = calculateSignalStrength out + 1)
   \<and> wellFormed singleSixteen \<and> oneClass 16 singleSixteen
   \<and> \<not> list_all (\<lambda>x. x = None) singleSixteen
   \<and> (\<exists>out more. optimizeForRedstone singleSixteen = Inr out \<and> withOneMoreUnit out = Inr more \<and>
        calculateSignalStrength more = calculateSignalStrength out + 1)"
proof -
  have o: "oneClass 1 singleUnstackable"
    by (simp add: oneClass_def singleUnstackable_def testItem_def list_all_iff)
  have n: "\<not> list_all (\<lambda>x. x = None) singleUnstackable"
    by (simp add: singleUnstackable_def)
  have w': "wellFormed singleSixteen"
    by (simp add: wellFormed_def singleSixteen_def wellFormedSlot_def testItem_def list_all_iff)
  have o': "oneClass 16 singleSixteen"
    by (simp add: oneClass_def singleSixteen_def testItem_def list_all_iff)
  have n': "\<not> list_all (\<lambda>x. x = None) singleSixteen"
    by (simp add: singleSixteen_def)
  from threshold_tightness[OF wellFormed_singleUnstackable o n] threshold_tightness[OF w' o' n']
  show ?thesis
    using wellFormed_singleUnstackable o n w' o' n' by blast
qed

section \<open>Loops that stop at their first step\<close>

lemma whileIncrement_noop:
  assumes c: "canIncrement limit i slots"
    and t: "cs < calculateSignalStrength (setQuantity slots i (quantityAt slots i + 1))"
  shows "whileIncrement limit cs i slots = (slots, True)"
proof -
  from c obtain item q where i: "i < length slots" "slots ! i = Some item" "quantity item = Some q"
    by (auto simp: canIncrement_Some)
  have q: "quantityAt slots i = q" using i by (simp add: quantityAt_def)
  have "quantityAt (setQuantity slots i (q + 1)) i = q + 1"
    using i by (simp add: quantityAt_setQuantity)
  then have "setQuantity (setQuantity slots i (q + 1)) i (quantityAt (setQuantity slots i (q + 1)) i - 1) = slots"
    using i by (simp add: setQuantity_same)
  then show ?thesis
    using c t unfolding q by (subst whileIncrement.simps) (simp add: Let_def q)
qed

lemma incrementAll_noop:
  assumes "\<forall>i \<in> set idxs. \<forall>x. slots ! i = Some x \<longrightarrow> canIncrement (limitOf x) i slots \<longrightarrow>
             cs < calculateSignalStrength (setQuantity slots i (quantityAt slots i + 1))"
  shows "fst (incrementAll limitOf cs idxs slots) = slots"
  using assms
proof (induction idxs)
  case Nil
  then show ?case by simp
next
  case (Cons i idxs)
  have ih: "fst (incrementAll limitOf cs idxs slots) = slots" using Cons by simp
  show ?case
  proof (cases "slots ! i")
    case None
    then show ?thesis using ih by (simp add: incrementAll_unfold)
  next
    case (Some x)
    show ?thesis
    proof (cases "canIncrement (limitOf x) i slots")
      case True
      then have "cs < calculateSignalStrength (setQuantity slots i (quantityAt slots i + 1))"
        using Cons.prems Some by simp
      then have "whileIncrement (limitOf x) cs i slots = (slots, True)"
        using True by (intro whileIncrement_noop)
      then show ?thesis using Some by (simp add: incrementAll_unfold)
    next
      case False
      then have "whileIncrement (limitOf x) cs i slots = (slots, False)" by (rule whileIncrement_stop)
      then show ?thesis using Some ih by (simp add: incrementAll_unfold)
    qed
  qed
qed

lemma fillUnstackables_noop:
  assumes "\<forall>i \<in> set idxs. slots ! i = None \<longrightarrow>
             cs < calculateSignalStrength (slots[i := Some (unstackableDuplicate target)])"
  shows "fst (fillUnstackables target cs idxs slots) = slots"
  using assms
proof (induction idxs)
  case Nil
  then show ?case by simp
next
  case (Cons i idxs)
  have ih: "fst (fillUnstackables target cs idxs slots) = slots" using Cons by simp
  show ?case
  proof (cases "slots ! i = None")
    case True
    then have "cs < calculateSignalStrength (slots[i := Some (unstackableDuplicate target)])"
      using Cons.prems by simp
    moreover have "slots[i := None] = slots"
      using True by (cases "i < length slots") (simp_all add: list_update_same_conv list_update_beyond)
    ultimately show ?thesis using True by (simp add: fillUnstackables_unfold)
  next
    case False
    then have "fillUnstackables target cs (i # idxs) slots = fillUnstackables target cs idxs slots"
      by (simp only: fillUnstackables_unfold if_False)
    then show ?thesis using ih by simp
  qed
qed

section \<open>What the increment loops change\<close>

lemma slotRaised_None [simp]: "slotRaised None b \<longleftrightarrow> b = None"
  by (simp add: slotRaised_def)

lemma slotRaised_Some:
  "slotRaised (Some x) b \<longleftrightarrow>
     (\<exists>q. (case quantity x of None \<Rightarrow> 0 | Some q0 \<Rightarrow> q0) \<le> q \<and> b = Some (x\<lparr>quantity := Some q\<rparr>))"
  by (simp add: slotRaised_def)

lemma slotRaised_refl: "quantity x = Some q \<Longrightarrow> slotRaised (Some x) (Some x)"
  unfolding slotRaised_Some by (rule exI[of _ q]) simp

lemma raised_refl: "wfSlots a \<Longrightarrow> raised a a"
proof -
  assume wf: "wfSlots a"
  have "slotRaised (a ! j) (a ! j)" if j: "j < length a" for j
  proof (cases "a ! j")
    case None
    then show ?thesis by simp
  next
    case (Some x)
    then have "wfItem x" using wfSlots_nth[OF wf j] by simp
    then obtain q where "quantity x = Some q" by (auto simp: wfItem_def split: option.splits)
    then show ?thesis using Some slotRaised_refl by simp
  qed
  then show ?thesis by (simp add: raised_def)
qed

lemma raised_nth:
  assumes "raised a b" "j < length a" "b ! j = Some y"
  obtains x q where "a ! j = Some x" "y = x\<lparr>quantity := Some q\<rparr>"
    "(case quantity x of None \<Rightarrow> 0 | Some q0 \<Rightarrow> q0) \<le> q"
proof -
  from assms(1,2) have c: "slotRaised (a ! j) (b ! j)" by (simp add: raised_def)
  show ?thesis
  proof (cases "a ! j")
    case None
    then show ?thesis using c assms(3) by simp
  next
    case (Some x)
    then obtain q where "(case quantity x of None \<Rightarrow> 0 | Some q0 \<Rightarrow> q0) \<le> q"
      "b ! j = Some (x\<lparr>quantity := Some q\<rparr>)"
      using c by (auto simp: slotRaised_Some)
    then show ?thesis using Some assms(3) that[of x q] by simp
  qed
qed

lemma raised_nth':
  assumes "raised a b" "j < length a" "a ! j = Some x"
  obtains q where "b ! j = Some (x\<lparr>quantity := Some q\<rparr>)"
    "(case quantity x of None \<Rightarrow> 0 | Some q0 \<Rightarrow> q0) \<le> q"
proof -
  from assms have "slotRaised (Some x) (b ! j)" by (auto simp: raised_def)
  then show ?thesis using that by (auto simp: slotRaised_Some)
qed

lemma raised_None: "raised a b \<Longrightarrow> j < length a \<Longrightarrow> (b ! j = None) = (a ! j = None)"
proof -
  assume "raised a b" "j < length a"
  then have c: "slotRaised (a ! j) (b ! j)" by (simp add: raised_def)
  show ?thesis
  proof (cases "a ! j")
    case None
    then show ?thesis using c by simp
  next
    case (Some x)
    then show ?thesis using c by (auto simp: slotRaised_Some)
  qed
qed

lemma raised_length: "raised a b \<Longrightarrow> length b = length a"
  by (simp add: raised_def)

lemma raised_setQuantity:
  assumes r: "raised a sl" and i: "i < length sl" and x: "sl ! i = Some item"
    and q: "quantity item = Some q0" "q0 \<le> q"
  shows "raised a (setQuantity sl i q)"
proof -
  have l: "length sl = length a" using r by (rule raised_length)
  have "slotRaised (a ! j) (setQuantity sl i q ! j)" if j: "j < length a" for j
  proof (cases "j = i")
    case False
    then have "setQuantity sl i q ! j = sl ! j" by (simp add: setQuantity_nth_other)
    then show ?thesis using r j by (simp add: raised_def)
  next
    case True
    from r j x True obtain x0 q1 where x0: "a ! j = Some x0" "item = x0\<lparr>quantity := Some q1\<rparr>"
      "(case quantity x0 of None \<Rightarrow> 0 | Some q0 \<Rightarrow> q0) \<le> q1"
      by (auto elim: raised_nth)
    have "q1 = q0" using x0(2) q(1) by simp
    then have "(case quantity x0 of None \<Rightarrow> 0 | Some q0 \<Rightarrow> q0) \<le> q" using x0(3) q(2) by simp
    moreover have "setQuantity sl i q ! j = Some (x0\<lparr>quantity := Some q\<rparr>)"
      using True i x x0(2) by (simp add: setQuantity_nth_same)
    ultimately show ?thesis unfolding x0(1) slotRaised_Some by (intro exI[of _ q]) simp
  qed
  then show ?thesis using l by (simp add: raised_def)
qed

lemma incrementAll_raised:
  assumes "wfSlots slots"
  shows "raised slots (fst (incrementAll limitOf cs idxs slots))"
proof (rule incrementAll_invariant[where P = "raised slots"])
  show "raised slots slots" using assms by (rule raised_refl)
next
  fix sl i item q0 q
  assume a: "raised slots sl" "i < length sl" "sl ! i = Some item" "quantity item = Some q0" "q0 < q"
  then have "q0 \<le> q" by simp
  with a(1-4) show "raised slots (setQuantity sl i q)" by (rule raised_setQuantity)
qed

lemma incrementAll_other:
  assumes "i \<notin> set idxs"
  shows "fst (incrementAll limitOf cs idxs slots) ! i = slots ! i"
proof (rule incrementAll_invariant[where P = "\<lambda>sl::Container. sl ! i = slots ! i"])
  show "slots ! i = slots ! i" ..
next
  fix sl :: Container and k item q0 q
  assume a: "sl ! i = slots ! i" "k \<in> set idxs"
  then have "i \<noteq> k" using assms by auto
  then show "setQuantity sl k q ! i = slots ! i" using a(1) by (simp add: setQuantity_nth_other)
qed

lemma fillUnstackables_filledWith:
  "filledWith (unstackableDuplicate target) slots (fst (fillUnstackables target cs idxs slots))"
proof (rule fillUnstackables_invariant[where P = "filledWith (unstackableDuplicate target) slots"])
  show "filledWith (unstackableDuplicate target) slots slots" by (rule filledWith_refl)
next
  fix sl i
  assume "filledWith (unstackableDuplicate target) slots sl" "sl ! i = None"
  then show "filledWith (unstackableDuplicate target) slots (sl[i := Some (unstackableDuplicate target)])"
    by (rule filledWith_place)
qed

section \<open>The stages of the search\<close>

lemma keeps_stages:
  assumes w: "wellFormed slots"
  shows "keeps (classified slots) (calculateSignalStrength slots) (afterStrategy1 slots)"
    and "keeps (classified slots) (calculateSignalStrength slots) (afterStrategy2 slots)"
proof -
  let ?b = "classified slots" and ?cs = "calculateSignalStrength slots"
  note f = classified_facts[OF w]
  have cs: "calculateSignalStrength (normalizeSlots slots) = ?cs" by (rule score_normalizeSlots)
  have k0: "keeps ?b ?cs ?b" using f by (simp add: keeps_def reach_refl)
  show k1: "keeps ?b ?cs (afterStrategy1 slots)"
    using keeps_strategy1[OF f(3) k0] k0 by (simp add: afterStrategy1_def runStrategy1_slots cs)
  show "keeps ?b ?cs (afterStrategy2 slots)"
    using keeps_strategy2[OF f(3) k1] k1
    by (simp add: afterStrategy2_def afterStrategy1_def runStrategy2_slots cs)
qed

lemma stage1:
  "\<exists>d. stack_size d = 1 \<and> filledWith d (classified slots) (afterStrategy1 slots)"
proof (cases "hasUnstackable (initialSearch slots) \<and> \<not> hasQA (initialSearch slots)")
  case False
  then have "afterStrategy1 slots = classified slots"
    by (auto simp: afterStrategy1_def runStrategy1_slots)
  moreover have "stack_size (testItem [] 1 [] 1) = 1" by (simp add: testItem_def)
  ultimately show ?thesis using filledWith_refl by metis
next
  case True
  let ?b = "classified slots"
  from True have hu: "hasStackSize 1 (itemsAt ?b (forcedIndices ?b))" by simp
  then obtain t where t: "targetUnstackable (itemsAt ?b (forcedIndices ?b)) = Some t"
    using hasStackSize_target by blast
  have t1: "stack_size t = 1" using targetUnstackable_member(2)[OF t] .
  have "afterStrategy1 slots
          = fst (fillUnstackables t (calculateSignalStrength (normalizeSlots slots)) [1..<length ?b] ?b)"
    using True t by (simp add: afterStrategy1_def runStrategy1_slots strategy1_def)
  then have "filledWith (unstackableDuplicate t) ?b (afterStrategy1 slots)"
    using fillUnstackables_filledWith by simp
  moreover have "stack_size (unstackableDuplicate t) = 1" using t1 by (simp add: unstackableDuplicate_def)
  ultimately show ?thesis by blast
qed

lemma stage1_adjusted:
  "hasQuantityAdjustments (normalizeSlots slots) \<Longrightarrow> afterStrategy1 slots = classified slots"
  by (simp add: afterStrategy1_def runStrategy1_slots)

lemma stage2:
  assumes w: "wellFormed slots"
  shows "raised (afterStrategy1 slots) (afterStrategy2 slots)"
proof -
  have wf: "wfSlots (afterStrategy1 slots)"
    using keeps_stages(1)[OF w] classified_facts(3)[OF w] by (auto simp: keeps_def intro: reach_wfSlots)
  show ?thesis
    using incrementAll_raised[OF wf] raised_refl[OF wf]
    by (simp add: afterStrategy2_def afterStrategy1_def runStrategy2_slots strategy2_def)
qed

lemma stage3:
  assumes w: "wellFormed slots"
  shows "raised (afterStrategy2 slots) (optimizedSlots (beforeStrategy4 slots))"
proof -
  have wf: "wfSlots (afterStrategy2 slots)"
    using keeps_stages(2)[OF w] classified_facts(3)[OF w] by (auto simp: keeps_def intro: reach_wfSlots)
  show ?thesis
    using incrementAll_raised[OF wf] raised_refl[OF wf]
    by (simp add: afterStrategy2_def beforeStrategy4_def runStrategy3_slots strategy3_def)
qed

text \<open>After Strategy 3, a forced 64-stackable below its limit means that one more unit of
  a 64-stackable raises the signal.\<close>

lemma stage3_tight:
  assumes w: "wellFormed slots"
    and j: "j < length slots" and x: "optimizedSlots (beforeStrategy4 slots) ! j = Some x"
    and fx: "forceAdjusted x = Some True" and sx: "stack_size x = 64" and qx: "quantityLt x 64"
  shows "calculateSignalStrength slots
           < signalOf (fillSum (optimizedSlots (beforeStrategy4 slots)) + 1 / 64)"
proof -
  define b where "b = classified slots"
  define cs where "cs = calculateSignalStrength slots"
  define s1 where "s1 = afterStrategy1 slots"
  define s2 where "s2 = afterStrategy2 slots"
  define s3 where "s3 = optimizedSlots (beforeStrategy4 slots)"
  note f = classified_facts[OF w, folded b_def cs_def]
  have csn: "calculateSignalStrength (normalizeSlots slots) = cs" by (simp add: cs_def score_normalizeSlots)
  have lb: "length b = length slots" by (simp add: b_def)
  have k: "keeps b cs s1" "keeps b cs s2" "keeps b cs s3"
    using keeps_stages[OF w] keeps_beforeStrategy4[OF w] by (simp_all add: b_def cs_def s1_def s2_def s3_def)
  then have len: "length s1 = length slots" "length s2 = length slots" "length s3 = length slots"
    using lb by (simp_all add: keeps_def reach_def)
  have wf3: "wfSlots s3" using k(3) f(3) by (auto simp: keeps_def intro: reach_wfSlots)
  have r12: "raised s1 s2" using stage2[OF w] by (simp add: s1_def s2_def)
  have r23: "raised s2 s3" using stage3[OF w] by (simp add: s2_def s3_def)
  from stage1[of slots] obtain d where d: "stack_size d = 1" "filledWith d b s1"
    by (auto simp: b_def s1_def)
  from r23 x j len obtain x2 q where x2: "s2 ! j = Some x2" "x = x2\<lparr>quantity := Some q\<rparr>"
    by (auto simp: s3_def elim: raised_nth)
  from r12 x2(1) j len obtain x1 q' where x1: "s1 ! j = Some x1" "x2 = x1\<lparr>quantity := Some q'\<rparr>"
    by (auto elim: raised_nth)
  have p2: "stack_size x2 = 64" "forceAdjusted x2 = Some True" using x2(2) sx fx by simp_all
  have p1: "stack_size x1 = 64" "forceAdjusted x1 = Some True" using x1(2) p2 by simp_all
  have "s1 ! j = b ! j \<or> (b ! j = None \<and> s1 ! j = Some d)"
    using d(2) j lb by (simp add: filledWith_def)
  then have bj: "b ! j = Some x1" using x1(1) p1(1) d(1) by auto
  have j0: "0 < j" using bj f(2) by (cases j) simp_all
  have "j \<in> set (forcedIndices b)" using bj p1(2) j lb by (simp add: forcedIndices_member isForced_def)
  then have "x1 \<in> set (itemsAt b (forcedIndices b))" using bj by (rule itemsAt_memberI)
  then have h64: "hasStackSize 64 (itemsAt b (forcedIndices b))"
    using p1(1) by (auto simp: hasStackSize_def list_ex_iff)
  let ?idxs = "stackablesFromEnd 64 s2"
  let ?run = "incrementAll (\<lambda>_. 64) cs ?idxs s2"
  have s3: "s3 = fst ?run"
    using h64 by (simp add: s3_def s2_def afterStrategy2_def beforeStrategy4_def runStrategy3_slots
        strategy3_def b_def csn)
  have jm: "j \<in> set ?idxs" using j j0 len x2(1) p2 by (simp add: stackablesFromEnd_def)
  show ?thesis
  proof (cases "snd ?run")
    case True
    from incrementAll_found[OF True] obtain i y where
      i: "i \<in> set ?idxs" "s3 ! i = Some y" "i < length s2" "quantityLt y 64"
         "cs < calculateSignalStrength (setQuantity s3 i (quantityAt s3 i + 1))"
      by (auto simp: s3)
    from i(1) obtain y2 where y2: "s2 ! i = Some y2" "stack_size y2 = 64"
      by (auto simp: stackablesFromEnd_def split: option.splits)
    from r23 i(3) y2(1) obtain q2 where "s3 ! i = Some (y2\<lparr>quantity := Some q2\<rparr>)"
      by (auto elim: raised_nth')
    then have sy: "stack_size y = 64" using i(2) y2(2) by auto
    have il: "i < length s3" using i(3) len by simp
    have "cs < signalOf (fillSum s3 + 1 / of_int (stack_size y))"
      using i(5) score_increment[OF wf3 il i(2) i(4)] by simp
    then show ?thesis using sy by (simp add: cs_def s3_def)
  next
    case False
    have "\<forall>i \<in> set ?idxs. \<forall>x. s3 ! i = Some x \<longrightarrow> i < length s2 \<longrightarrow> \<not> quantityLt x 64"
      unfolding s3 using False by (intro incrementAll_not_found) simp_all
    then have "\<not> quantityLt x 64" using jm x j len by (auto simp: s3_def)
    then show ?thesis using qx by simp
  qed
qed

text \<open>Strategy 4 leaves the working array as it is, or leaves at most one forced slot below
  its limit.\<close>

lemma stage4:
  assumes w: "wellFormed slots" and st: "runStrategy4 (beforeStrategy4 slots) = Inr st"
  shows "optimizedSlots st = optimizedSlots (beforeStrategy4 slots) \<or>
         (\<exists>i0. \<forall>j < length slots. \<forall>x. optimizedSlots st ! j = Some x \<longrightarrow> forceAdjusted x = Some True \<longrightarrow>
                  quantityLt x (stack_size x) \<longrightarrow> j = i0)"
proof (cases "duplicationNeeded (beforeStrategy4 slots) \<and> allMaxed (optimizedSlots (beforeStrategy4 slots))")
  case False
  then show ?thesis using runStrategy4_cases(2)[OF st] by blast
next
  case True
  define b where "b = classified slots"
  define cs where "cs = calculateSignalStrength slots"
  define s3 where "s3 = optimizedSlots (beforeStrategy4 slots)"
  define s4 where "s4 = optimizedSlots st"
  note f = classified_facts[OF w, folded b_def cs_def]
  have lb: "length b = length slots" by (simp add: b_def)
  have k3: "keeps b cs s3" using keeps_beforeStrategy4[OF w] by (simp add: b_def cs_def s3_def)
  then have r3: "reach b s3" and sc3: "calculateSignalStrength s3 = cs" by (simp_all add: keeps_def)
  have l3: "length s3 = length slots" using r3 lb by (simp add: reach_def)
  have am: "allMaxed s3" using True by (simp add: s3_def)
  from runStrategy4_cases(3)[OF st] True obtain source where
    src: "itemToDuplicate (itemsAt s3 (forcedIndices b)) = Inr source"
    and s4: "s4 = duplicateStacks source cs [1..<length s3] s3"
    by (auto simp: s3_def s4_def b_def cs_def)
  have maxed3: "\<not> quantityLt y (stack_size y)" if "Some y \<in> set s3" "forceAdjusted y = Some True" for y
    using am that by (auto simp: allMaxed_def list_ex_iff)
  from itemsAt_member[OF itemToDuplicate_member[OF src]] obtain k where
    k: "s3 ! k = Some source" "k \<in> set (forcedIndices b)" by auto
  have kb: "k < length b" "isForced (b ! k)" using k(2) by (simp_all add: forcedIndices_member)
  from r3 kb(1) have "forceAdjusted source = Some True"
    using k(1) kb(2) by (cases rule: reach_cases) (auto simp: isForced_def)
  moreover have "Some source \<in> set s3" using kb(1) lb l3 k(1) by (intro nth_Some_mem[of k]) simp_all
  ultimately have ms: "\<not> quantityLt source (stack_size source)" by (intro maxed3)
  define d where "d = stackDuplicate source"
  have md: "\<not> quantityLt d (stack_size d)"
    using ms by (simp add: d_def stackDuplicate_def quantityLt_def)
  have maxedT: "\<not> quantityLt y (stack_size y)"
    if ft: "filledWith d s3 t" and y: "j < length slots" "t ! j = Some y" "forceAdjusted y = Some True"
    for t j y
  proof -
    have "t ! j = s3 ! j \<or> (s3 ! j = None \<and> t ! j = Some d)"
      using ft y(1) l3 by (simp add: filledWith_def)
    then show ?thesis
    proof
      assume "t ! j = s3 ! j"
      then have "Some y \<in> set s3" using y l3 by (intro nth_Some_mem[of j]) simp_all
      then show ?thesis using maxed3 y(3) by simp
    next
      assume "s3 ! j = None \<and> t ! j = Some d"
      then show ?thesis using y(2) md by simp
    qed
  qed
  have pre: "\<forall>i \<in> set [1..<length s3]. i < length s3" by simp
  have nlt: "\<not> cs < calculateSignalStrength s3" using sc3 by simp
  from duplicateStacks_cases[OF pre nlt, of source]
  have "\<exists>i0. \<forall>j < length slots. \<forall>x. s4 ! j = Some x \<longrightarrow> forceAdjusted x = Some True \<longrightarrow>
                  quantityLt x (stack_size x) \<longrightarrow> j = i0"
  proof (elim disjE exE conjE)
    assume "filledWith (stackDuplicate source) s3 (duplicateStacks source cs [1..<length s3] s3)"
    then have "filledWith d s3 s4" by (simp add: s4 d_def)
    then show ?thesis using maxedT by blast
  next
    fix t i
    assume ft: "filledWith (stackDuplicate source) s3 t"
      and res: "duplicateStacks source cs [1..<length s3] s3
                    = t[i := Some ((stackDuplicate source)\<lparr>quantity := Some 1\<rparr>)]"
    have ft': "filledWith d s3 t" using ft by (simp add: d_def)
    have "j = i" if "j < length slots" "s4 ! j = Some x" "forceAdjusted x = Some True"
      "quantityLt x (stack_size x)" for j x
    proof (rule ccontr)
      assume "j \<noteq> i"
      then have "t ! j = Some x" using that(2) unfolding s4 res by simp
      then show False using maxedT[OF ft' that(1) _ that(3)] that(4) by simp
    qed
    then show ?thesis by blast
  qed
  then show ?thesis by (simp add: s4_def)
qed

lemma stack_sizes: "wfItem x \<Longrightarrow> wfItem y \<Longrightarrow> quantityLt y (stack_size y) \<Longrightarrow>
    stack_size y < stack_size x \<Longrightarrow> stack_size y = 16 \<and> stack_size x = 64"
  by (auto simp: wfItem_def quantityLt_def split: option.splits)

lemma signalOf_unit_mono:
  assumes "0 < a" "a \<le> b"
  shows "signalOf (x + 1 / of_int b) \<le> signalOf (x + 1 / of_int a)"
proof -
  have "(1 :: rat) / of_int b \<le> 1 / of_int a" using assms by (simp add: frac_le)
  then show ?thesis by (intro signalOf_mono) simp
qed

text \<open>
  The threshold is tight when the search ends: for every forced slot of the working array
  that is still below its limit, one more unit of an item of that stack size raises the
  signal.
\<close>

lemma final_tight:
  assumes w: "wellFormed slots" and sl: "searchedSlots slots = Inr sl"
    and j: "j < length slots" and x: "sl ! j = Some x"
    and fx: "forceAdjusted x = Some True" and qx: "quantityLt x (stack_size x)"
  shows "calculateSignalStrength slots < signalOf (fillSum sl + 1 / of_int (stack_size x))"
proof -
  define b where "b = classified slots"
  define cs where "cs = calculateSignalStrength slots"
  define s3 where "s3 = optimizedSlots (beforeStrategy4 slots)"
  note f = classified_facts[OF w, folded b_def cs_def]
  have lb: "length b = length slots" by (simp add: b_def)
  from sl obtain st4 where st4: "runStrategy4 (beforeStrategy4 slots) = Inr st4"
    "sl = strategy5 (currentSignal st4) (optimizedSlots st4)"
    by (rule searched_cases)
  define s4 where "s4 = optimizedSlots st4"
  have c4: "currentSignal st4 = cs" using runStrategy4_cases(1)[OF st4(1)] by (simp add: cs_def)
  obtain st where "runStrategy4 (beforeStrategy4 slots) = Inr st"
     "keeps (classified slots) (calculateSignalStrength slots) (optimizedSlots st)"
    using keeps_runStrategy4[OF w] by blast
  then have k4: "keeps b cs s4" using st4(1) by (simp add: b_def cs_def s4_def)
  then have r4: "reach b s4" by (simp add: keeps_def)
  have wf4: "wfSlots s4" using reach_wfSlots[OF r4 f(3)] .
  have l4: "length s4 = length slots" using r4 lb by (simp add: reach_def)
  have k5: "keeps b cs sl" unfolding st4(2) c4 s4_def[symmetric] using f(3) k4 by (rule keeps_strategy5)
  then have r5: "reach b sl" by (simp add: keeps_def)
  have wf5: "wfSlots sl" using reach_wfSlots[OF r5 f(3)] .
  have l5: "length sl = length slots" using r5 lb by (simp add: reach_def)
  let ?idxs = "belowLimitFromEnd s4"
  let ?run = "incrementAll stack_size cs ?idxs s4"
  have sl5: "sl = fst ?run" using st4(2) c4 by (simp add: strategy5_def s4_def)
  have r45: "raised s4 sl" unfolding sl5 using wf4 by (rule incrementAll_raised)
  from r45 x j l4 obtain x4 q where x4: "s4 ! j = Some x4" "x = x4\<lparr>quantity := Some q\<rparr>"
    "(case quantity x4 of None \<Rightarrow> 0 | Some q0 \<Rightarrow> q0) \<le> q"
    by (auto elim: raised_nth)
  have wx4: "wfItem x4" using wfSlots_nth[OF wf4 _ x4(1)] j l4 by simp
  have wx: "wfItem x" using wfSlots_nth[OF wf5 _ x] j l5 by simp
  have p4: "forceAdjusted x4 = Some True" "stack_size x4 = stack_size x" using x4(2) fx by simp_all
  have q4: "quantityLt x4 (stack_size x4)"
    using x4(2,3) qx wx4 by (auto simp: quantityLt_def wfItem_def split: option.splits)
  have jm: "j \<in> set ?idxs" using j l4 x4(1) p4(1) q4 by (simp add: belowLimitFromEnd_def)
  show ?thesis
  proof (cases "snd ?run")
    case False
    have "\<forall>i \<in> set ?idxs. \<forall>x. sl ! i = Some x \<longrightarrow> i < length s4 \<longrightarrow> \<not> quantityLt x (stack_size x)"
      unfolding sl5 using False by (intro incrementAll_not_found) simp_all
    then have "\<not> quantityLt x (stack_size x)" using jm x j l4 by auto
    then show ?thesis using qx by simp
  next
    case True
    from incrementAll_found[OF True] obtain i y where
      i: "i \<in> set ?idxs" "sl ! i = Some y" "i < length s4" "quantityLt y (stack_size y)"
         "cs < calculateSignalStrength (setQuantity sl i (quantityAt sl i + 1))"
      by (auto simp: sl5)
    have il: "i < length sl" using i(3) l4 l5 by simp
    have wy: "wfItem y" using wfSlots_nth[OF wf5 il i(2)] .
    have ty: "cs < signalOf (fillSum sl + 1 / of_int (stack_size y))"
      using i(5) score_increment[OF wf5 il i(2) i(4)] by simp
    show ?thesis
    proof (cases "stack_size x \<le> stack_size y")
      case True
      have "0 < stack_size x" using wx by (auto simp: wfItem_def)
      then have "signalOf (fillSum sl + 1 / of_int (stack_size y))
                   \<le> signalOf (fillSum sl + 1 / of_int (stack_size x))"
        using True by (rule signalOf_unit_mono)
      then show ?thesis using ty by (simp add: cs_def)
    next
      case False
      then have ss: "stack_size y = 16" "stack_size x = 64"
        using stack_sizes[OF wx wy i(4)] by simp_all
      then have ij: "i \<noteq> j" using x i(2) by auto
      from i(1) obtain y4 where y4: "s4 ! i = Some y4" "forceAdjusted y4 = Some True"
        "quantityLt y4 (stack_size y4)"
        by (auto simp: belowLimitFromEnd_def split: option.splits)
      have "s4 = s3"
      proof (rule ccontr)
        assume "s4 \<noteq> s3"
        then obtain i0 where "\<forall>j < length slots. \<forall>x. s4 ! j = Some x \<longrightarrow> forceAdjusted x = Some True \<longrightarrow>
                  quantityLt x (stack_size x) \<longrightarrow> j = i0"
          using stage4[OF w st4(1)] by (auto simp: s4_def s3_def)
        then have "j = i0" "i = i0" using j x4(1) p4(1) q4 i(3) l4 y4 by auto
        then show False using ij by simp
      qed
      then have x3: "optimizedSlots (beforeStrategy4 slots) ! j = Some x4" using x4(1) by (simp add: s3_def)
      have "quantityLt x4 64" using q4 p4(2) ss(2) by simp
      then have "cs < signalOf (fillSum s3 + 1 / 64)"
        using stage3_tight[OF w j x3 p4(1)] p4(2) ss(2) by (simp add: cs_def s3_def)
      moreover have "fillSum s4 \<le> fillSum sl"
        unfolding st4(2) s4_def using f(3) r4[unfolded s4_def] by (rule fill_mono_strategy5)
      then have "signalOf (fillSum s3 + 1 / 64) \<le> signalOf (fillSum sl + 1 / 64)"
        using \<open>s4 = s3\<close> by (intro signalOf_mono) simp
      ultimately show ?thesis using ss(2) by (simp add: cs_def)
    qed
  qed
qed

section \<open>A search that changes nothing\<close>

lemma settled_incrementAll:
  assumes s: "settled cs w"
    and idxs: "\<forall>i \<in> set idxs. \<forall>x. w ! i = Some x \<longrightarrow>
                  forceAdjusted x = Some True \<and> limitOf x = stack_size x"
  shows "fst (incrementAll limitOf cs idxs w) = w"
proof (rule incrementAll_noop, intro ballI allI impI)
  fix i x
  assume i: "i \<in> set idxs" and x: "w ! i = Some x" and c: "canIncrement (limitOf x) i w"
  have wf: "wfSlots w" using s by (simp add: settled_def)
  have p: "forceAdjusted x = Some True" "limitOf x = stack_size x" using idxs i x by auto
  have il: "i < length w" using c by (simp add: canIncrement_def)
  have q: "quantityLt x (stack_size x)" using c x p(2) by (simp add: canIncrement_def)
  have "cs < signalOf (fillSum w + 1 / of_int (stack_size x))"
    using s il x p(1) q by (simp add: settled_def)
  then show "cs < calculateSignalStrength (setQuantity w i (quantityAt w i + 1))"
    using score_increment[OF wf il x q] by simp
qed

lemma settled_strategy2: "settled cs w \<Longrightarrow> fst (strategy2 cs w) = w"
  unfolding strategy2_def
  by (rule settled_incrementAll) (auto simp: stackablesFromEnd_def)

lemma settled_strategy3: "settled cs w \<Longrightarrow> fst (strategy3 cs w) = w"
  unfolding strategy3_def
  by (rule settled_incrementAll) (auto simp: stackablesFromEnd_def)

lemma settled_strategy5: "settled cs w \<Longrightarrow> strategy5 cs w = w"
  unfolding strategy5_def
  by (rule settled_incrementAll) (auto simp: belowLimitFromEnd_def)

lemma score_place_unstackable:
  assumes "i < length w" "w ! i = None" "stack_size t = 1"
  shows "calculateSignalStrength (w[i := Some (unstackableDuplicate t)]) = signalOf (fillSum w + 1)"
proof -
  have "calculateSignalStrength (w[i := Some (unstackableDuplicate t)])
          = signalOf (fillSum (w[i := Some (unstackableDuplicate t)]))"
    using nonNull_update_Some[OF assms(1)] by (rule score_signalOf)
  then show ?thesis
    using fillSum_place[OF assms(1,2)] fillOf_unstackableDuplicate[OF assms(3)] by simp
qed

lemma settled_strategy1:
  assumes tu: "\<forall>i \<in> set [1..<length w]. w ! i = None \<longrightarrow> cs < signalOf (fillSum w + 1)"
  shows "fst (strategy1 items cs w) = w"
    and "\<not> snd (strategy1 items cs w) \<Longrightarrow> hasStackSize 1 items \<Longrightarrow> \<forall>i \<in> set [1..<length w]. w ! i \<noteq> None"
proof -
  show f: "fst (strategy1 items cs w) = w"
  proof (cases "targetUnstackable items")
    case None
    then show ?thesis by (simp add: strategy1_def)
  next
    case (Some t)
    have t1: "stack_size t = 1" using targetUnstackable_member(2)[OF Some] .
    have "fst (fillUnstackables t cs [1..<length w] w) = w"
    proof (rule fillUnstackables_noop, intro ballI impI)
      fix i assume i: "i \<in> set [1..<length w]" and e: "w ! i = None"
      have il: "i < length w" using i by simp
      have "cs < signalOf (fillSum w + 1)" using tu i e by blast
      then show "cs < calculateSignalStrength (w[i := Some (unstackableDuplicate t)])"
        using score_place_unstackable[OF il e t1] by simp
    qed
    then show ?thesis using Some by (simp add: strategy1_def)
  qed
  assume n: "\<not> snd (strategy1 items cs w)" and h: "hasStackSize 1 items"
  from h obtain t where t: "targetUnstackable items = Some t" using hasStackSize_target by blast
  have "\<not> snd (fillUnstackables t cs [1..<length w] w)" using n t by (simp add: strategy1_def)
  then have "\<forall>i \<in> set [1..<length w]. fst (fillUnstackables t cs [1..<length w] w) ! i \<noteq> None"
    by (rule fillUnstackables_not_found) simp
  moreover have "fst (fillUnstackables t cs [1..<length w] w) = w"
    using f t by (simp add: strategy1_def)
  ultimately show "\<forall>i \<in> set [1..<length w]. w ! i \<noteq> None" by simp
qed

lemma settled_search:
  assumes s: "settled cs w"
    and tu: "\<not> hasQA st \<Longrightarrow> hasUnstackable st \<Longrightarrow>
               \<forall>i \<in> set [1..<length w]. w ! i = None \<longrightarrow> cs < signalOf (fillSum w + 1)"
    and b: "\<not> hasQA st \<Longrightarrow> \<forall>x. Some x \<in> set w \<longrightarrow> quantity x = Some 1"
    and st: "optimizedSlots st = w" "currentSignal st = cs" "forcedItems st = forcedIndices w"
      "hasUnstackable st = hasStackSize 1 (itemsAt w (forcedIndices w))"
      "hasSixteen st = hasStackSize 16 (itemsAt w (forcedIndices w))"
      "hasSixtyFour st = hasStackSize 64 (itemsAt w (forcedIndices w))"
  shows "\<exists>st'. runStrategy4 (runStrategy3 (runStrategy2 (runStrategy1 st))) = Inr st'
           \<and> optimizedSlots st' = w \<and> currentSignal st' = cs"
proof -
  define st1 where "st1 = runStrategy1 st"
  define st2 where "st2 = runStrategy2 st1"
  define st3 where "st3 = runStrategy3 st2"
  have w1: "optimizedSlots st1 = w"
    using settled_strategy1(1)[OF tu] st(1) by (auto simp: st1_def runStrategy1_slots st(2))
  have w2: "optimizedSlots st2 = w"
    using settled_strategy2[OF s] w1 by (simp add: st2_def runStrategy2_slots st1_def st(2))
  have w3: "optimizedSlots st3 = w"
    using settled_strategy3[OF s] w2 by (simp add: st3_def runStrategy3_slots st2_def st1_def st(2))
  have fields: "currentSignal st3 = cs" "hasQA st3 = hasQA st" "forcedItems st3 = forcedIndices w"
    "hasUnstackable st3 = hasUnstackable st" "hasSixteen st3 = hasSixteen st"
    "hasSixtyFour st3 = hasSixtyFour st"
    "AreUnstackablesAtThreshold st3 = AreUnstackablesAtThreshold st1"
    using st by (simp_all add: st3_def st2_def st1_def)
  have "runStrategy4 st3 = Inr st3 \<or> runStrategy4 st3 = Inr (st3\<lparr>optimizedSlots := w\<rparr>)"
  proof (cases "duplicationNeeded st3")
    case False
    then show ?thesis by (simp add: runStrategy4_def)
  next
    case True
    then have nq: "\<not> hasQA st" by (simp add: duplicationNeeded_def fields)
    have "strategy4 (forcedItems st3) (currentSignal st3) (optimizedSlots st3) = Inr w"
    proof (cases "allMaxed w")
      case False
      then show ?thesis by (simp add: strategy4_def w3)
    next
      case am: True
      have one: "stack_size x = 1" if "x \<in> set (itemsAt w (forcedIndices w))" for x
      proof -
        from itemsAt_member[OF that] obtain j where j: "j \<in> set (forcedIndices w)" "w ! j = Some x" by auto
        then have jl: "j < length w" and fx: "forceAdjusted x = Some True"
          by (simp_all add: forcedIndices_member isForced_def)
        have mx: "Some x \<in> set w" using jl j(2) by (rule nth_Some_mem)
        then have q: "quantity x = Some 1" using b[OF nq] by simp
        have "\<not> quantityLt x (stack_size x)" using am mx fx by (auto simp: allMaxed_def list_ex_iff)
        moreover have "wfItem x" using s mx by (auto simp: settled_def intro: items_wf)
        ultimately show ?thesis using q by (auto simp: quantityLt_def wfItem_def)
      qed
      have n16: "\<not> hasSixteen st" using one by (auto simp: st(5) hasStackSize_def list_ex_iff)
      have n64: "\<not> hasSixtyFour st" using one by (auto simp: st(6) hasStackSize_def list_ex_iff)
      from True n16 n64 have hu: "hasUnstackable st" and nu: "\<not> AreUnstackablesAtThreshold st1"
        by (auto simp: duplicationNeeded_def fields)
      have "\<not> snd (strategy1 (itemsAt w (forcedIndices w)) cs w)"
        using nu hu nq by (simp add: st1_def runStrategy1_flag st)
      then have full: "\<forall>i \<in> set [1..<length w]. w ! i \<noteq> None"
        using settled_strategy1(2)[OF tu[OF nq hu]] hu by (simp add: st(4))
      have "itemsAt w (forcedIndices w) \<noteq> []" using hu by (auto simp: st(4) dest: hasStackSize_nonempty)
      then obtain source where "itemToDuplicate (itemsAt w (forcedIndices w)) = Inr source"
        using itemToDuplicate_error by (cases "itemToDuplicate (itemsAt w (forcedIndices w))") auto
      then show ?thesis
        using am duplicateStacks_full[OF full] by (simp add: strategy4_def w3 fields)
    qed
    then show ?thesis using True by (simp add: runStrategy4_def)
  qed
  then show ?thesis
    using w3 fields(1) by (auto simp: st3_def st2_def st1_def)
qed

section \<open>The marking loop by identifiers\<close>

lemma markAdjusted_rule:
  "markAdjusted slots
     = map (map_option (\<lambda>item. item\<lparr>forceAdjusted :=
              Some (adjustedBy (map item_id (nonNull slots)) item)\<rparr>)) slots"
  by (simp add: markAdjusted_def Let_def itemCounts_count adjustedBy_def)

lemma finalItems_rule:
  "finalItems slots
     = map (\<lambda>item. item\<lparr>forceAdjusted := Some (adjustedBy (map item_id (nonNull slots)) item),
                        isAdjusted := Some (adjustedBy (map item_id (nonNull slots)) item)\<rparr>)
         (nonNull slots)"
  by (simp add: finalItems_def markAdjusted_rule nonNull_map_option)

lemma adjustedBy_flags [simp]:
  "adjustedBy ids (item\<lparr>forceAdjusted := a\<rparr>) = adjustedBy ids item"
  "adjustedBy ids (item\<lparr>isAdjusted := b\<rparr>) = adjustedBy ids item"
  by (simp_all add: adjustedBy_def quantityGt_def)

lemma adjustedBy_mset: "mset ids = mset ids' \<Longrightarrow> adjustedBy ids = adjustedBy ids'"
proof -
  assume "mset ids = mset ids'"
  then have "count (mset ids) k = count (mset ids') k" for k by simp
  then have "count_list ids k = count_list ids' k" for k by (simp only: count_mset)
  then show ?thesis by (auto simp: adjustedBy_def fun_eq_iff)
qed

lemma raised_ids:
  assumes "raised a b"
  shows "map item_id (nonNull b) = map item_id (nonNull a)"
proof -
  have "map (map_option item_id) b = map (map_option item_id) a"
  proof (rule nth_equalityI)
    show "length (map (map_option item_id) b) = length (map (map_option item_id) a)"
      using assms by (simp add: raised_length)
    fix j assume "j < length (map (map_option item_id) b)"
    then have j: "j < length a" using assms by (simp add: raised_length)
    have "map_option item_id (b ! j) = map_option item_id (a ! j)"
    proof (cases "a ! j")
      case None
      then show ?thesis using raised_None[OF assms j] by simp
    next
      case (Some x)
      from raised_nth'[OF assms j Some] obtain q where "b ! j = Some (x\<lparr>quantity := Some q\<rparr>)" by blast
      then show ?thesis using Some by simp
    qed
    then show "map (map_option item_id) b ! j = map (map_option item_id) a ! j"
      using j assms by (simp add: raised_length)
  qed
  then have "nonNull (map (map_option item_id) b) = nonNull (map (map_option item_id) a)" by simp
  then show ?thesis by (simp only: nonNull_map_option)
qed

lemma raised_trans:
  assumes ab: "raised a b" and bc: "raised b c"
  shows "raised a c"
proof -
  have l: "length b = length a" "length c = length a" using ab bc by (simp_all add: raised_length)
  have "slotRaised (a ! j) (c ! j)" if j: "j < length a" for j
  proof (cases "a ! j")
    case None
    then have "b ! j = None" using raised_None[OF ab j] by simp
    then have "c ! j = None" using raised_None[OF bc, of j] j l by simp
    then show ?thesis using None by simp
  next
    case (Some x)
    from raised_nth'[OF ab j Some] obtain q1 where
      q1: "b ! j = Some (x\<lparr>quantity := Some q1\<rparr>)" "(case quantity x of None \<Rightarrow> 0 | Some q0 \<Rightarrow> q0) \<le> q1"
      by blast
    from raised_nth'[OF bc _ q1(1)] j l obtain q2 where
      q2: "c ! j = Some (x\<lparr>quantity := Some q1, quantity := Some q2\<rparr>)" "q1 \<le> q2"
      by auto
    have "(case quantity x of None \<Rightarrow> 0 | Some q0 \<Rightarrow> q0) \<le> q2" using q1(2) q2(2) by simp
    moreover have "c ! j = Some (x\<lparr>quantity := Some q2\<rparr>)" using q2(1) by simp
    ultimately show ?thesis unfolding Some slotRaised_Some by blast
  qed
  then show ?thesis using l by (simp add: raised_def)
qed

lemma unforced_strategy2:
  "slots ! j = Some x \<Longrightarrow> forceAdjusted x \<noteq> Some True \<Longrightarrow> fst (strategy2 cs slots) ! j = Some x"
  unfolding strategy2_def
  by (subst incrementAll_other) (auto simp: stackablesFromEnd_def)

lemma unforced_strategy3:
  "slots ! j = Some x \<Longrightarrow> forceAdjusted x \<noteq> Some True \<Longrightarrow> fst (strategy3 cs slots) ! j = Some x"
  unfolding strategy3_def
  by (subst incrementAll_other) (auto simp: stackablesFromEnd_def)

lemma unforced_strategy5:
  "slots ! j = Some x \<Longrightarrow> forceAdjusted x \<noteq> Some True \<Longrightarrow> strategy5 cs slots ! j = Some x"
  unfolding strategy5_def
  by (subst incrementAll_other) (auto simp: belowLimitFromEnd_def)

text \<open>With a quantity above 1 in the input, no slot is added: the search only raises
  quantities, and only in forced slots.\<close>

lemma adjusted_search:
  assumes w: "wellFormed slots" and hq: "hasQuantityAdjustments (normalizeSlots slots)"
    and sl: "searchedSlots slots = Inr sl"
  shows "raised (classified slots) sl"
    and "\<And>j x. classified slots ! j = Some x \<Longrightarrow> forceAdjusted x \<noteq> Some True \<Longrightarrow> sl ! j = Some x"
proof -
  define b where "b = classified slots"
  define cs where "cs = calculateSignalStrength slots"
  define s2 where "s2 = afterStrategy2 slots"
  define s3 where "s3 = optimizedSlots (beforeStrategy4 slots)"
  note f = classified_facts[OF w, folded b_def cs_def]
  have csn: "calculateSignalStrength (normalizeSlots slots) = cs" by (simp add: cs_def score_normalizeSlots)
  have s1: "afterStrategy1 slots = b" using hq by (simp add: stage1_adjusted b_def)
  have r12: "raised b s2" using stage2[OF w] by (simp add: s1 s2_def)
  have r23: "raised s2 s3" using stage3[OF w] by (simp add: s2_def s3_def)
  from sl obtain st4 where st4: "runStrategy4 (beforeStrategy4 slots) = Inr st4"
    "sl = strategy5 (currentSignal st4) (optimizedSlots st4)"
    by (rule searched_cases)
  have "\<not> duplicationNeeded (beforeStrategy4 slots)" using hq by (simp add: duplicationNeeded_def)
  then have s4: "optimizedSlots st4 = s3" using runStrategy4_cases(2)[OF st4(1)] by (simp add: s3_def)
  have c4: "currentSignal st4 = cs" using runStrategy4_cases(1)[OF st4(1)] by (simp add: cs_def)
  have sl5: "sl = strategy5 cs s3" using st4(2) s4 c4 by simp
  have wf3: "wfSlots s3"
    using keeps_beforeStrategy4[OF w] f(3) by (auto simp: keeps_def s3_def b_def intro: reach_wfSlots)
  have r35: "raised s3 sl" unfolding sl5 strategy5_def using wf3 by (rule incrementAll_raised)
  show "raised (classified slots) sl"
    using raised_trans[OF raised_trans[OF r12 r23] r35] by (simp add: b_def)
  fix j x assume x: "classified slots ! j = Some x" and n: "forceAdjusted x \<noteq> Some True"
  have x1: "afterStrategy1 slots ! j = Some x" using x by (simp add: s1 b_def)
  have x2: "s2 ! j = Some x"
    using unforced_strategy2[OF x1 n] x1
    by (simp add: s2_def afterStrategy2_def afterStrategy1_def runStrategy2_slots)
  have x3: "s3 ! j = Some x"
    using unforced_strategy3[OF x2 n] x2
    by (simp add: s3_def s2_def afterStrategy2_def beforeStrategy4_def runStrategy3_slots)
  show "sl ! j = Some x" unfolding sl5 using x3 n by (rule unforced_strategy5)
qed

text \<open>A slot of the final working array that the rule marks as adjusted was forced
  during the search.\<close>

lemma forced_of_adjusted:
  assumes w: "wellFormed slots" and sl: "searchedSlots slots = Inr sl"
    and j: "j < length slots" and y: "sl ! j = Some y"
    and a: "adjustedBy (map item_id (nonNull sl)) y"
  shows "forceAdjusted y = Some True"
proof (cases "hasQuantityAdjustments (normalizeSlots slots)")
  case False
  from searched_reach[OF w] sl have r: "reach (classified slots) sl" by simp
  show ?thesis
  proof (rule reach_forced[OF r _ _ y])
    show "j < length sl" using r j by (simp add: reach_def)
    fix k x assume "k < length (classified slots)" "classified slots ! k = Some x"
    then show "forceAdjusted x = Some True"
      using classified_fallback(1)[OF w False, of k x] by simp
  qed
next
  case True
  let ?n = "normalizeSlots slots"
  note r = adjusted_search[OF w True sl]
  have c: "classified slots = markAdjusted ?n" using True by (simp add: classified_def classify_def Let_def)
  have jb: "j < length (classified slots)" using j by simp
  from raised_nth[OF r(1) jb y] obtain x q where x: "classified slots ! j = Some x" "y = x\<lparr>quantity := Some q\<rparr>"
    by blast
  show ?thesis
  proof (rule ccontr)
    assume n: "forceAdjusted y \<noteq> Some True"
    then have nx: "forceAdjusted x \<noteq> Some True" using x(2) by simp
    then have yx: "y = x" using r(2)[OF x(1)] y by simp
    have ids: "map item_id (nonNull sl) = map item_id (nonNull ?n)"
    proof -
      have "map item_id (nonNull sl) = map item_id (nonNull (classified slots))"
        using r(1) by (rule raised_ids)
      also have "\<dots> = map item_id (nonNull ?n)"
        by (simp add: c markAdjusted_rule nonNull_map_option comp_def)
      finally show ?thesis .
    qed
    from x(1) obtain z where z: "?n ! j = Some z"
      "x = z\<lparr>forceAdjusted := Some (adjustedBy (map item_id (nonNull ?n)) z)\<rparr>"
      using j by (cases "?n ! j") (auto simp: c markAdjusted_rule)
    have "\<not> adjustedBy (map item_id (nonNull ?n)) z" using nx z(2) by auto
    then have "\<not> adjustedBy (map item_id (nonNull sl)) y" using yx z(2) ids by simp
    then show False using a by simp
  qed
qed

section \<open>Fill sums along the search\<close>

lemma raised_fill:
  assumes wf: "wfSlots a" and r: "raised a b"
  shows "fillSum a \<le> fillSum b"
proof -
  have "slotFill (a ! j) \<le> slotFill (b ! j)" if j: "j < length a" for j
  proof (cases "a ! j")
    case None
    then show ?thesis using raised_None[OF r j] by simp
  next
    case (Some x)
    from raised_nth'[OF r j Some] obtain q where
      q: "b ! j = Some (x\<lparr>quantity := Some q\<rparr>)" "(case quantity x of None \<Rightarrow> 0 | Some q0 \<Rightarrow> q0) \<le> q"
      by blast
    have wx: "wfItem x" using wfSlots_nth[OF wf j Some] .
    then obtain q0 where q0: "quantity x = Some q0" "1 \<le> q0" "0 < stack_size x"
      by (auto simp: wfItem_def split: option.splits)
    have "fillOf x = of_int q0 / of_int (stack_size x)"
      using q0 wfItem_fill(1)[OF wx] by (simp add: fillOf_def quantityOr1_def)
    moreover have "fillOf (x\<lparr>quantity := Some q\<rparr>) = of_int q / of_int (stack_size x)"
      using q(2) q0 wfItem_fill(1)[OF wx] by (simp add: fillOf_def quantityOr1_def stackLimit_def)
    ultimately show ?thesis using Some q q0 by (simp add: slotFill_def divide_right_mono)
  qed
  then have "\<And>j. j < length (map slotFill a) \<longrightarrow> map slotFill a ! j \<le> map slotFill b ! j"
    using r by (simp add: raised_length)
  moreover have "length (map slotFill a) = length (map slotFill b)" using r by (simp add: raised_length)
  ultimately show ?thesis unfolding fillSum_def by (intro sum_list_mono2)
qed

lemma fillSum_duplicateStacks:
  assumes ws: "wfItem source" and idxs: "\<forall>i \<in> set idxs. i < length slots"
  shows "fillSum slots \<le> fillSum (duplicateStacks source cs idxs slots)"
proof -
  let ?P = "\<lambda>t. length t = length slots \<and> fillSum slots \<le> fillSum t"
  have f0: "0 \<le> fillOf (stackDuplicate source)" using wfItem_fill(5)[OF ws] by simp
  have f1: "0 \<le> fillOf ((stackDuplicate source)\<lparr>quantity := Some 1\<rparr>)"
    using ws by (auto simp: fillOf_def quantityOr1_def stackLimit_def stackDuplicate_def wfItem_def)
  have "?P (duplicateStacks source cs idxs slots)"
  proof (rule duplicateStacks_invariant[where P = ?P and Q = ?P])
    show "?P slots" by simp
  next
    fix t i assume p: "?P t" and i: "i \<in> set idxs" and e: "t ! i = None"
    have il: "i < length t" using p i idxs by simp
    show "?P (t[i := Some (stackDuplicate source)])"
      using p fillSum_place[OF il e, of "stackDuplicate source"] f0 by simp
  next
    fix t i assume p: "?P t" and i: "i \<in> set idxs" and e: "t ! i = None"
    have il: "i < length t" using p i idxs by simp
    show "?P (t[i := Some ((stackDuplicate source)\<lparr>quantity := Some 1\<rparr>)])"
      using p fillSum_place[OF il e, of "(stackDuplicate source)\<lparr>quantity := Some 1\<rparr>"] f1 by simp
  next
    fix t assume "?P t" then show "?P t" .
  qed
  then show ?thesis by simp
qed

text \<open>Fill sums and empty slots from the end of Strategy 1 to the end of the search.\<close>

lemma after_stage1:
  assumes w: "wellFormed slots" and sl: "searchedSlots slots = Inr sl"
  shows "fillSum (afterStrategy1 slots) \<le> fillSum sl"
    and "\<forall>i \<in> set [1..<length slots]. afterStrategy1 slots ! i \<noteq> None
           \<Longrightarrow> \<forall>i \<in> set [1..<length slots]. sl ! i \<noteq> None"
proof -
  define b where "b = classified slots"
  define cs where "cs = calculateSignalStrength slots"
  define s1 where "s1 = afterStrategy1 slots"
  define s2 where "s2 = afterStrategy2 slots"
  define s3 where "s3 = optimizedSlots (beforeStrategy4 slots)"
  note f = classified_facts[OF w, folded b_def cs_def]
  have lb: "length b = length slots" by (simp add: b_def)
  have k: "keeps b cs s1" "keeps b cs s2" "keeps b cs s3"
    using keeps_stages[OF w] keeps_beforeStrategy4[OF w] by (simp_all add: b_def cs_def s1_def s2_def s3_def)
  then have r: "reach b s1" "reach b s2" "reach b s3" by (simp_all add: keeps_def)
  then have wf: "wfSlots s1" "wfSlots s2" "wfSlots s3" using f(3) by (auto intro: reach_wfSlots)
  have len: "length s1 = length slots" "length s2 = length slots" "length s3 = length slots"
    using r lb by (simp_all add: reach_def)
  have r12: "raised s1 s2" using stage2[OF w] by (simp add: s1_def s2_def)
  have r23: "raised s2 s3" using stage3[OF w] by (simp add: s2_def s3_def)
  from sl obtain st4 where st4: "runStrategy4 (beforeStrategy4 slots) = Inr st4"
    "sl = strategy5 (currentSignal st4) (optimizedSlots st4)"
    by (rule searched_cases)
  define s4 where "s4 = optimizedSlots st4"
  have c4: "currentSignal st4 = cs" using runStrategy4_cases(1)[OF st4(1)] by (simp add: cs_def)
  obtain st where "runStrategy4 (beforeStrategy4 slots) = Inr st"
     "keeps (classified slots) (calculateSignalStrength slots) (optimizedSlots st)"
    using keeps_runStrategy4[OF w] by blast
  then have r4: "reach b s4" using st4(1) by (simp add: b_def cs_def s4_def keeps_def)
  have wf4: "wfSlots s4" using reach_wfSlots[OF r4 f(3)] .
  have r45: "raised s4 sl" unfolding st4(2) c4 strategy5_def s4_def[symmetric]
    using wf4 by (rule incrementAll_raised)
  have l4: "length s4 = length slots" using r4 lb by (simp add: reach_def)
  have d: "s4 = s3 \<or> (\<exists>source. wfItem source \<and> s4 = duplicateStacks source cs [1..<length s3] s3)"
  proof (cases "duplicationNeeded (beforeStrategy4 slots) \<and> allMaxed s3")
    case False
    then show ?thesis using runStrategy4_cases(2)[OF st4(1)] by (auto simp: s3_def s4_def)
  next
    case True
    from runStrategy4_cases(3)[OF st4(1)] True obtain source where
      src: "itemToDuplicate (itemsAt s3 (forcedIndices b)) = Inr source"
      and s4: "s4 = duplicateStacks source cs [1..<length s3] s3"
      by (auto simp: s3_def s4_def b_def cs_def)
    from itemsAt_member[OF itemToDuplicate_member[OF src]] obtain k where
      k: "s3 ! k = Some source" "k \<in> set (forcedIndices b)" by auto
    have "k < length s3" using k(2) lb len by (simp add: forcedIndices_member)
    then have "wfItem source" using wfSlots_nth[OF wf(3) _ k(1)] by simp
    then show ?thesis using s4 by blast
  qed
  have "fillSum s3 \<le> fillSum s4"
    using d fillSum_duplicateStacks[of _ "[1..<length s3]" s3 cs] by auto
  then show "fillSum (afterStrategy1 slots) \<le> fillSum sl"
    using raised_fill[OF wf(1) r12] raised_fill[OF wf(2) r23] raised_fill[OF wf4 r45]
    by (simp add: s1_def)
  assume full: "\<forall>i \<in> set [1..<length slots]. afterStrategy1 slots ! i \<noteq> None"
  have full3: "\<forall>i \<in> set [1..<length s3]. s3 ! i \<noteq> None"
  proof
    fix i assume "i \<in> set [1..<length s3]"
    then have i: "i \<in> set [1..<length slots]" "i < length slots" using len by simp_all
    then have "s1 ! i \<noteq> None" using full by (simp add: s1_def)
    then have "s2 ! i \<noteq> None" using raised_None[OF r12, of i] i len by simp
    then show "s3 ! i \<noteq> None" using raised_None[OF r23, of i] i len by simp
  qed
  then have "s4 = s3" using d duplicateStacks_full[OF full3] by auto
  show "\<forall>i \<in> set [1..<length slots]. sl ! i \<noteq> None"
  proof
    fix i assume "i \<in> set [1..<length slots]"
    then have i: "i \<in> set [1..<length s3]" "i < length s4" using len l4 by simp_all
    then have "s4 ! i \<noteq> None" using full3 \<open>s4 = s3\<close> by simp
    then show "sl ! i \<noteq> None" using raised_None[OF r45 i(2)] by simp
  qed
qed

text \<open>Without a quantity above 1 in the input and with an unstackable in the working
  array, one more unstackable in an empty slot raises the signal.\<close>

lemma unstackable_tight:
  assumes w: "wellFormed slots" and nq: "\<not> hasQuantityAdjustments (normalizeSlots slots)"
    and sl: "searchedSlots slots = Inr sl"
    and j: "j < length slots" and u: "sl ! j = Some u" "stack_size u = 1"
  shows "\<forall>i \<in> set [1..<length slots]. sl ! i = None \<longrightarrow>
           calculateSignalStrength slots < signalOf (fillSum sl + 1)"
proof -
  define b where "b = classified slots"
  define cs where "cs = calculateSignalStrength slots"
  define s1 where "s1 = afterStrategy1 slots"
  note f = classified_facts[OF w, folded b_def cs_def]
  have csn: "calculateSignalStrength (normalizeSlots slots) = cs" by (simp add: cs_def score_normalizeSlots)
  have lb: "length b = length slots" by (simp add: b_def)
  from searched_reach[OF w] sl have r: "reach b sl" by (simp add: b_def)
  have jl: "j < length sl" using r j lb by (simp add: reach_def)
  from reach_hasId[OF r jl u(1)] obtain item where
    item: "Some item \<in> set b" "stack_size item = 1" using u(2) by auto
  then obtain k where k: "k < length b" "b ! k = Some item" by (auto simp: in_set_conv_nth)
  have "forceAdjusted item = Some True"
    using classified_fallback(1)[OF w nq, of k item] k lb by (simp add: b_def)
  then have "k \<in> set (forcedIndices b)" using k by (simp add: forcedIndices_member isForced_def)
  then have "item \<in> set (itemsAt b (forcedIndices b))" using k(2) by (rule itemsAt_memberI)
  then have hu: "hasStackSize 1 (itemsAt b (forcedIndices b))"
    using item(2) by (auto simp: hasStackSize_def list_ex_iff)
  then obtain t where t: "targetUnstackable (itemsAt b (forcedIndices b)) = Some t"
    using hasStackSize_target by blast
  have t1: "stack_size t = 1" using targetUnstackable_member(2)[OF t] .
  let ?run = "fillUnstackables t cs [1..<length b] b"
  have s1: "s1 = fst ?run"
    using hu nq t by (simp add: s1_def afterStrategy1_def runStrategy1_slots strategy1_def b_def csn)
  have l1: "length s1 = length b" using fillUnstackables_frame[of t cs "[1..<length b]" b] by (simp add: s1)
  show ?thesis
  proof (cases "snd ?run")
    case True
    from fillUnstackables_found[OF True] obtain i where
      i: "i \<in> set [1..<length b]" "s1 ! i = None"
         "cs < calculateSignalStrength (s1[i := Some (unstackableDuplicate t)])"
      by (auto simp: s1)
    have il: "i < length s1" using i(1) l1 by simp
    have "cs < signalOf (fillSum s1 + 1)" using i(3) score_place_unstackable[OF il i(2) t1] by simp
    moreover have "fillSum s1 \<le> fillSum sl" using after_stage1(1)[OF w sl] by (simp add: s1_def)
    then have "signalOf (fillSum s1 + 1) \<le> signalOf (fillSum sl + 1)" by (intro signalOf_mono) simp
    ultimately show ?thesis by (simp add: cs_def)
  next
    case False
    have "\<forall>i \<in> set [1..<length b]. s1 ! i \<noteq> None"
      unfolding s1 using False by (intro fillUnstackables_not_found) simp_all
    then have "\<forall>i \<in> set [1..<length slots]. afterStrategy1 slots ! i \<noteq> None"
      using lb by (simp add: s1_def)
    from after_stage1(2)[OF w sl this] show ?thesis by blast
  qed
qed

text \<open>A quantity above 1 in the input is still above 1 at the end of the search.\<close>

lemma adjustments_stay:
  assumes w: "wellFormed slots" and hq: "hasQuantityAdjustments (normalizeSlots slots)"
    and sl: "searchedSlots slots = Inr sl"
  shows "\<exists>j < length slots. \<exists>x. sl ! j = Some x \<and> quantityGt x 1"
proof -
  let ?n = "normalizeSlots slots"
  from hq obtain s where s: "s \<in> set ?n"
    "(case s of None \<Rightarrow> 0 | Some item \<Rightarrow> (case quantity item of None \<Rightarrow> 0 | Some q \<Rightarrow> q)) > 1"
    by (auto simp: hasQuantityAdjustments_def list_ex_iff)
  from s(2) obtain z q where z: "s = Some z" "quantity z = Some q" "1 < q"
    by (auto split: option.splits)
  from s(1) z(1) obtain j where j: "j < length slots" "?n ! j = Some z"
    by (auto simp: in_set_conv_nth)
  have c: "classified slots = markAdjusted ?n" using hq by (simp add: classified_def classify_def Let_def)
  have "classified slots ! j = Some (z\<lparr>forceAdjusted := Some (adjustedBy (map item_id (nonNull ?n)) z)\<rparr>)"
    using j by (simp add: c markAdjusted_rule)
  from raised_nth'[OF adjusted_search(1)[OF w hq sl] _ this] j obtain q' where
    "sl ! j = Some (z\<lparr>forceAdjusted := Some (adjustedBy (map item_id (nonNull ?n)) z), quantity := Some q'\<rparr>)"
    "q \<le> q'"
    using z(2) by auto
  then show ?thesis using j(1) z(3) by (auto simp: quantityGt_def)
qed

section \<open>The optimizer on its own result\<close>

lemma normalizeSlots_fixed:
  assumes "\<And>x. Some x \<in> set slots \<Longrightarrow> (\<exists>q. quantity x = Some q \<and> q \<noteq> 0) \<and> originalIndex x \<noteq> None"
  shows "normalizeSlots slots = slots"
proof (rule nth_equalityI)
  show "length (normalizeSlots slots) = length slots" by simp
  fix j assume "j < length (normalizeSlots slots)"
  then have j: "j < length slots" by simp
  show "normalizeSlots slots ! j = slots ! j"
  proof (cases "slots ! j")
    case None
    then show ?thesis using j by (simp add: normalizeSlots_nth)
  next
    case (Some x)
    then have "Some x \<in> set slots" using j by (intro nth_Some_mem)
    from assms[OF this] obtain q oi where "quantity x = Some q" "q \<noteq> 0" "originalIndex x = Some oi"
      by auto
    then have "normalizeSlot j x = x" by (simp add: normalizeSlot_def quantityOr1_def)
    then show ?thesis using Some j by (simp add: normalizeSlots_nth)
  qed
qed

lemma reach_originalIndex:
  assumes r: "reach (classified slots) sl" and j: "j < length slots" and y: "sl ! j = Some y"
  shows "originalIndex y \<noteq> None"
proof -
  have jb: "j < length (classified slots)" using j by simp
  from r jb show ?thesis
  proof (cases rule: reach_cases)
    case (original item q0 q)
    from classified_nth[OF j] original(1) obtain b z where
      "item = (normalizeSlot j z)\<lparr>forceAdjusted := Some b\<rparr>"
      by (cases "slots ! j") auto
    then show ?thesis using original(5) y by (auto simp: normalizeSlot_def)
  next
    case empty
    then show ?thesis using y by simp
  next
    case (clone x)
    then show ?thesis using y by (auto simp: cloneOf_def)
  qed
qed

lemma markAdjusted_markAll: "markAdjusted (markAll slots) = markAdjusted slots"
  by (simp add: markAdjusted_rule markAll_def nonNull_map_option comp_def option.map_comp)

lemma fillSum_markAll: "fillSum (markAll slots) = fillSum slots"
proof -
  have "slotFill (map_option (\<lambda>item. item\<lparr>forceAdjusted := Some True\<rparr>) s) = slotFill s" for s
    by (cases s) (simp_all add: slotFill_def fillOf_def quantityOr1_def stackLimit_def)
  then show ?thesis by (simp add: fillSum_def markAll_def comp_def)
qed

lemma wfSlots_markAll: "wfSlots slots \<Longrightarrow> wfSlots (markAll slots)"
proof (rule wfSlotsI)
  fix j item assume wf: "wfSlots slots" and j: "j < length (markAll slots)"
    and i: "markAll slots ! j = Some item"
  then obtain x where x: "slots ! j = Some x" "item = x\<lparr>forceAdjusted := Some True\<rparr>"
    by (cases "slots ! j") (auto simp: markAll_nth_eq)
  have "wfItem x" using wfSlots_nth[OF wf _ x(1)] j by simp
  then show "wfItem item" using x(2) by (auto simp: wfItem_def split: option.splits)
qed

lemma nonNull_full:
  "length (nonNull xs) = length xs \<Longrightarrow> \<forall>x \<in> set xs. x \<noteq> None"
proof (induction xs)
  case Nil
  then show ?case by simp
next
  case (Cons a xs)
  show ?case
  proof (cases a)
    case None
    then have "length (nonNull xs) = Suc (length xs)" using Cons.prems by simp
    then show ?thesis using length_nonNull_le[of xs] by simp
  next
    case (Some v)
    then show ?thesis using Cons by simp
  qed
qed

lemma full_container:
  assumes "length (nonNull slots) = 53" "length slots = 54" "slots ! 0 = None"
  shows "\<forall>i \<in> set [1..<length slots]. slots ! i \<noteq> None"
proof -
  from assms(2) obtain a xs where s: "slots = a # xs" by (cases slots) auto
  then have a: "a = None" using assms(3) by simp
  have "length (nonNull xs) = length xs" using assms(1,2) s a by simp
  then have "\<forall>x \<in> set xs. x \<noteq> None" by (rule nonNull_full)
  then have "xs ! k \<noteq> None" if "k < length xs" for k using that by (metis nth_mem)
  then show ?thesis using s by (auto simp: nth_Cons split: nat.splits)
qed

lemma hasQA_iff:
  "hasQuantityAdjustments slots \<longleftrightarrow> (\<exists>x. Some x \<in> set slots \<and> quantityGt x 1)"
proof
  assume "hasQuantityAdjustments slots"
  then obtain s where s: "s \<in> set slots"
    "(case s of None \<Rightarrow> 0 | Some item \<Rightarrow> (case quantity item of None \<Rightarrow> 0 | Some q \<Rightarrow> q)) > 1"
    by (auto simp: hasQuantityAdjustments_def list_ex_iff)
  from s(2) obtain z q where "s = Some z" "quantity z = Some q" "1 < q"
    by (auto split: option.splits)
  then show "\<exists>x. Some x \<in> set slots \<and> quantityGt x 1"
    using s(1) by (auto simp: quantityGt_def)
next
  assume "\<exists>x. Some x \<in> set slots \<and> quantityGt x 1"
  then obtain x where x: "Some x \<in> set slots" "quantityGt x 1" by blast
  then have "(case Some x of None \<Rightarrow> 0 | Some item \<Rightarrow> (case quantity item of None \<Rightarrow> 0 | Some q \<Rightarrow> q)) > 1"
    by (auto simp: quantityGt_def split: option.splits)
  then show "hasQuantityAdjustments slots"
    using x(1) unfolding hasQuantityAdjustments_def list_ex_iff by blast
qed

text \<open>The occupied slots of the result are the occupied slots of the final working array
  with their flags set by the rule.\<close>

lemma result_items:
  assumes w: "wellFormed slots" and sl: "searchedSlots slots = Inr sl" and out: "layout sl = Inr out"
    and x: "Some x \<in> set out"
  shows "\<exists>j y. j < length slots \<and> sl ! j = Some y \<and>
           x = y\<lparr>forceAdjusted := Some (adjustedBy (map item_id (nonNull sl)) y),
                   isAdjusted := Some (adjustedBy (map item_id (nonNull sl)) y)\<rparr>"
proof -
  from searched_reach[OF w] sl have r: "reach (classified slots) sl" by simp
  have l: "length sl = length slots" using r by (simp add: reach_def)
  have "x \<in> set (nonNull out)" using x by (simp add: set_nonNull)
  then have "x \<in> set (finalItems sl)" using mset_eq_setD[OF layout_items(1)[OF out]] by simp
  then obtain y where y: "y \<in> set (nonNull sl)"
    "x = y\<lparr>forceAdjusted := Some (adjustedBy (map item_id (nonNull sl)) y),
            isAdjusted := Some (adjustedBy (map item_id (nonNull sl)) y)\<rparr>"
    by (auto simp: finalItems_rule)
  from y(1) have "Some y \<in> set sl" by (simp add: set_nonNull)
  then obtain j where "j < length sl" "sl ! j = Some y" by (auto simp: in_set_conv_nth)
  then show ?thesis using y(2) l by auto
qed

lemma result_normal:
  assumes w: "wellFormed slots" and sl: "searchedSlots slots = Inr sl" and out: "layout sl = Inr out"
  shows "normalizeSlots out = out"
proof (rule normalizeSlots_fixed)
  fix x assume "Some x \<in> set out"
  from result_items[OF w sl out this] obtain j y where
    y: "j < length slots" "sl ! j = Some y"
      "x = y\<lparr>forceAdjusted := Some (adjustedBy (map item_id (nonNull sl)) y),
              isAdjusted := Some (adjustedBy (map item_id (nonNull sl)) y)\<rparr>" by blast
  from searched_reach[OF w] sl have r: "reach (classified slots) sl" by simp
  have "wfItem y"
    using reach_wfSlots[OF r classified_facts(3)[OF w]] y(1,2) r
    by (auto simp: reach_def dest: wfSlots_nth)
  then obtain q where "quantity y = Some q" "1 \<le> q" by (auto simp: wfItem_def split: option.splits)
  moreover have "originalIndex y \<noteq> None" using reach_originalIndex[OF r y(1,2)] .
  ultimately show "(\<exists>q. quantity x = Some q \<and> q \<noteq> 0) \<and> originalIndex x \<noteq> None"
    using y(3) by auto
qed

lemma result_ids:
  assumes out: "layout sl = Inr out"
  shows "adjustedBy (map item_id (nonNull out)) = adjustedBy (map item_id (nonNull sl))"
proof (rule adjustedBy_mset)
  show "mset (map item_id (nonNull out)) = mset (map item_id (nonNull sl))"
    using out by (rule ids_layout)
qed

lemma result_marked:
  assumes w: "wellFormed slots" and sl: "searchedSlots slots = Inr sl" and out: "layout sl = Inr out"
  shows "markAdjusted out = out"
proof -
  have "map_option (\<lambda>item. item\<lparr>forceAdjusted := Some (adjustedBy (map item_id (nonNull out)) item)\<rparr>) s = s"
    if "s \<in> set out" for s
  proof (cases s)
    case None
    then show ?thesis by simp
  next
    case (Some x)
    from result_items[OF w sl out] that Some obtain y where
      y: "x = y\<lparr>forceAdjusted := Some (adjustedBy (map item_id (nonNull sl)) y),
              isAdjusted := Some (adjustedBy (map item_id (nonNull sl)) y)\<rparr>" by blast
    show ?thesis unfolding Some result_ids[OF out] by (simp add: y)
  qed
  then show ?thesis unfolding markAdjusted_rule by (intro map_idI)
qed

lemma result_items_conv:
  assumes out: "layout sl = Inr out" and y: "Some y \<in> set sl"
  shows "Some (y\<lparr>forceAdjusted := Some (adjustedBy (map item_id (nonNull sl)) y),
                  isAdjusted := Some (adjustedBy (map item_id (nonNull sl)) y)\<rparr>) \<in> set out"
proof -
  have "y \<in> set (nonNull sl)" using y by (simp add: set_nonNull)
  then have "y\<lparr>forceAdjusted := Some (adjustedBy (map item_id (nonNull sl)) y),
              isAdjusted := Some (adjustedBy (map item_id (nonNull sl)) y)\<rparr> \<in> set (finalItems sl)"
    unfolding finalItems_rule set_map by (rule rev_image_eqI) simp_all
  then have "y\<lparr>forceAdjusted := Some (adjustedBy (map item_id (nonNull sl)) y),
              isAdjusted := Some (adjustedBy (map item_id (nonNull sl)) y)\<rparr> \<in> set (nonNull out)"
    using mset_eq_setD[OF layout_items(1)[OF out]] by simp
  then show ?thesis by (simp add: set_nonNull)
qed

text \<open>Without a quantity above 1 in the result, there was none in the input.\<close>

lemma result_unadjusted:
  assumes w: "wellFormed slots" and sl: "searchedSlots slots = Inr sl" and out: "layout sl = Inr out"
    and n: "\<not> hasQuantityAdjustments out"
  shows "\<not> hasQuantityAdjustments (normalizeSlots slots)"
proof
  assume "hasQuantityAdjustments (normalizeSlots slots)"
  from adjustments_stay[OF w this sl] obtain j y where y: "j < length slots" "sl ! j = Some y" "quantityGt y 1"
    by blast
  from searched_reach[OF w] sl have "length sl = length slots" by (simp add: reach_def)
  then have "Some y \<in> set sl" using y(1,2) by (intro nth_Some_mem[of j]) simp_all
  let ?x = "y\<lparr>forceAdjusted := Some (adjustedBy (map item_id (nonNull sl)) y),
                  isAdjusted := Some (adjustedBy (map item_id (nonNull sl)) y)\<rparr>"
  have "Some ?x \<in> set out" using out \<open>Some y \<in> set sl\<close> by (rule result_items_conv)
  moreover have "quantityGt ?x 1" using y(3) by (simp add: quantityGt_def)
  ultimately have "\<exists>x. Some x \<in> set out \<and> quantityGt x 1" by blast
  then show False using n by (simp add: hasQA_iff)
qed

lemma classify_result:
  assumes w: "wellFormed slots" and sl: "searchedSlots slots = Inr sl" and out: "layout sl = Inr out"
  shows "classify out = (if hasQuantityAdjustments out then out else markAll out)"
  by (simp add: classify_def Let_def result_marked[OF w sl out])

lemma classify_result_nth:
  assumes w: "wellFormed slots" and sl: "searchedSlots slots = Inr sl" and out: "layout sl = Inr out"
    and i: "i < length out" and x: "classify out ! i = Some x'"
  shows "\<exists>x. out ! i = Some x \<and> stack_size x' = stack_size x \<and> quantity x' = quantity x
           \<and> (hasQuantityAdjustments out \<longrightarrow> x' = x)"
proof (cases "hasQuantityAdjustments out")
  case True
  then have "classify out = out" by (simp add: classify_result[OF w sl out])
  then have "out ! i = Some x'" using x by simp
  then show ?thesis by blast
next
  case False
  then have "classify out = markAll out" by (simp add: classify_result[OF w sl out])
  then have m: "markAll out ! i = Some x'" using x by simp
  have e: "markAll out ! i = map_option (\<lambda>item. item\<lparr>forceAdjusted := Some True\<rparr>) (out ! i)"
    using i by (rule markAll_nth_eq)
  show ?thesis
  proof (cases "out ! i")
    case None
    then show ?thesis using m e by simp
  next
    case (Some z)
    then have "x' = z\<lparr>forceAdjusted := Some True\<rparr>" using m e by simp
    then have "stack_size x' = stack_size z" "quantity x' = quantity z" by simp_all
    then show ?thesis using Some False by blast
  qed
qed

lemma wfSlots_result:
  assumes w: "wellFormed slots" and sl: "searchedSlots slots = Inr sl" and out: "layout sl = Inr out"
  shows "wfSlots out"
proof (rule wfSlotsI)
  fix i x assume "i < length out" "out ! i = Some x"
  then have "Some x \<in> set out" by (rule nth_Some_mem)
  from result_items[OF w sl out this] obtain j y where
    y: "j < length slots" "sl ! j = Some y"
      "x = y\<lparr>forceAdjusted := Some (adjustedBy (map item_id (nonNull sl)) y),
              isAdjusted := Some (adjustedBy (map item_id (nonNull sl)) y)\<rparr>" by blast
  from searched_reach[OF w] sl have r: "reach (classified slots) sl" by simp
  have "wfItem y"
    using reach_wfSlots[OF r classified_facts(3)[OF w]] y(1,2) r
    by (auto simp: reach_def dest: wfSlots_nth)
  then show "wfItem x" using y(3) by (simp add: wfItem_flags)
qed

lemma fillSum_classify_result:
  assumes w: "wellFormed slots" and sl: "searchedSlots slots = Inr sl" and out: "layout sl = Inr out"
  shows "fillSum (classify out) = fillSum sl"
  using fillSum_layout[OF out] by (simp add: classify_result[OF w sl out] fillSum_markAll)

text \<open>The classified result is settled: the second search changes nothing.\<close>

lemma result_settled:
  assumes w: "wellFormed slots" and sl: "searchedSlots slots = Inr sl" and out: "layout sl = Inr out"
  shows "settled (calculateSignalStrength slots) (classify out)"
  unfolding settled_def
proof (intro conjI allI impI)
  show "wfSlots (classify out)"
    using wfSlots_result[OF w sl out] by (simp add: classify_result[OF w sl out] wfSlots_markAll)
  fix i x'
  assume i: "i < length (classify out)" and x': "classify out ! i = Some x'"
    and fx: "forceAdjusted x' = Some True" and qx: "quantityLt x' (stack_size x')"
  from searched_reach[OF w] sl have r: "reach (classified slots) sl" by simp
  have il: "i < length out" using i by simp
  from classify_result_nth[OF w sl out il x'] obtain x where
    x: "out ! i = Some x" "stack_size x' = stack_size x" "quantity x' = quantity x"
       "hasQuantityAdjustments out \<longrightarrow> x' = x" by blast
  have "Some x \<in> set out" using il x(1) by (rule nth_Some_mem)
  from result_items[OF w sl out this] obtain j y where
    y: "j < length slots" "sl ! j = Some y"
      "x = y\<lparr>forceAdjusted := Some (adjustedBy (map item_id (nonNull sl)) y),
              isAdjusted := Some (adjustedBy (map item_id (nonNull sl)) y)\<rparr>" by blast
  have fy: "forceAdjusted y = Some True"
  proof (cases "hasQuantityAdjustments out")
    case True
    then have "forceAdjusted x = Some True" using x(4) fx by simp
    then have "adjustedBy (map item_id (nonNull sl)) y" using y(3) by simp
    then show ?thesis using forced_of_adjusted[OF w sl y(1,2)] by simp
  next
    case False
    have nq: "\<not> hasQuantityAdjustments (normalizeSlots slots)"
      using result_unadjusted[OF w sl out False] .
    show ?thesis
    proof (rule reach_forced[OF r _ _ y(2)])
      show "j < length sl" using r y(1) by (simp add: reach_def)
      fix k z assume "k < length (classified slots)" "classified slots ! k = Some z"
      then show "forceAdjusted z = Some True"
        using classified_fallback(1)[OF w nq, of k z] by simp
    qed
  qed
  have "quantityLt y (stack_size y)" using qx x(2,3) y(3) by (simp add: quantityLt_def)
  from final_tight[OF w sl y(1,2) fy this]
  show "calculateSignalStrength slots < signalOf (fillSum (classify out) + 1 / of_int (stack_size x'))"
    using x(2) y(3) by (simp add: fillSum_classify_result[OF w sl out])
qed

lemma result_unit_quantities:
  assumes w: "wellFormed slots" and sl: "searchedSlots slots = Inr sl" and out: "layout sl = Inr out"
    and n: "\<not> hasQuantityAdjustments out"
  shows "\<forall>x. Some x \<in> set (classify out) \<longrightarrow> quantity x = Some 1"
proof (intro allI impI)
  fix x' assume "Some x' \<in> set (classify out)"
  then obtain i where i: "i < length out" "classify out ! i = Some x'"
    by (auto simp: in_set_conv_nth)
  from classify_result_nth[OF w sl out i] obtain x where
    x: "out ! i = Some x" "quantity x' = quantity x" by blast
  have mx: "Some x \<in> set out" using i(1) x(1) by (rule nth_Some_mem)
  have "wfItem x" using wfSlots_nth[OF wfSlots_result[OF w sl out] i(1) x(1)] .
  then obtain q where q: "quantity x = Some q" "1 \<le> q" by (auto simp: wfItem_def split: option.splits)
  have "\<not> quantityGt x 1" using n mx by (auto simp: hasQA_iff)
  then show "quantity x' = Some 1" using q x(2) by (simp add: quantityGt_def)
qed

lemma result_unstackable_tight:
  assumes w: "wellFormed slots" and sl: "searchedSlots slots = Inr sl" and out: "layout sl = Inr out"
    and n: "\<not> hasQuantityAdjustments out"
    and h: "hasStackSize 1 (itemsAt (classify out) (forcedIndices (classify out)))"
  shows "\<forall>i \<in> set [1..<length (classify out)]. classify out ! i = None \<longrightarrow>
           calculateSignalStrength slots < signalOf (fillSum (classify out) + 1)"
proof (intro ballI impI)
  fix i assume i: "i \<in> set [1..<length (classify out)]" and e: "classify out ! i = None"
  from searched_reach[OF w] sl have r: "reach (classified slots) sl" by simp
  note f = classified_facts[OF w]
  have ls: "length sl = 54" "sl ! 0 = None" "length slots = 54"
    using r f reach_head[OF r] by (simp_all add: reach_def)
  have lo: "length out = 54" "out ! 0 = None" using layout_items(2,3)[OF out] by simp_all
  have nq: "\<not> hasQuantityAdjustments (normalizeSlots slots)"
    using result_unadjusted[OF w sl out n] .
  from hasStackSize_member[OF h] obtain x' where
    x': "x' \<in> set (itemsAt (classify out) (forcedIndices (classify out)))" "stack_size x' = 1" by blast
  from itemsAt_member[OF x'(1)] obtain k where
    k: "k \<in> set (forcedIndices (classify out))" "classify out ! k = Some x'" by blast
  have kl: "k < length out" using k(1) by (simp add: forcedIndices_member)
  from classify_result_nth[OF w sl out kl k(2)] obtain x where
    x: "out ! k = Some x" "stack_size x' = stack_size x" by blast
  have "Some x \<in> set out" using kl x(1) by (rule nth_Some_mem)
  from result_items[OF w sl out this] obtain j y where
    y: "j < length slots" "sl ! j = Some y"
      "x = y\<lparr>forceAdjusted := Some (adjustedBy (map item_id (nonNull sl)) y),
              isAdjusted := Some (adjustedBy (map item_id (nonNull sl)) y)\<rparr>" by blast
  have sy: "stack_size y = 1" using x'(2) x(2) y(3) by simp
  note t = unstackable_tight[OF w nq sl y(1,2) sy]
  have oi: "out ! i = None"
    using e i by (cases "out ! i") (simp_all add: classify_result[OF w sl out] markAll_nth_eq split: if_splits)
  have "\<exists>i' \<in> set [1..<length slots]. sl ! i' = None"
  proof (rule ccontr)
    assume "\<not> (\<exists>i' \<in> set [1..<length slots]. sl ! i' = None)"
    then have "\<forall>i \<in> set [1..<54]. sl ! i \<noteq> None" using ls by simp
    then have "occupied sl = 53" using ls by (intro occupied_full_container) simp_all
    then have "length (nonNull out) = 53"
      using arg_cong[OF layout_items(1)[OF out], of size] by (simp add: occupied_def)
    then have "\<forall>i \<in> set [1..<length out]. out ! i \<noteq> None" using lo by (rule full_container)
    moreover have "i \<in> set [1..<length out]" using i by simp
    ultimately show False using oi by blast
  qed
  then obtain i' where "i' \<in> set [1..<length slots]" "sl ! i' = None" by blast
  then have "calculateSignalStrength slots < signalOf (fillSum sl + 1)" using t by blast
  then show "calculateSignalStrength slots < signalOf (fillSum (classify out) + 1)"
    by (simp only: fillSum_classify_result[OF w sl out])
qed

lemma searched_result:
  assumes w: "wellFormed slots" and sl: "searchedSlots slots = Inr sl" and out: "layout sl = Inr out"
  shows "searchedSlots out = Inr (classify out)"
proof -
  define cs where "cs = calculateSignalStrength slots"
  have n: "normalizeSlots out = out" using result_normal[OF w sl out] .
  have c: "classified out = classify out" by (simp add: classified_def n)
  from searched_keeps[OF w] sl have "calculateSignalStrength sl = cs" by (simp add: keeps_def cs_def)
  then have so: "calculateSignalStrength out = cs" using score_layout[OF out] by simp
  have s: "settled cs (classify out)" using result_settled[OF w sl out] by (simp add: cs_def)
  have "\<exists>st'. runStrategy4 (runStrategy3 (runStrategy2 (runStrategy1 (initialSearch out)))) = Inr st'
           \<and> optimizedSlots st' = classify out \<and> currentSignal st' = cs"
  proof (rule settled_search[OF s])
    assume "\<not> hasQA (initialSearch out)" "hasUnstackable (initialSearch out)"
    then show "\<forall>i \<in> set [1..<length (classify out)]. classify out ! i = None \<longrightarrow>
                 cs < signalOf (fillSum (classify out) + 1)"
      using result_unstackable_tight[OF w sl out] by (simp add: n c cs_def)
  next
    assume "\<not> hasQA (initialSearch out)"
    then show "\<forall>x. Some x \<in> set (classify out) \<longrightarrow> quantity x = Some 1"
      using result_unit_quantities[OF w sl out] by (simp add: n)
  qed (simp_all add: c n so)
  then obtain st' where st': "runStrategy4 (runStrategy3 (runStrategy2 (runStrategy1 (initialSearch out)))) = Inr st'"
    "optimizedSlots st' = classify out" "currentSignal st' = cs" by blast
  then show ?thesis by (simp add: searchedSlots_def settled_strategy5[OF s])
qed

lemma layout_result_fixed:
  assumes w: "wellFormed slots" and sl: "searchedSlots slots = Inr sl" and out: "layout sl = Inr out"
  shows "layout (classify out) = Inr out"
proof -
  let ?flag = "\<lambda>item :: Slot. forceAdjusted item = Some True"
  define U where "U = filter (\<lambda>item. \<not> ?flag item) (finalItems sl)"
  define A where "A = sort_key sortKey (filter ?flag (finalItems sl))"
  from searched_reach[OF w] sl have r: "reach (classified slots) sl" by simp
  note f = classified_facts[OF w]
  have ls: "length sl = 54" "sl ! 0 = None" using r f reach_head[OF r] by (simp_all add: reach_def)
  then have occ: "length (nonNull sl) \<le> 53" using occupied_bound[of sl] by force
  have o: "out = [None] @ map Some U @ replicate (53 - length (nonNull sl)) None @ map Some A"
    using layout_result[OF occ] out by (simp add: U_def A_def)
  have nn: "nonNull out = U @ A" by (simp add: o)
  have ln: "length (nonNull out) = length (nonNull sl)"
    using arg_cong[OF layout_items(1)[OF out], of size] by simp
  have m: "markAdjusted (classify out) = out"
    using result_marked[OF w sl out]
    by (simp add: classify_result[OF w sl out] markAdjusted_markAll)
  have fin: "isAdjusted x = Some (forceAdjusted x = Some True)" if "x \<in> set (finalItems sl)" for x
    using that by (auto simp: finalItems_def)
  have sub: "set (U @ A) \<subseteq> set (finalItems sl)" by (auto simp: U_def A_def)
  have "map (\<lambda>item. item\<lparr>isAdjusted := Some (forceAdjusted item = Some True)\<rparr>) (U @ A) = U @ A"
  proof (rule map_idI)
    fix x assume "x \<in> set (U @ A)"
    then have "isAdjusted x = Some (forceAdjusted x = Some True)" using sub fin by blast
    then show "x\<lparr>isAdjusted := Some (forceAdjusted x = Some True)\<rparr> = x" by simp
  qed
  then have fi: "finalItems (classify out) = U @ A" by (simp add: finalItems_def m nn)
  have fU: "filter ?flag U = []" "filter (\<lambda>item. \<not> ?flag item) U = U" by (simp_all add: U_def)
  have fA: "filter ?flag A = A" "filter (\<lambda>item. \<not> ?flag item) A = []"
    by (auto simp: A_def filter_empty_conv intro: filter_True)
  have sA: "sort_key sortKey A = A" unfolding A_def by (rule sort_key_id_if_sorted) (rule sorted_sort_key)
  have le: "length (nonNull (classify out)) \<le> 53"
    using occ ln length_finalItems[of "classify out"] fi nn by simp
  have el: "length (nonNull (classify out)) = length (nonNull sl)"
    using ln length_finalItems[of "classify out"] fi nn by simp
  have "layout (classify out)
          = Inr ([None] @ map Some (filter (\<lambda>item. \<not> ?flag item) (finalItems (classify out)))
                 @ replicate (53 - length (nonNull (classify out))) None
                 @ map Some (sort_key sortKey (filter ?flag (finalItems (classify out)))))"
    by (rule layout_result[OF le])
  also have "\<dots> = Inr ([None] @ map Some U @ replicate (53 - length (nonNull sl)) None @ map Some A)"
    unfolding fi el by (simp add: fU fA sA)
  also have "\<dots> = Inr out" by (simp only: o)
  finally show ?thesis .
qed

text \<open>
  Claim C2. For every well-formed container the optimizer returns a container on which it
  returns that same container again: the second result equals the first in every slot and
  every field, the annotations \<open>originalIndex\<close>, \<open>isDuplicate\<close>, \<open>isAdjusted\<close>,
  \<open>forceAdjusted\<close> and \<open>quantity\<close> included.
\<close>

theorem optimizer_idempotent:
  "wellFormed slots \<Longrightarrow>
     \<exists>out. optimizeForRedstone slots = Inr out \<and> optimizeForRedstone out = Inr out"
proof (cases "list_all (\<lambda>x. x = None) slots")
  case True
  then show ?thesis by (simp add: optimizeForRedstone_searched)
next
  case False
  assume w: "wellFormed slots"
  from optimize_layout[OF w] False obtain sl out where
    sl: "searchedSlots slots = Inr sl" "layout sl = Inr out" "optimizeForRedstone slots = Inr out"
    by auto
  have "optimizeForRedstone out = Inr out"
    using searched_result[OF w sl(1,2)] layout_result_fixed[OF w sl(1,2)]
    by (simp add: optimizeForRedstone_searched)
  then show ?thesis using sl(3) by blast
qed

text \<open>The theorem at the container of the test file, one unstackable item in slot 1.\<close>

theorem optimizer_idempotent_witness:
  "wellFormed singleUnstackable \<and>
   (\<exists>out. optimizeForRedstone singleUnstackable = Inr out \<and> optimizeForRedstone out = Inr out)"
  using optimizer_idempotent[OF wellFormed_singleUnstackable] wellFormed_singleUnstackable by blast

end
